(* ===== verification/Prelude.thy ===== *)
theory Prelude
  imports Main "HOL-Library.Word" "HOL-Library.Char_ord" "HOL-Library.List_Lexorder"
    "HOL-Library.Sublist"
begin

section \<open>Shared vocabulary of the development\<close>

text \<open>
  What every component uses: the byte strings of the program, results with an error
  branch (Rust's \<open>Result\<close> and its \<open>?\<close> operator), loops that stop at the
  first error, slices cut into chunks, and the order on strings. A Rust \<open>String\<close>
  is a sequence of UTF-8 bytes whose length and order are those of its bytes, so both
  \<open>String\<close> and \<open>Vec<u8>\<close> are lists of characters, one character per byte.
\<close>

type_synonym bytes = string

type_synonym u8 = "8 word"
type_synonym u16 = "16 word"
type_synonym u32 = "32 word"
type_synonym u64 = "64 word"

named_theorems wire_simps \<open>byte encodings: lengths and round trips\<close>
named_theorems key_simps \<open>the key layout: which key lies under which prefix\<close>
named_theorems store_simps \<open>lookups in an updated store\<close>

subsection \<open>Results and early returns\<close>

definition rbind :: "'e + 'a \<Rightarrow> ('a \<Rightarrow> 'e + 'b) \<Rightarrow> 'e + 'b" where
  "rbind r f = (case r of Inl e \<Rightarrow> Inl e | Inr a \<Rightarrow> f a)"

lemma rbind_simps [simp]:
  "rbind (Inl e) f = Inl e"
  "rbind (Inr a) f = f a"
  by (simp_all add: rbind_def)

lemma rbind_Inr_iff [simp]:
  "rbind r f = Inr b \<longleftrightarrow> (\<exists>a. r = Inr a \<and> f a = Inr b)"
  by (cases r) auto

lemma rbind_Inl_iff:
  "rbind r f = Inl e \<longleftrightarrow> r = Inl e \<or> (\<exists>a. r = Inr a \<and> f a = Inl e)"
  by (cases r) auto

definition ok_or :: "'e \<Rightarrow> 'a option \<Rightarrow> 'e + 'a" where
  "ok_or e x = (case x of None \<Rightarrow> Inl e | Some a \<Rightarrow> Inr a)"

lemma ok_or_simps [simp]:
  "ok_or e None = Inl e"
  "ok_or e (Some a) = Inr a"
  by (simp_all add: ok_or_def)

lemma ok_or_Inr_iff [simp]: "ok_or e x = Inr a \<longleftrightarrow> x = Some a"
  by (cases x) auto

lemma ok_or_Inl_iff [simp]: "ok_or e x = Inl e' \<longleftrightarrow> x = None \<and> e' = e"
  by (cases x) auto

text \<open>A \<open>for\<close> loop whose body may return early with an error.\<close>

fun for_each :: "('a \<Rightarrow> 'e + unit) \<Rightarrow> 'a list \<Rightarrow> 'e + unit" where
  "for_each f [] = Inr ()"
| "for_each f (x # xs) = rbind (f x) (\<lambda>_. for_each f xs)"

lemma for_each_Inr_iff [simp]:
  "for_each f xs = Inr u \<longleftrightarrow> (\<forall>x \<in> set xs. f x = Inr ())"
  by (induction xs) auto

text \<open>The same loop threading an accumulator.\<close>

fun fold_res :: "('a \<Rightarrow> 's \<Rightarrow> 'e + 's) \<Rightarrow> 'a list \<Rightarrow> 's \<Rightarrow> 'e + 's" where
  "fold_res f [] s = Inr s"
| "fold_res f (x # xs) s = rbind (f x s) (fold_res f xs)"

lemma fold_res_append:
  "fold_res f (xs @ ys) s = rbind (fold_res f xs s) (fold_res f ys)"
  by (induction xs arbitrary: s) (auto simp: rbind_def split: sum.splits)

lemma fold_res_invariant:
  assumes "fold_res f xs s = Inr t" and "P s"
    and "\<And>x s t. x \<in> set xs \<Longrightarrow> f x s = Inr t \<Longrightarrow> P s \<Longrightarrow> P t"
  shows "P t"
  using assms
proof (induction xs arbitrary: s)
  case Nil
  then show ?case by simp
next
  case (Cons x xs)
  from Cons.prems(1) obtain u where u: "f x s = Inr u" "fold_res f xs u = Inr t"
    by auto
  from Cons.prems(3)[OF _ u(1) Cons.prems(2)] have "P u" by simp
  then show ?case by (rule Cons.IH[OF u(2)]) (rule Cons.prems(3); simp)
qed

text \<open>Mapping a fallible function over a list (\<open>collect::<Result<Vec<_>>>\<close>).\<close>

fun collect_res :: "('a \<Rightarrow> 'e + 'b) \<Rightarrow> 'a list \<Rightarrow> 'e + 'b list" where
  "collect_res f [] = Inr []"
| "collect_res f (x # xs) =
     rbind (f x) (\<lambda>y. rbind (collect_res f xs) (\<lambda>ys. Inr (y # ys)))"

lemma collect_res_Inr_iff:
  "collect_res f xs = Inr ys \<longleftrightarrow> list_all2 (\<lambda>x y. f x = Inr y) xs ys"
  by (induction xs arbitrary: ys) (auto simp: list_all2_Cons1)

lemma collect_res_map:
  "(\<And>x. x \<in> set xs \<Longrightarrow> f x = Inr (g x)) \<Longrightarrow> collect_res f xs = Inr (map g xs)"
  by (induction xs) auto

lemma subseq_set_distinct: "subseq xs ys \<Longrightarrow> set xs \<subseteq> set ys \<and> (distinct ys \<longrightarrow> distinct xs)"
  by (induction rule: list_emb.induct) auto

subsection \<open>Slices in chunks\<close>

text \<open>\<open>slice.chunks(n)\<close>; every call of the program has \<open>n > 0\<close> (Rust panics at 0).\<close>

function chunks :: "nat \<Rightarrow> 'a list \<Rightarrow> 'a list list" where
  "chunks n xs = (if xs = [] \<or> n = 0 then [] else take n xs # chunks n (drop n xs))"
  by pat_completeness auto
termination
  by (relation "measure (\<lambda>(n, xs). length xs)") auto

declare chunks.simps [simp del]

lemma chunks_Nil [simp]: "chunks n [] = []"
  by (subst chunks.simps) simp

lemma concat_chunks: "0 < n \<Longrightarrow> concat (chunks n xs) = xs"
proof (induction n xs rule: chunks.induct)
  case (1 n xs)
  then show ?case by (cases "xs = []") (simp_all add: chunks.simps[of n xs])
qed

lemma chunks_length_le: "c \<in> set (chunks n xs) \<Longrightarrow> length c \<le> n"
proof (induction n xs rule: chunks.induct)
  case (1 n xs)
  then show ?case by (auto simp: chunks.simps[of n xs] split: if_splits)
qed

lemma chunks_nonempty: "c \<in> set (chunks n xs) \<Longrightarrow> c \<noteq> []"
proof (induction n xs rule: chunks.induct)
  case (1 n xs)
  then show ?case by (auto simp: chunks.simps[of n xs] split: if_splits)
qed

text \<open>\<open>usize::div_ceil\<close> and the number of chunks.\<close>

definition div_ceil :: "nat \<Rightarrow> nat \<Rightarrow> nat" where
  "div_ceil a b = (a + b - 1) div b"

lemma div_ceil_step:
  assumes "0 < n" "0 < l"
  shows "div_ceil l n = Suc (div_ceil (l - n) n)"
proof (cases "l \<le> n")
  case True
  with assms have "div_ceil l n = 1"
    unfolding div_ceil_def by (intro div_nat_eqI) auto
  moreover from True assms have "div_ceil (l - n) n = 0"
    by (simp add: div_ceil_def)
  ultimately show ?thesis by simp
next
  case False
  then have "l + n - 1 = (l - n + n - 1) + n" using assms by linarith
  then have "div_ceil l n = ((l - n + n - 1) + n) div n" by (simp only: div_ceil_def)
  also have "\<dots> = Suc ((l - n + n - 1) div n)"
    by (subst div_add_self2) (use assms(1) in simp_all)
  finally show ?thesis by (simp only: div_ceil_def)
qed

lemma length_chunks: "0 < n \<Longrightarrow> length (chunks n xs) = div_ceil (length xs) n"
proof (induction n xs rule: chunks.induct)
  case (1 n xs)
  show ?case
  proof (cases "xs = []")
    case True
    with 1 show ?thesis by (simp add: div_ceil_def)
  next
    case False
    with 1 have IH: "length (chunks n (drop n xs)) = div_ceil (length xs - n) n" by simp
    have "div_ceil (length xs) n = Suc (div_ceil (length xs - n) n)"
      by (rule div_ceil_step) (use False \<open>0 < n\<close> in auto)
    with False IH \<open>0 < n\<close> show ?thesis by (simp add: chunks.simps[of n xs])
  qed
qed

subsection \<open>Strings\<close>

abbreviation newline :: char where "newline \<equiv> CHR 0x0A"
abbreviation dquote :: char where "dquote \<equiv> CHR 0x22"
abbreviation squote :: char where "squote \<equiv> CHR 0x27"
abbreviation slash :: char where "slash \<equiv> CHR 0x2F"
abbreviation backslash :: char where "backslash \<equiv> CHR 0x5C"

text \<open>The en dash of the program's messages, as its three UTF-8 bytes.\<close>

abbreviation en_dash :: string where "en_dash \<equiv> [CHR 0xE2, CHR 0x80, CHR 0x93]"

text \<open>\<open>str::split\<close> at a character predicate: always at least one piece.\<close>

fun split_on :: "(char \<Rightarrow> bool) \<Rightarrow> string \<Rightarrow> string list" where
  "split_on p [] = [[]]"
| "split_on p (c # cs) =
     (if p c then [] # split_on p cs
      else (case split_on p cs of [] \<Rightarrow> [[c]] | w # ws \<Rightarrow> (c # w) # ws))"

lemma split_on_nonempty [simp]: "split_on p cs \<noteq> []"
  by (cases cs) (auto split: list.splits)

lemma split_on_no_sep: "w \<in> set (split_on p cs) \<Longrightarrow> c \<in> set w \<Longrightarrow> \<not> p c"
proof (induction cs arbitrary: w)
  case Nil
  then show ?case by simp
next
  case (Cons d ds)
  show ?case
  proof (cases "split_on p ds")
    case Nil
    then show ?thesis by (simp add: split_on_nonempty)
  next
    case (Cons v vs)
    with Cons.prems Cons.IH[of v] Cons.IH[of w] show ?thesis by (auto split: if_splits)
  qed
qed

lemma split_on_append_sep:
  "\<forall>c \<in> set xs. \<not> p c \<Longrightarrow> p d \<Longrightarrow> split_on p (xs @ d # ys) = xs # split_on p ys"
  by (induction xs) auto

lemma split_on_id: "\<forall>c \<in> set xs. \<not> p c \<Longrightarrow> split_on p xs = [xs]"
  by (induction xs) auto

abbreviation split_slash :: "string \<Rightarrow> string list" where
  "split_slash \<equiv> split_on (\<lambda>c. c = slash)"

text \<open>\<open>str::strip_prefix\<close> and \<open>str::trim_end_matches\<close> for one character.\<close>

definition strip_prefix :: "string \<Rightarrow> string \<Rightarrow> string option" where
  "strip_prefix p s = (if prefix p s then Some (drop (length p) s) else None)"

definition trim_end :: "char \<Rightarrow> string \<Rightarrow> string" where
  "trim_end c s = rev (dropWhile (\<lambda>d. d = c) (rev s))"

abbreviation trim_slashes :: "string \<Rightarrow> string" where
  "trim_slashes \<equiv> trim_end slash"

text \<open>Decimal and hexadecimal digits, zero-padded as in \<open>{:04}\<close> and \<open>{:016x}\<close>.\<close>

definition hex_digit :: "nat \<Rightarrow> char" where
  "hex_digit n = (if n < 10 then char_of (48 + n) else char_of (87 + n))"

fun digits_rev :: "nat \<Rightarrow> nat \<Rightarrow> nat \<Rightarrow> string" where
  "digits_rev base 0 n = []"
| "digits_rev base (Suc w) n = hex_digit (n mod base) # digits_rev base w (n div base)"

definition hex_padded :: "nat \<Rightarrow> nat \<Rightarrow> string" where
  "hex_padded w n = rev (digits_rev 16 w n)"

lemma length_digits_rev [simp]: "length (digits_rev b w n) = w"
  by (induction w arbitrary: n) auto

lemma length_hex_padded [simp]: "length (hex_padded w n) = w"
  by (simp add: hex_padded_def)

text \<open>
  \<open>format!("{n:0w$}")\<close> pads to at least \<open>w\<close> digits and prints more when they are
  needed; \<open>dec_width\<close> is the number of digits of \<open>n\<close>.
\<close>

fun dec_width :: "nat \<Rightarrow> nat" where
  "dec_width n = (if n < 10 then 1 else Suc (dec_width (n div 10)))"

declare dec_width.simps [simp del]

definition dec_padded :: "nat \<Rightarrow> nat \<Rightarrow> string" where
  "dec_padded w n = rev (digits_rev 10 (max w (dec_width n)) n)"

lemma hex_digit_inj: "m < 16 \<Longrightarrow> n < 16 \<Longrightarrow> hex_digit m = hex_digit n \<longleftrightarrow> m = n"
proof -
  assume m: "m < 16" and n: "n < 16"
  have code: "of_char (hex_digit k) = (if k < 10 then 48 + k else 87 + k)" if "k < 16" for k :: nat
    using that by (auto simp: hex_digit_def of_char_of)
  show ?thesis
  proof
    assume "hex_digit m = hex_digit n"
    then have "of_char (hex_digit m) = (of_char (hex_digit n) :: nat)" by simp
    with code[OF m] code[OF n] m n show "m = n" by (auto split: if_splits)
  qed simp
qed

lemma hex_digit_less: "m < 16 \<Longrightarrow> n < 16 \<Longrightarrow> hex_digit m < hex_digit n \<longleftrightarrow> m < n"
proof -
  assume m: "m < 16" and n: "n < 16"
  have code: "of_char (hex_digit k) = (if k < 10 then 48 + k else 87 + k)" if "k < 16" for k :: nat
    using that by (auto simp: hex_digit_def of_char_of)
  show ?thesis
    unfolding less_char_def using code[OF m] code[OF n] m n by (auto split: if_splits)
qed

lemma digits_rev_inj:
  "1 < b \<Longrightarrow> b \<le> 16 \<Longrightarrow> m < b ^ w \<Longrightarrow> n < b ^ w \<Longrightarrow>
    digits_rev b w m = digits_rev b w n \<longleftrightarrow> m = n"
proof (induction w arbitrary: m n)
  case 0
  then show ?case by simp
next
  case (Suc w)
  have less: "m div b < b ^ w" "n div b < b ^ w"
    using Suc.prems by (auto simp: less_mult_imp_div_less mult.commute)
  have "m mod b < 16" "n mod b < 16"
    using Suc.prems(1,2) by (meson less_le_trans mod_less_divisor order.strict_trans zero_less_one)+
  then have "digits_rev b (Suc w) m = digits_rev b (Suc w) n \<longleftrightarrow>
      m mod b = n mod b \<and> m div b = n div b"
    using Suc.IH[OF Suc.prems(1,2) less] by (simp add: hex_digit_inj)
  also have "\<dots> \<longleftrightarrow> m = n"
    by (metis div_mult_mod_eq)
  finally show ?case .
qed

subsection \<open>The order on strings\<close>

lemma list_less_append_same: "(xs @ ys < xs @ zs) = (ys < (zs :: 'a :: linorder list))"
  by (induction xs) auto

lemma list_less_same_length_Cons:
  "length ys = length zs \<Longrightarrow> ys < zs \<Longrightarrow> ys @ us < zs @ (vs :: 'a :: linorder list)"
proof (induction ys zs rule: list_induct2)
  case Nil
  then show ?case by simp
next
  case (Cons y ys z zs)
  then show ?case by auto
qed

lemma prefix_append_same [simp]: "prefix (xs @ ys) (xs @ zs) = prefix ys zs"
  by (simp add: prefix_def)

end
