(* ===== verification/Wire.thy ===== *)
theory Wire
  imports Prelude
begin

section \<open>Little-endian integers and sequential decoding\<close>

text \<open>
  The binary formats of the program (vector blocks, backup records, revision values) are
  built from \<open>to_le_bytes\<close> and read back front to back. The locale \<open>wire_codec\<close> is the
  contract between an encoder and its decoder: decoding an encoding followed by anything
  gives the value and the rest. What follows from it alone (unique decoding, sequences)
  is proved once there; the interpretations are the integers of each width.
\<close>

fun le_nat :: "nat \<Rightarrow> nat \<Rightarrow> bytes" where
  "le_nat 0 n = []"
| "le_nat (Suc k) n = char_of n # le_nat k (n div 256)"

fun nat_le :: "bytes \<Rightarrow> nat" where
  "nat_le [] = 0"
| "nat_le (c # cs) = of_char c + 256 * nat_le cs"

lemma length_le_nat [simp]: "length (le_nat k n) = k"
  by (induction k arbitrary: n) auto

lemma nat_le_le_nat: "nat_le (le_nat k n) = n mod 256 ^ k"
proof (induction k arbitrary: n)
  case 0
  then show ?case by simp
next
  case (Suc k)
  have "n mod 256 + 256 * (n div 256 mod 256 ^ k) = n mod (256 * 256 ^ k)"
    by (simp add: mod_mult2_eq)
  with Suc show ?case by (simp add: of_char_of)
qed

lemma nat_le_bound: "nat_le bs < 256 ^ length bs"
proof (induction bs)
  case Nil
  then show ?case by simp
next
  case (Cons c cs)
  have "of_char c < (256 :: nat)" by simp
  have "nat_le cs + 1 \<le> 256 ^ length cs" using Cons by simp
  then have "256 * (nat_le cs + 1) \<le> 256 * 256 ^ length cs" by (rule mult_le_mono2)
  moreover have "of_char c + 256 * nat_le cs < 256 * (nat_le cs + 1)"
    using \<open>of_char c < (256 :: nat)\<close> by (simp only: distrib_left)
  ultimately have "of_char c + 256 * nat_le cs < 256 * 256 ^ length cs"
    by (rule order.strict_trans2[rotated])
  then show ?case by simp
qed

lemma le_nat_nat_le: "le_nat (length bs) (nat_le bs) = bs"
proof (induction bs)
  case Nil
  then show ?case by simp
next
  case (Cons c cs)
  have c: "of_char c < (256 :: nat)" by simp
  then have "(of_char c + 256 * nat_le cs) div 256 = nat_le cs" by simp
  moreover have "char_of (of_char c + 256 * nat_le cs) = c"
    using char_of_mod_256[of "of_char c + 256 * nat_le cs"] c by simp
  ultimately show ?case using Cons by simp
qed

lemma le_word_mod: "2 ^ LENGTH('a :: len) = m \<Longrightarrow> unat (x :: 'a word) mod m = unat x"
  by (metis mod_less unsigned_less)

definition u16_to_le :: "u16 \<Rightarrow> bytes" where "u16_to_le x = le_nat 2 (unat x)"
definition u32_to_le :: "u32 \<Rightarrow> bytes" where "u32_to_le x = le_nat 4 (unat x)"
definition u64_to_le :: "u64 \<Rightarrow> bytes" where "u64_to_le x = le_nat 8 (unat x)"

definition u16_from_le :: "bytes \<Rightarrow> u16" where "u16_from_le bs = of_nat (nat_le bs)"
definition u32_from_le :: "bytes \<Rightarrow> u32" where "u32_from_le bs = of_nat (nat_le bs)"
definition u64_from_le :: "bytes \<Rightarrow> u64" where "u64_from_le bs = of_nat (nat_le bs)"

lemma length_to_le [wire_simps, simp]:
  "length (u16_to_le a) = 2" "length (u32_to_le b) = 4" "length (u64_to_le c) = 8"
  by (simp_all add: u16_to_le_def u32_to_le_def u64_to_le_def)

lemma from_le_to_le [wire_simps, simp]:
  "u16_from_le (u16_to_le a) = a"
  "u32_from_le (u32_to_le b) = b"
  "u64_from_le (u64_to_le c) = c"
  by (simp_all add: u16_from_le_def u16_to_le_def u32_from_le_def u32_to_le_def
      u64_from_le_def u64_to_le_def nat_le_le_nat
      le_word_mod[of _ a] le_word_mod[of _ b] le_word_mod[of _ c])

lemma u32_to_le_from_le: "length bs = 4 \<Longrightarrow> u32_to_le (u32_from_le bs) = bs"
  using nat_le_bound[of bs] le_nat_nat_le[of bs]
  by (simp add: u32_to_le_def u32_from_le_def unat_of_nat take_bit_eq_mod)

lemma u64_to_le_from_le: "length bs = 8 \<Longrightarrow> u64_to_le (u64_from_le bs) = bs"
  using nat_le_bound[of bs] le_nat_nat_le[of bs]
  by (simp add: u64_to_le_def u64_from_le_def unat_of_nat take_bit_eq_mod)

lemma u64_to_le_inject [simp]: "u64_to_le a = u64_to_le b \<longleftrightarrow> a = b"
  by (metis from_le_to_le(3))

subsection \<open>Reading from the front\<close>

text \<open>\<open>rest.get(..n).ok_or(e)?\<close> and \<open>read_exact\<close>: the first \<open>n\<close> bytes and the rest.\<close>

definition take_exact :: "'e \<Rightarrow> nat \<Rightarrow> bytes \<Rightarrow> 'e + (bytes \<times> bytes)" where
  "take_exact e n bs = (if n \<le> length bs then Inr (take n bs, drop n bs) else Inl e)"

lemma take_exact_append [wire_simps, simp]:
  "n = length xs \<Longrightarrow> take_exact e n (xs @ ys) = Inr (xs, ys)"
  by (simp add: take_exact_def)

lemma take_exact_Inr_iff:
  "take_exact e n bs = Inr (a, r) \<longleftrightarrow> bs = a @ r \<and> length a = n"
  by (auto simp: take_exact_def)

lemma take_exact_Inl_iff:
  "take_exact e n bs = Inl e' \<longleftrightarrow> e' = e \<and> length bs < n"
  by (auto simp: take_exact_def)

definition read_u16 :: "'e \<Rightarrow> bytes \<Rightarrow> 'e + (u16 \<times> bytes)" where
  "read_u16 e bs = rbind (take_exact e 2 bs) (\<lambda>(b, r). Inr (u16_from_le b, r))"
definition read_u32 :: "'e \<Rightarrow> bytes \<Rightarrow> 'e + (u32 \<times> bytes)" where
  "read_u32 e bs = rbind (take_exact e 4 bs) (\<lambda>(b, r). Inr (u32_from_le b, r))"
definition read_u64 :: "'e \<Rightarrow> bytes \<Rightarrow> 'e + (u64 \<times> bytes)" where
  "read_u64 e bs = rbind (take_exact e 8 bs) (\<lambda>(b, r). Inr (u64_from_le b, r))"

text \<open>A loop that reads \<open>n\<close> values.\<close>

fun parse_n :: "(bytes \<Rightarrow> 'e + ('a \<times> bytes)) \<Rightarrow> nat \<Rightarrow> bytes \<Rightarrow> 'e + ('a list \<times> bytes)" where
  "parse_n d 0 bs = Inr ([], bs)"
| "parse_n d (Suc n) bs =
     rbind (d bs) (\<lambda>(x, r). rbind (parse_n d n r) (\<lambda>(xs, r'). Inr (x # xs, r')))"

subsection \<open>The contract\<close>

locale wire_codec =
  fixes enc :: "'a \<Rightarrow> bytes"
    and dec :: "bytes \<Rightarrow> 'e + ('a \<times> bytes)"
    and valid :: "'a \<Rightarrow> bool"
  assumes dec_enc: "valid a \<Longrightarrow> dec (enc a @ rest) = Inr (a, rest)"
begin

lemma enc_append_inj:
  "valid a \<Longrightarrow> valid b \<Longrightarrow> enc a @ r = enc b @ s \<Longrightarrow> a = b \<and> r = s"
  by (metis Inr_inject Pair_inject dec_enc)

lemma dec_enc_all: "valid a \<Longrightarrow> dec (enc a) = Inr (a, [])"
  using dec_enc[of a "[]"] by simp

lemma parse_n_concat:
  "\<forall>a \<in> set as. valid a \<Longrightarrow>
    parse_n dec (length as) (concat (map enc as) @ rest) = Inr (as, rest)"
  by (induction as) (simp_all add: dec_enc)

lemma concat_enc_inj:
  assumes "\<forall>a \<in> set as. valid a" "\<forall>b \<in> set bs. valid b" "length as = length bs"
    and "concat (map enc as) = concat (map enc bs)"
  shows "as = bs"
  using parse_n_concat[OF assms(1), of "[]"] parse_n_concat[OF assms(2), of "[]"] assms(3,4)
  by simp

end

interpretation u16: wire_codec u16_to_le "read_u16 e" "\<lambda>_. True"
  by unfold_locales (simp add: read_u16_def)

interpretation u32: wire_codec u32_to_le "read_u32 e" "\<lambda>_. True"
  by unfold_locales (simp add: read_u32_def)

interpretation u64: wire_codec u64_to_le "read_u64 e" "\<lambda>_. True"
  by unfold_locales (simp add: read_u64_def)

end
