(* ===== verification/BTree.thy ===== *)
theory BTree
  imports Prelude
begin

section \<open>Ordered maps as sorted association lists\<close>

text \<open>
  \<open>BTreeMap\<close> and the key space of SlateDB are both finite maps iterated in key order.
  Both are modelled by association lists with strictly increasing keys: \<open>bt_get\<close>,
  \<open>bt_put\<close>, \<open>bt_del\<close> and iteration over the list. The locale \<open>ordered_map\<close> is the
  contract their users rely on, and the section ends with its interpretation on these
  definitions.
\<close>

type_synonym ('k, 'v) btree = "('k \<times> 'v) list"

abbreviation keys_of :: "('k, 'v) btree \<Rightarrow> 'k list" where
  "keys_of t \<equiv> map fst t"

definition bt_ok :: "('k :: linorder, 'v) btree \<Rightarrow> bool" where
  "bt_ok t \<longleftrightarrow> sorted_wrt (<) (keys_of t)"

fun bt_get :: "('k, 'v) btree \<Rightarrow> 'k \<Rightarrow> 'v option" where
  "bt_get [] k = None"
| "bt_get ((a, b) # t) k = (if a = k then Some b else bt_get t k)"

fun bt_put :: "'k :: linorder \<Rightarrow> 'v \<Rightarrow> ('k, 'v) btree \<Rightarrow> ('k, 'v) btree" where
  "bt_put k v [] = [(k, v)]"
| "bt_put k v ((a, b) # t) =
     (if k < a then (k, v) # (a, b) # t
      else if k = a then (k, v) # t
      else (a, b) # bt_put k v t)"

definition bt_del :: "'k \<Rightarrow> ('k, 'v) btree \<Rightarrow> ('k, 'v) btree" where
  "bt_del k t = filter (\<lambda>(a, b). a \<noteq> k) t"

lemma bt_get_None_iff: "bt_get t k = None \<longleftrightarrow> k \<notin> set (keys_of t)"
  by (induction t k rule: bt_get.induct) auto

lemma bt_get_in: "bt_get t k = Some v \<Longrightarrow> (k, v) \<in> set t"
  by (induction t k rule: bt_get.induct) (auto split: if_splits)

lemma bt_ok_Nil [simp]: "bt_ok []"
  by (simp add: bt_ok_def)

lemma bt_ok_Cons [simp]:
  "bt_ok ((a, b) # t) \<longleftrightarrow> (\<forall>k \<in> set (keys_of t). a < k) \<and> bt_ok t"
  by (simp add: bt_ok_def)

lemma bt_ok_distinct: "bt_ok t \<Longrightarrow> distinct (keys_of t)"
  unfolding bt_ok_def by (auto dest: strict_sorted_imp_sorted simp: strict_sorted_iff)

lemma bt_get_iff: "bt_ok t \<Longrightarrow> bt_get t k = Some v \<longleftrightarrow> (k, v) \<in> set t"
proof (induction t)
  case Nil
  then show ?case by simp
next
  case (Cons p t)
  obtain a b where "p = (a, b)" by force
  with Cons show ?case by (auto dest: bt_get_in)
qed

lemma set_keys_bt_put [simp]: "set (keys_of (bt_put k v t)) = insert k (set (keys_of t))"
  by (induction k v t rule: bt_put.induct) auto

lemma bt_ok_bt_put [simp]: "bt_ok t \<Longrightarrow> bt_ok (bt_put k v t)"
proof (induction k v t rule: bt_put.induct)
  case (2 k v a b t)
  then have "bt_ok t" and less: "\<forall>x \<in> set (keys_of t). a < x" by simp_all
  show ?case
  proof (cases k a rule: linorder_cases)
    case greater
    with 2 \<open>bt_ok t\<close> have "bt_ok (bt_put k v t)" by simp
    moreover from less greater have "\<forall>x \<in> set (keys_of (bt_put k v t)). a < x"
      by (simp only: set_keys_bt_put) simp
    ultimately show ?thesis using greater order.asym[OF greater] by (auto simp del: set_map)
  qed (use 2 in \<open>auto dest: order.strict_trans\<close>)
qed simp

lemma bt_get_bt_put [simp]:
  "bt_ok t \<Longrightarrow> bt_get (bt_put k v t) k' = (if k' = k then Some v else bt_get t k')"
proof (induction k v t rule: bt_put.induct)
  case (1 k v)
  then show ?case by simp
next
  case (2 k v a b t)
  moreover have "bt_get t k = None" if "k < a"
    using 2(2) that by (auto simp: bt_get_None_iff)
  ultimately show ?case by auto
qed

lemma bt_ok_filter [simp]: "bt_ok t \<Longrightarrow> bt_ok (filter P t)"
  by (induction t) auto

lemma bt_get_filter:
  "bt_ok t \<Longrightarrow> bt_get (filter P t) k =
    (case bt_get t k of None \<Rightarrow> None | Some v \<Rightarrow> if P (k, v) then Some v else None)"
proof (induction t)
  case Nil
  then show ?case by simp
next
  case (Cons p t)
  obtain a b where p: "p = (a, b)" by force
  with Cons have IH: "bt_get (filter P t) k =
      (case bt_get t k of None \<Rightarrow> None | Some v \<Rightarrow> if P (k, v) then Some v else None)"
    by simp
  have "bt_get t a = None"
    using Cons.prems p by (auto simp: bt_get_None_iff)
  with IH p show ?case by (cases "a = k") auto
qed

lemma bt_ok_bt_del [simp]: "bt_ok t \<Longrightarrow> bt_ok (bt_del k t)"
  by (simp add: bt_del_def)

lemma bt_get_bt_del [simp]:
  "bt_ok t \<Longrightarrow> bt_get (bt_del k t) k' = (if k' = k then None else bt_get t k')"
  by (auto simp: bt_del_def bt_get_filter split: option.splits)

text \<open>Two ordered maps with the same lookups are the same list.\<close>

lemma bt_ok_ext:
  assumes "bt_ok s" "bt_ok t" "\<And>k. bt_get s k = bt_get t k"
  shows "s = t"
proof -
  have eq: "set s = set t"
    using assms by (auto simp: bt_get_iff[symmetric])
  have "distinct (keys_of s)" "sorted (keys_of s)" "distinct (keys_of t)" "sorted (keys_of t)"
    using assms(1,2) by (simp_all add: bt_ok_def strict_sorted_iff)
  moreover from this have "inj_on fst (set s \<union> set t)"
    by (simp add: eq distinct_map)
  ultimately show ?thesis
    using eq by (intro map_sorted_distinct_set_unique[where f = fst])
qed

subsection \<open>The contract\<close>

locale ordered_map =
  fixes emp :: "'m"
    and get :: "'m \<Rightarrow> 'k :: linorder \<Rightarrow> 'v option"
    and put :: "'k \<Rightarrow> 'v \<Rightarrow> 'm \<Rightarrow> 'm"
    and del :: "'k \<Rightarrow> 'm \<Rightarrow> 'm"
    and rows :: "'m \<Rightarrow> ('k \<times> 'v) list"
    and ok :: "'m \<Rightarrow> bool"
  assumes ok_emp: "ok emp"
    and ok_put: "ok m \<Longrightarrow> ok (put k v m)"
    and ok_del: "ok m \<Longrightarrow> ok (del k m)"
    and get_emp: "get emp k = None"
    and get_put: "ok m \<Longrightarrow> get (put k v m) k' = (if k' = k then Some v else get m k')"
    and get_del: "ok m \<Longrightarrow> get (del k m) k' = (if k' = k then None else get m k')"
    and rows_sorted: "ok m \<Longrightarrow> sorted_wrt (<) (map fst (rows m))"
    and rows_get: "ok m \<Longrightarrow> (k, v) \<in> set (rows m) \<longleftrightarrow> get m k = Some v"
begin

text \<open>A batch of changes, applied in order; the last change of a key wins.\<close>

lemma ok_fold_put: "ok m \<Longrightarrow> ok (fold (\<lambda>(k, v). put k v) kvs m)"
  by (induction kvs arbitrary: m) (auto intro: ok_put)

lemma get_fold_put_other:
  "ok m \<Longrightarrow> k \<notin> fst ` set kvs \<Longrightarrow> get (fold (\<lambda>(k, v). put k v) kvs m) k = get m k"
  by (induction kvs arbitrary: m) (auto simp: get_put ok_put)

lemma get_fold_put:
  "ok m \<Longrightarrow> distinct (map fst kvs) \<Longrightarrow> (k, v) \<in> set kvs \<Longrightarrow>
    get (fold (\<lambda>(k, v). put k v) kvs m) k = Some v"
proof (induction kvs arbitrary: m)
  case Nil
  then show ?case by simp
next
  case (Cons p kvs)
  obtain a b where p: "p = (a, b)" by force
  show ?case
  proof (cases "(k, v) = (a, b)")
    case True
    with Cons.prems p have "k \<notin> fst ` set kvs" by auto
    with True Cons.prems p show ?thesis by (simp add: get_fold_put_other ok_put get_put)
  next
    case False
    with Cons p show ?thesis by (auto simp: ok_put)
  qed
qed

lemma rows_keys_distinct: "ok m \<Longrightarrow> distinct (map fst (rows m))"
  using rows_sorted strict_sorted_iff by blast

lemma rows_empty_iff: "ok m \<Longrightarrow> rows m = [] \<longleftrightarrow> (\<forall>k. get m k = None)"
  using rows_get by (metis list.set_intros(1) neq_Nil_conv not_None_eq surj_pair empty_iff list.set(1))

end

interpretation bt: ordered_map "[]" bt_get bt_put bt_del "\<lambda>t. t" bt_ok
  by unfold_locales (auto simp: bt_get_iff bt_ok_def[symmetric])

text \<open>Updating a key that keeps its value, and updates of different keys commute.\<close>

lemma bt_put_same: "bt_ok t \<Longrightarrow> bt_get t k = Some v \<Longrightarrow> bt_put k v t = t"
  by (rule bt_ok_ext) auto

lemma bt_put_commute:
  "bt_ok t \<Longrightarrow> k \<noteq> l \<Longrightarrow> bt_put k v (bt_put l w t) = bt_put l w (bt_put k v t)"
  by (rule bt_ok_ext) auto

lemma bt_ok_map_fst: "bt_ok t \<Longrightarrow> map fst u = map fst t \<Longrightarrow> bt_ok u"
  by (simp add: bt_ok_def)

end
