(* ===== verification/Ieee.thy ===== *)
theory Ieee
  imports Prelude "HOL-Library.Code_Target_Nat"
begin

section \<open>Floating point: Rust's \<open>f32\<close> and \<open>f64\<close>\<close>

text \<open>
  \<open>f32\<close> and \<open>f64\<close> are modelled by their bits (IEEE 754 binary32 and binary64), so that
  \<open>to_bits\<close>, \<open>to_le_bytes\<close>, \<open>is_finite\<close>, \<open>total_cmp\<close> and the comparisons are exact.
  Arithmetic decodes the operands into a sign, an integer mantissa and an exponent,
  computes the exact result, and rounds it to nearest, ties to even. Rust leaves the
  payload and sign of a NaN result open; the model returns one quiet NaN. Transcendental
  functions (\<open>ln\<close>) have no specified precision in Rust and stay parameters of their
  users.
\<close>

unbundle bit_operations_syntax

type_synonym f32 = "32 word"
type_synonym f64 = "64 word"

subsection \<open>Bits, classes and comparisons\<close>

definition f64_sign :: "f64 \<Rightarrow> bool" where "f64_sign x \<longleftrightarrow> 2 ^ 63 \<le> unat x"
definition f64_mag :: "f64 \<Rightarrow> nat" where "f64_mag x = unat x mod 2 ^ 63"
definition f32_mag :: "f32 \<Rightarrow> nat" where "f32_mag x = unat x mod 2 ^ 31"

text \<open>The magnitude bits of infinity; everything above is a NaN.\<close>

definition f64_inf_mag :: nat where "f64_inf_mag = 2047 * 2 ^ 52"
definition f32_inf_mag :: nat where "f32_inf_mag = 255 * 2 ^ 23"

definition f64_is_finite :: "f64 \<Rightarrow> bool" where "f64_is_finite x \<longleftrightarrow> f64_mag x < f64_inf_mag"
definition f64_is_nan :: "f64 \<Rightarrow> bool" where "f64_is_nan x \<longleftrightarrow> f64_inf_mag < f64_mag x"
definition f32_is_finite :: "f32 \<Rightarrow> bool" where "f32_is_finite x \<longleftrightarrow> f32_mag x < f32_inf_mag"

text \<open>\<open>v == 0.0\<close> holds of both zeros.\<close>

definition f32_is_zero :: "f32 \<Rightarrow> bool" where "f32_is_zero x \<longleftrightarrow> f32_mag x = 0"
definition f64_is_zero :: "f64 \<Rightarrow> bool" where "f64_is_zero x \<longleftrightarrow> f64_mag x = 0"

text \<open>
  The numeric order of non-NaN values is the order of their signed magnitudes (both zeros
  map to 0); the comparison operators are false on NaN.
\<close>

definition f64_key :: "f64 \<Rightarrow> int" where
  "f64_key x = (if f64_sign x then - int (f64_mag x) else int (f64_mag x))"

definition f64_eq :: "f64 \<Rightarrow> f64 \<Rightarrow> bool" where
  "f64_eq x y \<longleftrightarrow> \<not> f64_is_nan x \<and> \<not> f64_is_nan y \<and> f64_key x = f64_key y"
definition f64_le :: "f64 \<Rightarrow> f64 \<Rightarrow> bool" where
  "f64_le x y \<longleftrightarrow> \<not> f64_is_nan x \<and> \<not> f64_is_nan y \<and> f64_key x \<le> f64_key y"
definition f64_lt :: "f64 \<Rightarrow> f64 \<Rightarrow> bool" where
  "f64_lt x y \<longleftrightarrow> \<not> f64_is_nan x \<and> \<not> f64_is_nan y \<and> f64_key x < f64_key y"

text \<open>
  \<open>f64::total_cmp\<close> compares the bits as signed integers after flipping the magnitude of
  negative values: -NaN < -inf < ... < -0 < +0 < ... < inf < NaN.
\<close>

definition f64_total_key :: "f64 \<Rightarrow> int" where
  "f64_total_key x = (if f64_sign x then - 1 - int (f64_mag x) else int (f64_mag x))"

lemma f64_bits_split: "unat x = (if f64_sign x then 2 ^ 63 else 0) + f64_mag (x :: f64)"
proof (cases "f64_sign x")
  case True
  have "unat x < 2 ^ 64" using unsigned_less[of x] by simp
  with True have "unat x - 2 ^ 63 < 2 ^ 63" "2 ^ 63 \<le> unat x" by (simp_all add: f64_sign_def)
  then have "unat x mod 2 ^ 63 = unat x - 2 ^ 63"
    by (metis le_mod_geq mod_less)
  with True \<open>2 ^ 63 \<le> unat x\<close> show ?thesis by (simp add: f64_mag_def)
next
  case False
  then show ?thesis by (simp add: f64_sign_def f64_mag_def)
qed

lemma f64_mag_less: "f64_mag x < 2 ^ 63"
  by (simp add: f64_mag_def)

lemma f64_total_key_inject [simp]: "f64_total_key x = f64_total_key y \<longleftrightarrow> x = y"
proof
  assume eq: "f64_total_key x = f64_total_key y"
  then have "f64_sign x = f64_sign y" "f64_mag x = f64_mag y"
    by (auto simp: f64_total_key_def split: if_splits)
  then have "unat x = unat y"
    using f64_bits_split[of x] f64_bits_split[of y] by simp
  then show "x = y" by (rule unsigned_word_eqI)
qed simp

lemma f64_total_key_lt:
  "f64_lt x y \<Longrightarrow> f64_total_key x < f64_total_key y"
  by (auto simp: f64_lt_def f64_key_def f64_total_key_def split: if_splits)

lemma f64_le_refl [simp]: "f64_le x x \<longleftrightarrow> \<not> f64_is_nan x"
  by (simp add: f64_le_def)

lemma f64_le_trans: "f64_le x y \<Longrightarrow> f64_le y z \<Longrightarrow> f64_le x z"
  by (auto simp: f64_le_def)

lemma f64_finite_not_nan: "f64_is_finite x \<Longrightarrow> \<not> f64_is_nan x"
  by (simp add: f64_is_finite_def f64_is_nan_def)

subsection \<open>Decoding and rounding\<close>

text \<open>A format: the precision (with the hidden bit) and the width of the exponent field.\<close>

record fmt =
  prec :: nat
  ebits :: nat

definition F32 :: fmt where "F32 = \<lparr>prec = 24, ebits = 8\<rparr>"
definition F64 :: fmt where "F64 = \<lparr>prec = 53, ebits = 11\<rparr>"

text \<open>The exponent of the last place of subnormals: -149 and -1074.\<close>

definition emin :: "fmt \<Rightarrow> int" where
  "emin F = 3 - 2 ^ (ebits F - 1) - int (prec F)"

definition inf_mag :: "fmt \<Rightarrow> nat" where
  "inf_mag F = (2 ^ ebits F - 1) * 2 ^ (prec F - 1)"

text \<open>\<open>FNum s m e\<close> is the number with sign \<open>s\<close>, mantissa \<open>m\<close> and exponent \<open>e\<close>: m * 2^e.\<close>

datatype fp = FNan | FInf bool | FNum bool nat int

definition decode_mag :: "fmt \<Rightarrow> bool \<Rightarrow> nat \<Rightarrow> fp" where
  "decode_mag F s mag =
     (let h = 2 ^ (prec F - 1); ex = mag div h; frac = mag mod h in
      if inf_mag F < mag then FNan
      else if mag = inf_mag F then FInf s
      else if ex = 0 then FNum s frac (emin F)
      else FNum s (h + frac) (emin F + int ex - 1))"

definition decode64 :: "f64 \<Rightarrow> fp" where
  "decode64 x = decode_mag F64 (f64_sign x) (f64_mag x)"
definition decode32 :: "f32 \<Rightarrow> fp" where
  "decode32 x = decode_mag F32 (2 ^ 31 \<le> unat x) (f32_mag x)"

fun bitlen :: "nat \<Rightarrow> nat" where
  "bitlen n = (if n = 0 then 0 else Suc (bitlen (n div 2)))"

declare bitlen.simps [simp del]

definition round_even :: "nat \<Rightarrow> nat \<Rightarrow> nat" where
  "round_even num den =
     (let q = num div den; r = num mod den in
      if 2 * r < den \<or> (2 * r = den \<and> even q) then q else q + 1)"

text \<open>The fraction n/d * 2^k as a fraction of naturals.\<close>

definition scaled :: "nat \<Rightarrow> nat \<Rightarrow> int \<Rightarrow> nat \<times> nat" where
  "scaled n d k = (if 0 \<le> k then (n * 2 ^ nat k, d) else (n, d * 2 ^ nat (- k)))"

text \<open>
  The magnitude bits nearest to n/d * 2^e. The exponent of the last place is chosen so
  that the quotient has \<open>prec\<close> bits (fewer for subnormals); a mantissa that rounds up to
  2^prec carries into the exponent field by the addition.
\<close>

definition round_mag :: "fmt \<Rightarrow> nat \<Rightarrow> nat \<Rightarrow> int \<Rightarrow> nat" where
  "round_mag F n d e =
     (if n = 0 then 0 else
      let b = int (bitlen n) - int (bitlen d) + e;
          x0 = max (emin F) (b - int (prec F));
          (n0, d0) = scaled n d (e - x0);
          x = (if 2 ^ prec F \<le> n0 div d0 then x0 + 1 else x0);
          (n1, d1) = scaled n d (e - x);
          bits = nat (x - emin F) * 2 ^ (prec F - 1) + round_even n1 d1
      in min (inf_mag F) bits)"

definition f64_nan :: f64 where "f64_nan = 0x7FF8000000000000"
definition f32_nan :: f32 where "f32_nan = 0x7FC00000"

definition f64_pack :: "bool \<Rightarrow> nat \<Rightarrow> f64" where
  "f64_pack s mag = of_nat ((if s then 2 ^ 63 else 0) + mag)"
definition f32_pack :: "bool \<Rightarrow> nat \<Rightarrow> f32" where
  "f32_pack s mag = of_nat ((if s then 2 ^ 31 else 0) + mag)"

fun encode64 :: "fp \<Rightarrow> f64" where
  "encode64 FNan = f64_nan"
| "encode64 (FInf s) = f64_pack s (inf_mag F64)"
| "encode64 (FNum s m e) = f64_pack s (round_mag F64 m 1 e)"

fun encode32 :: "fp \<Rightarrow> f32" where
  "encode32 FNan = f32_nan"
| "encode32 (FInf s) = f32_pack s (inf_mag F32)"
| "encode32 (FNum s m e) = f32_pack s (round_mag F32 m 1 e)"

text \<open>\<open>f64::from(f32)\<close>, \<open>as f32\<close>, and \<open>as f64\<close> of an unsigned integer.\<close>

definition f64_of_f32 :: "f32 \<Rightarrow> f64" where "f64_of_f32 x = encode64 (decode32 x)"
definition f32_of_f64 :: "f64 \<Rightarrow> f32" where "f32_of_f64 x = encode32 (decode64 x)"
definition f64_of_nat :: "nat \<Rightarrow> f64" where "f64_of_nat n = f64_pack False (round_mag F64 n 1 0)"

subsection \<open>Arithmetic\<close>

definition f64_neg :: "f64 \<Rightarrow> f64" where "f64_neg x = x XOR 0x8000000000000000"

definition signed_mant :: "bool \<Rightarrow> nat \<Rightarrow> int" where
  "signed_mant s m = (if s then - int m else int m)"

fun fp_add :: "fp \<Rightarrow> fp \<Rightarrow> fp" where
  "fp_add FNan b = FNan"
| "fp_add a FNan = FNan"
| "fp_add (FInf s) (FInf t) = (if s = t then FInf s else FNan)"
| "fp_add (FInf s) (FNum _ _ _) = FInf s"
| "fp_add (FNum _ _ _) (FInf t) = FInf t"
| "fp_add (FNum s m e) (FNum t n f) =
     (let g = min e f;
          z = signed_mant s (m * 2 ^ nat (e - g)) + signed_mant t (n * 2 ^ nat (f - g))
      in if z = 0 then FNum (s \<and> t) 0 g else FNum (z < 0) (nat \<bar>z\<bar>) g)"

fun fp_mul :: "fp \<Rightarrow> fp \<Rightarrow> fp" where
  "fp_mul FNan b = FNan"
| "fp_mul a FNan = FNan"
| "fp_mul (FInf s) (FInf t) = FInf (s \<noteq> t)"
| "fp_mul (FInf s) (FNum t n f) = (if n = 0 then FNan else FInf (s \<noteq> t))"
| "fp_mul (FNum s m e) (FInf t) = (if m = 0 then FNan else FInf (s \<noteq> t))"
| "fp_mul (FNum s m e) (FNum t n f) = FNum (s \<noteq> t) (m * n) (e + f)"

definition f64_add :: "f64 \<Rightarrow> f64 \<Rightarrow> f64" where
  "f64_add x y = encode64 (fp_add (decode64 x) (decode64 y))"
definition f64_sub :: "f64 \<Rightarrow> f64 \<Rightarrow> f64" where
  "f64_sub x y = f64_add x (f64_neg y)"
definition f64_mul :: "f64 \<Rightarrow> f64 \<Rightarrow> f64" where
  "f64_mul x y = encode64 (fp_mul (decode64 x) (decode64 y))"

definition f64_div :: "f64 \<Rightarrow> f64 \<Rightarrow> f64" where
  "f64_div x y =
     (case (decode64 x, decode64 y) of
        (FNum s m e, FNum t n f) \<Rightarrow>
          if n = 0 then (if m = 0 then f64_nan else f64_pack (s \<noteq> t) (inf_mag F64))
          else f64_pack (s \<noteq> t) (round_mag F64 m n (e - f))
      | (FInf s, FNum t _ _) \<Rightarrow> f64_pack (s \<noteq> t) (inf_mag F64)
      | (FNum s _ _, FInf t) \<Rightarrow> f64_pack (s \<noteq> t) 0
      | _ \<Rightarrow> f64_nan)"

definition isqrt_digit :: "nat \<Rightarrow> nat \<Rightarrow> nat" where
  "isqrt_digit n r = (if (r + 1) * (r + 1) \<le> n then r + 1 else r)"

fun isqrt :: "nat \<Rightarrow> nat" where
  "isqrt n = (if n = 0 then 0 else isqrt_digit n (2 * isqrt (n div 4)))"

declare isqrt.simps [simp del]

text \<open>\<open>isqrt\<close> is the integer square root.\<close>

lemma isqrt_bounds: "isqrt n * isqrt n \<le> n \<and> n < (isqrt n + 1) * (isqrt n + 1)"
proof (induction n rule: isqrt.induct)
  case (1 n)
  show ?case
  proof (cases "n = 0")
    case True
    then show ?thesis by (simp add: isqrt.simps)
  next
    case False
    define r where "r = isqrt (n div 4)"
    from 1 False have r: "r * r \<le> n div 4" "n div 4 + 1 \<le> (r + 1) * (r + 1)"
      by (simp_all add: r_def)
    have "4 * (n div 4) \<le> n" "n < 4 * (n div 4 + 1)" by simp_all
    moreover have "(2 * r) * (2 * r) = 4 * (r * r)" "(2 * r + 2) * (2 * r + 2) = 4 * ((r + 1) * (r + 1))"
      by (simp_all add: algebra_simps)
    ultimately have "(2 * r) * (2 * r) \<le> n" "n < (2 * r + 2) * (2 * r + 2)"
      using r by linarith+
    with False show ?thesis
      by (simp add: isqrt.simps[of n] isqrt_digit_def flip: r_def)
  qed
qed

definition sqrt_mant :: "nat \<Rightarrow> nat \<Rightarrow> nat" where
  "sqrt_mant n r = 2 * r + (if r * r = n then 0 else 1)"

text \<open>
  The square root: the mantissa is shifted left until its root has more than \<open>prec\<close>
  bits, and one further bit says whether the root is inexact, which is all that rounding
  to nearest needs.
\<close>

definition f64_sqrt :: "f64 \<Rightarrow> f64" where
  "f64_sqrt x =
     (case decode64 x of
        FNan \<Rightarrow> f64_nan
      | FInf s \<Rightarrow> (if s then f64_nan else x)
      | FNum s m e \<Rightarrow>
          if m = 0 then x
          else if s then f64_nan
          else (let k = (if even e then 110 else 111); n = m * 2 ^ k in
                f64_pack False
                  (round_mag F64 (sqrt_mant n (isqrt n)) 1 ((e - int k) div 2 - 1))))"

definition f64_zero :: f64 where "f64_zero = 0"
definition f64_neg_zero :: f64 where "f64_neg_zero = 0x8000000000000000"
definition f64_one :: f64 where "f64_one = 0x3FF0000000000000"
definition f64_minus_one :: f64 where "f64_minus_one = 0xBFF0000000000000"

text \<open>
  \<open>Iterator::sum::<f64>\<close> folds from the left, starting at -0.0 (the neutral element of
  addition), and \<open>powi(2)\<close> is a square.
\<close>

definition f64_sum :: "f64 list \<Rightarrow> f64" where
  "f64_sum xs = foldl f64_add f64_neg_zero xs"

definition f64_square :: "f64 \<Rightarrow> f64" where "f64_square x = f64_mul x x"

text \<open>\<open>f64::clamp\<close>: a NaN stays a NaN.\<close>

definition f64_clamp :: "f64 \<Rightarrow> f64 \<Rightarrow> f64 \<Rightarrow> f64" where
  "f64_clamp lo hi x = (if f64_lt x lo then lo else if f64_lt hi x then hi else x)"

lemma f64_clamp_range:
  assumes "\<not> f64_is_nan x" "\<not> f64_is_nan lo" "\<not> f64_is_nan hi" "f64_le lo hi"
  shows "f64_le lo (f64_clamp lo hi x) \<and> f64_le (f64_clamp lo hi x) hi"
  using assms by (auto simp: f64_clamp_def f64_lt_def f64_le_def)

subsection \<open>Reference values\<close>

text \<open>1 + 2 = 3; 0.1 + 0.2 = 0.30000000000000004; 1 / 3; the root of 2; 2^53 + 1 rounds to even.\<close>

lemmas ieee_eval = f64_add_def f64_sub_def f64_mul_def f64_div_def f64_sqrt_def f64_neg_def
  decode64_def decode32_def decode_mag_def f64_sign_def f64_mag_def f32_mag_def signed_mant_def
  f64_pack_def f32_pack_def round_mag_def scaled_def F64_def F32_def emin_def inf_mag_def
  bitlen.simps isqrt.simps isqrt_digit_def sqrt_mant_def round_even_def f64_of_nat_def
  f64_of_f32_def f32_of_f64_def

lemma ieee_reference_values:
  "f64_add 0x3FF0000000000000 0x4000000000000000 = 0x4008000000000000"
  "f64_add 0x3FB999999999999A 0x3FC999999999999A = 0x3FD3333333333334"
  "f64_div 0x3FF0000000000000 0x4008000000000000 = 0x3FD5555555555555"
  "f64_of_nat 9007199254740993 = 0x4340000000000000"
  "f64_of_f32 0x3DCCCCCD = 0x3FB99999A0000000"
  "f32_of_f64 0x3FB999999999999A = 0x3DCCCCCD"
  by (simp_all add: ieee_eval)

lemma ieee_sqrt_2: "f64_sqrt 0x4000000000000000 = 0x3FF6A09E667F3BCD"
proof -
  have "decode64 0x4000000000000000 = FNum False (2 ^ 52) (- 51)"
    by (simp add: ieee_eval)
  moreover have "isqrt (2 ^ 52 * 2 ^ 111) = 3419358580004036860274166"
    by (simp add: isqrt.simps isqrt_digit_def)
  ultimately show ?thesis
    by (simp add: f64_sqrt_def sqrt_mant_def) (simp add: ieee_eval)
qed

subsection \<open>Integers convert to finite numbers\<close>

lemma bitlen_bounds: "n < 2 ^ bitlen n" "0 < n \<Longrightarrow> 2 ^ (bitlen n - 1) \<le> n"
proof (induction n rule: bitlen.induct)
  case (1 n)
  {
    case 1
    show ?case
    proof (cases "n = 0")
      case False
      with \<open>n \<noteq> 0 \<Longrightarrow> n div 2 < 2 ^ bitlen (n div 2)\<close> have "n div 2 < 2 ^ bitlen (n div 2)" by simp
      with False show ?thesis by (simp add: bitlen.simps[of n])
    qed (simp add: bitlen.simps)
  next
    case 2
    show ?case
    proof (cases "n = 1")
      case True
      then show ?thesis by (simp add: bitlen.simps)
    next
      case False
      with 2 have "0 < n div 2" by simp
      with 2 \<open>n \<noteq> 0 \<Longrightarrow> 0 < n div 2 \<Longrightarrow> 2 ^ (bitlen (n div 2) - 1) \<le> n div 2\<close>
      have "2 ^ (bitlen (n div 2) - 1) \<le> n div 2" by simp
      moreover from \<open>0 < n div 2\<close> have "0 < bitlen (n div 2)" by (simp add: bitlen.simps[of "n div 2"])
      ultimately have "2 ^ bitlen (n div 2) \<le> 2 * (n div 2)"
        by (cases "bitlen (n div 2)") simp_all
      also have "\<dots> \<le> n" by simp
      finally show ?thesis using 2 by (simp add: bitlen.simps[of n])
    qed
  }
qed

lemma bitlen_le: "n < 2 ^ w \<Longrightarrow> bitlen n \<le> w"
proof (rule ccontr)
  assume n: "n < 2 ^ w" and "\<not> bitlen n \<le> w"
  then have w: "w \<le> bitlen n - 1" "0 < n" by (auto simp: bitlen.simps intro!: Nat.gr0I)
  have "(2::nat) ^ w \<le> 2 ^ (bitlen n - 1)" using w(1) by (rule power_increasing) simp
  with bitlen_bounds(2)[OF w(2)] n show False by linarith
qed

lemma scaled_quotient:
  assumes "n < 2 ^ l" "scaled n 1 k = (a, b)" "int l + k \<le> int m"
  shows "a div b < 2 ^ m"
proof (cases "0 \<le> k")
  case True
  with assms(2) have "a = n * 2 ^ nat k" "b = 1" by (simp_all add: scaled_def)
  moreover have "n * 2 ^ nat k < 2 ^ m"
  proof (rule order_less_le_trans)
    show "n * 2 ^ nat k < 2 ^ l * 2 ^ nat k" using assms(1) by simp
    show "2 ^ l * 2 ^ nat k \<le> (2 :: nat) ^ m"
      unfolding power_add[symmetric] using assms(3) True by (intro power_increasing) auto
  qed
  ultimately show ?thesis by simp
next
  case False
  with assms(2) have ab: "a = n" "b = 2 ^ nat (- k)" by (auto simp: scaled_def)
  have "(2::nat) ^ l \<le> 2 ^ (m + nat (- k))" using assms(3) False by (intro power_increasing) auto
  with assms(1) have "n < 2 ^ m * 2 ^ nat (- k)" by (simp add: power_add)
  then show ?thesis unfolding ab by (rule less_mult_imp_div_less)
qed

lemma f64_of_nat_finite:
  assumes "n < 2 ^ 64"
  shows "f64_is_finite (f64_of_nat n)"
proof (cases "n = 0")
  case True
  then show ?thesis by (simp add: f64_of_nat_def round_mag_def f64_pack_def f64_is_finite_def f64_mag_def f64_inf_mag_def)
next
  case False
  define l where "l = bitlen n"
  have l: "n < 2 ^ l" "l \<le> 64" using bitlen_bounds(1)[of n] bitlen_le[OF assms] by (simp_all add: l_def)
  have one: "bitlen (Suc 0) = 1" by (simp add: bitlen.simps)
  define x0 where "x0 = max (emin F64) (int l - 54)"
  obtain n0 d0 where s0: "scaled n 1 (- x0) = (n0, d0)" by force
  define x where "x = (if 2 ^ 53 \<le> n0 div d0 then x0 + 1 else x0)"
  obtain n1 d1 where s1: "scaled n 1 (- x) = (n1, d1)" by force
  have prec: "prec F64 = 53" by (simp add: F64_def)
  have em: "emin F64 = - 1074" by (simp add: emin_def F64_def)
  have x: "int l - 54 \<le> x" "x \<le> 11" using l(2) by (auto simp: x_def x0_def em)
  have "n1 div d1 < 2 ^ 54" by (rule scaled_quotient[OF l(1) s1]) (use x in simp)
  then have re: "round_even n1 d1 \<le> 2 ^ 54" by (simp add: round_even_def Let_def)
  have bits: "nat (x - emin F64) * 2 ^ 52 + round_even n1 d1 < 2047 * 2 ^ 52"
  proof -
    have "nat (x - emin F64) \<le> 1085" using x(2) by (simp add: em)
    then have "nat (x - emin F64) * 2 ^ 52 \<le> 1085 * 2 ^ 52" by (rule mult_le_mono1)
    with re show ?thesis by simp
  qed
  have "round_mag F64 n 1 0 = min (inf_mag F64) (nat (x - emin F64) * 2 ^ 52 + round_even n1 d1)"
    using False s0 s1[unfolded x_def]
    by (cases "2 ^ 53 \<le> n0 div d0") (simp_all add: round_mag_def one prec Let_def x_def flip: l_def x0_def)
  then have "round_mag F64 n 1 0 < 2047 * 2 ^ 52" using bits by linarith
  then show ?thesis
    by (simp add: f64_of_nat_def f64_pack_def f64_is_finite_def f64_mag_def f64_inf_mag_def unsigned_of_nat take_bit_nat_eq_self_iff take_bit_eq_mod)
qed
lemma f64_neg_finite: "f64_is_finite (f64_neg x) = f64_is_finite x"
proof -
  have "f64_mag (f64_neg x) = take_bit 63 (unat (f64_neg x))" by (simp add: f64_mag_def take_bit_eq_mod)
  also have "\<dots> = take_bit 63 (unat x XOR unat (0x8000000000000000 :: f64))"
    by (simp only: f64_neg_def unsigned_xor_eq)
  also have "\<dots> = take_bit 63 (unat x)"
    by (simp only: take_bit_xor) (simp add: take_bit_eq_mod)
  finally show ?thesis by (simp add: f64_is_finite_def f64_mag_def take_bit_eq_mod)
qed

lemma sint_magnitude: "nat (- sint (i :: u64)) < 2 ^ 64"
proof -
  have "- (2 ^ 63) \<le> sint i" using sint_ge[of i] by simp
  then show ?thesis by simp
qed

end
