(* ===== verification/Errors.thy ===== *)
theory Errors
  imports Prelude
begin

section \<open>Errors and their HTTP responses (error.rs)\<close>

text \<open>
  \<open>Error\<close> keeps the source's variants and messages. The variants that wrap an error of
  another library (network, storage, I/O, JSON, task join) carry nothing here: no code of
  the program looks inside them.
\<close>

datatype error =
    Invalid string
  | Request nat string
  | NotFound string
  | Conflict string
  | Limit string
  | Corrupt string
  | Unavailable
  | Timeout
  | Network
  | Busy
  | Config string
  | Storage
  | ObjectStore
  | Io
  | Encoding
  | Worker

type_synonym 'a result = "error + 'a"

text \<open>The message of an error; library errors add the library's own text.\<close>

fun error_text :: "string \<Rightarrow> error \<Rightarrow> string" where
  "error_text cause (Invalid m) = m"
| "error_text cause (Request _ m) = m"
| "error_text cause (NotFound m) = m"
| "error_text cause (Conflict m) = m"
| "error_text cause (Limit m) = m"
| "error_text cause (Corrupt m) = m"
| "error_text cause Unavailable = ''node is not the active owner''"
| "error_text cause Timeout = ''request deadline exceeded; a write may still commit''"
| "error_text cause Network = ''network request failed: '' @ cause"
| "error_text cause Busy = ''too many concurrent queries; retry later''"
| "error_text cause (Config m) = m"
| "error_text cause Storage = ''storage failure: '' @ cause"
| "error_text cause ObjectStore = ''object store failure: '' @ cause"
| "error_text cause Io = ''I/O failure: '' @ cause"
| "error_text cause Encoding = ''stored data could not be decoded: '' @ cause"
| "error_text cause Worker = ''worker failed: '' @ cause"

text \<open>\<open>into_response\<close>: status, code and message of the JSON error body.\<close>

fun into_response :: "string \<Rightarrow> error \<Rightarrow> nat \<times> string \<times> string" where
  "into_response cause (Invalid m) = (400, ''invalid_request'', error_text cause (Invalid m))"
| "into_response cause (Request st m) = (st, ''invalid_request'', error_text cause (Request st m))"
| "into_response cause (NotFound m) = (404, ''not_found'', error_text cause (NotFound m))"
| "into_response cause (Conflict m) = (409, ''conflict'', error_text cause (Conflict m))"
| "into_response cause (Limit m) = (429, ''limit_exceeded'', error_text cause (Limit m))"
| "into_response cause Unavailable = (503, ''unavailable'',
     ''Active owner unavailable; a failed write may still have committed.'')"
| "into_response cause Network = (503, ''unavailable'',
     ''Active owner unavailable; a failed write may still have committed.'')"
| "into_response cause Busy = (503, ''busy'', error_text cause Busy)"
| "into_response cause Timeout = (504, ''timeout'', error_text cause Timeout)"
| "into_response cause Storage = (503, ''storage_unavailable'',
     ''Storage unavailable; a failed write may still have committed.'')"
| "into_response cause ObjectStore = (503, ''storage_unavailable'',
     ''Storage unavailable; a failed write may still have committed.'')"
| "into_response cause _ = (500, ''internal_error'', ''Internal server error.'')"

text \<open>
  What a client can learn: the text of an internal failure (configuration, corruption,
  I/O, storage or library error) never reaches a response.
\<close>

definition internal_error :: "error \<Rightarrow> bool" where
  "internal_error e \<longleftrightarrow> (case e of
      Corrupt _ \<Rightarrow> True | Config _ \<Rightarrow> True | Network \<Rightarrow> True | Storage \<Rightarrow> True
    | ObjectStore \<Rightarrow> True | Io \<Rightarrow> True | Encoding \<Rightarrow> True | Worker \<Rightarrow> True | _ \<Rightarrow> False)"

lemma into_response_internal_opaque:
  "internal_error e \<Longrightarrow> internal_error e' \<Longrightarrow>
    fst (into_response c e) = fst (into_response c' e') \<Longrightarrow>
    fst (into_response c e) = 500 \<Longrightarrow> into_response c e = into_response c' e'"
  by (cases e; cases e') (simp_all add: internal_error_def)

lemma into_response_fixed:
  "internal_error e \<Longrightarrow> into_response c e = into_response c' e"
  by (cases e) (simp_all add: internal_error_def)

text \<open>A response never carries the text of an internal failure: for a corruption, configuration,
  network, storage, I/O, decoding or worker error the whole response is independent of the
  cause, has a 5xx status, and two such errors with the internal-error status answer alike.\<close>
theorem responses_hide_internals:
  assumes "internal_error e" and "internal_error e'"
  shows "into_response c e = into_response c' e \<and> fst (into_response c e) \<in> {500, 503}
    \<and> (fst (into_response c e) = 500 \<and> fst (into_response c' e') = 500 \<longrightarrow> into_response c e = into_response c' e')"
proof (intro conjI impI)
  show "into_response c e = into_response c' e" using assms(1) by (rule into_response_fixed)
  show "fst (into_response c e) \<in> {500, 503}" using assms(1) by (cases e) (simp_all add: internal_error_def)
  assume "fst (into_response c e) = 500 \<and> fst (into_response c' e') = 500"
  with into_response_internal_opaque[OF assms, of c c'] show "into_response c e = into_response c' e'" by simp
qed

theorem responses_hide_internals_witness:
  "into_response ''secret'' (Corrupt ''secret row'') = into_response ''other'' Io"
  using responses_hide_internals[of "Corrupt ''secret row''" Io "''secret''" "''other''"]
  by (simp add: internal_error_def)

end
