(* ===== verification/Model.thy ===== *)
theory Model
  imports BTree Ieee Errors
begin

section \<open>The data model and its validation (model.rs)\<close>

text \<open>
  The request, response and stored types of the database, with the validation every
  operation runs first. JSON values are serde_json's: its number is an unsigned or a
  negative 64-bit integer or a finite double, and its objects are ordered maps. Sizes
  (\<open>usize\<close>) are naturals, counters kept in the store (\<open>u64\<close>) are 64-bit words.
\<close>

subsection \<open>Limits\<close>

definition MAX_BODY_BYTES :: nat where "MAX_BODY_BYTES = 8 * 1024 * 1024"
definition MAX_DOCUMENT_BYTES :: nat where "MAX_DOCUMENT_BYTES = 256 * 1024"
definition MAX_BATCH_OPERATIONS :: nat where "MAX_BATCH_OPERATIONS = 1000"
definition MAX_DIMENSIONS :: nat where "MAX_DIMENSIONS = 4096"
definition MAX_PAGE_SIZE :: nat where "MAX_PAGE_SIZE = 1000"
definition MAX_TOP_K :: nat where "MAX_TOP_K = 100"

lemmas model_limits = MAX_BODY_BYTES_def MAX_DOCUMENT_BYTES_def MAX_BATCH_OPERATIONS_def
  MAX_DIMENSIONS_def MAX_PAGE_SIZE_def MAX_TOP_K_def

text \<open>A number as \<open>{}\<close> prints it.\<close>

definition show_nat :: "nat \<Rightarrow> string" where "show_nat n = dec_padded 1 n"

subsection \<open>Identifiers\<close>

definition id_char :: "char \<Rightarrow> bool" where
  "id_char c \<longleftrightarrow>
     (let n = of_char c :: nat in
      (48 \<le> n \<and> n \<le> 57) \<or> (65 \<le> n \<and> n \<le> 90) \<or> (97 \<le> n \<and> n \<le> 122)
      \<or> c = CHR ''_'' \<or> c = CHR ''-'')"

definition validate_id :: "string \<Rightarrow> unit result" where
  "validate_id v =
     (if v = [] \<or> 128 < length v \<or> \<not> list_all id_char v
      then Inl (Invalid (''IDs must contain 1'' @ en_dash @
             ''128 ASCII letters, digits, underscores, or hyphens''))
      else Inr ())"

definition valid_id :: "string \<Rightarrow> bool" where
  "valid_id v \<longleftrightarrow> v \<noteq> [] \<and> length v \<le> 128 \<and> list_all id_char v"

lemma validate_id_Inr [simp]: "validate_id v = Inr u \<longleftrightarrow> valid_id v"
  by (auto simp: validate_id_def valid_id_def)

lemma validate_id_ok [simp]: "valid_id v \<Longrightarrow> validate_id v = Inr ()"
  by (rule iffD2[OF validate_id_Inr])

lemma id_char_not_slash: "id_char c \<Longrightarrow> c \<noteq> slash"
  by (auto simp: id_char_def)

lemma id_char_ascii: "id_char c \<Longrightarrow> of_char c < (128 :: nat)"
  by (auto simp: id_char_def Let_def)

lemma valid_id_no_slash: "valid_id v \<Longrightarrow> slash \<notin> set v"
  using id_char_not_slash by (auto simp: valid_id_def list_all_iff)

lemma valid_id_nonempty [simp]: "valid_id v \<Longrightarrow> v \<noteq> []"
  by (simp add: valid_id_def)

subsection \<open>JSON values\<close>

datatype number = PosInt u64 | NegInt u64 | Float f64

datatype json =
    JNull
  | JBool bool
  | JNumber number
  | JString string
  | JArray "json list"
  | JObject "(string \<times> json) list"

text \<open>\<open>Value::as_f64\<close> and \<open>Value::as_str\<close>; a negative integer is read in two's complement.\<close>

fun number_as_f64 :: "number \<Rightarrow> f64" where
  "number_as_f64 (PosInt n) = f64_of_nat (unat n)"
| "number_as_f64 (NegInt i) = f64_neg (f64_of_nat (nat (- sint i)))"
| "number_as_f64 (Float x) = x"

fun as_f64 :: "json \<Rightarrow> f64 option" where
  "as_f64 (JNumber n) = Some (number_as_f64 n)"
| "as_f64 _ = None"

fun as_str :: "json \<Rightarrow> string option" where
  "as_str (JString s) = Some s"
| "as_str _ = None"

text \<open>\<open>PartialEq\<close>: floats compare numerically, an integer never equals a float.\<close>

fun number_eq :: "number \<Rightarrow> number \<Rightarrow> bool" where
  "number_eq (PosInt a) (PosInt b) \<longleftrightarrow> a = b"
| "number_eq (NegInt a) (NegInt b) \<longleftrightarrow> a = b"
| "number_eq (Float a) (Float b) \<longleftrightarrow> f64_eq a b"
| "number_eq _ _ \<longleftrightarrow> False"

fun value_eq :: "json \<Rightarrow> json \<Rightarrow> bool"
  and values_eq :: "json list \<Rightarrow> json list \<Rightarrow> bool"
  and fields_eq :: "(string \<times> json) list \<Rightarrow> (string \<times> json) list \<Rightarrow> bool" where
  "value_eq JNull JNull \<longleftrightarrow> True"
| "value_eq (JBool a) (JBool b) \<longleftrightarrow> a = b"
| "value_eq (JNumber a) (JNumber b) \<longleftrightarrow> number_eq a b"
| "value_eq (JString a) (JString b) \<longleftrightarrow> a = b"
| "value_eq (JArray a) (JArray b) \<longleftrightarrow> values_eq a b"
| "value_eq (JObject a) (JObject b) \<longleftrightarrow> fields_eq a b"
| "value_eq _ _ \<longleftrightarrow> False"
| "values_eq [] [] \<longleftrightarrow> True"
| "values_eq (a # as) (b # bs) \<longleftrightarrow> value_eq a b \<and> values_eq as bs"
| "values_eq _ _ \<longleftrightarrow> False"
| "fields_eq [] [] \<longleftrightarrow> True"
| "fields_eq ((k, a) # as) ((l, b) # bs) \<longleftrightarrow> k = l \<and> value_eq a b \<and> fields_eq as bs"
| "fields_eq _ _ \<longleftrightarrow> False"

text \<open>The values serde_json can hold: its floats are finite.\<close>

fun json_finite :: "json \<Rightarrow> bool"
  and jsons_finite :: "json list \<Rightarrow> bool"
  and fields_finite :: "(string \<times> json) list \<Rightarrow> bool" where
  "json_finite (JNumber (Float x)) \<longleftrightarrow> f64_is_finite x"
| "json_finite (JArray vs) \<longleftrightarrow> jsons_finite vs"
| "json_finite (JObject fs) \<longleftrightarrow> fields_finite fs"
| "json_finite _ \<longleftrightarrow> True"
| "jsons_finite [] \<longleftrightarrow> True"
| "jsons_finite (v # vs) \<longleftrightarrow> json_finite v \<and> jsons_finite vs"
| "fields_finite [] \<longleftrightarrow> True"
| "fields_finite ((k, v) # fs) \<longleftrightarrow> json_finite v \<and> fields_finite fs"

subsection \<open>Namespaces\<close>

datatype metric = Cosine | Dot | SquaredEuclidean

record ns_config =
  dimensions :: "nat option"
  metric :: metric
  text_fields :: "string list"

definition validate_config :: "ns_config \<Rightarrow> unit result" where
  "validate_config c =
     (if 16 < length (text_fields c) then Inl (Invalid ''at most 16 text fields are allowed'')
      else rbind (for_each validate_id (text_fields c)) (\<lambda>_.
        if length (remdups (text_fields c)) \<noteq> length (text_fields c)
        then Inl (Invalid ''text_fields must be unique'')
        else (case dimensions c of
            None \<Rightarrow> Inr ()
          | Some d \<Rightarrow>
              if \<not> (1 \<le> d \<and> d \<le> MAX_DIMENSIONS)
              then Inl (Invalid (''dimensions must be between 1 and '' @ show_nat MAX_DIMENSIONS))
              else Inr ())))"

definition valid_config :: "ns_config \<Rightarrow> bool" where
  "valid_config c \<longleftrightarrow>
     length (text_fields c) \<le> 16 \<and> list_all valid_id (text_fields c) \<and> distinct (text_fields c)
     \<and> (case dimensions c of None \<Rightarrow> True | Some d \<Rightarrow> 1 \<le> d \<and> d \<le> 4096)"

lemma validate_config_Inr [simp]: "validate_config c = Inr u \<longleftrightarrow> valid_config c"
  by (auto simp: validate_config_def valid_config_def list_all_iff MAX_DIMENSIONS_def
      distinct_card length_remdups_card_conv card_distinct split: option.splits)

lemma validate_config_ok [simp]: "valid_config c \<Longrightarrow> validate_config c = Inr ()"
  by (rule iffD2[OF validate_config_Inr])

definition validate_vector :: "ns_config \<Rightarrow> f32 list \<Rightarrow> unit result" where
  "validate_vector c v =
     rbind (ok_or (Invalid ''namespace has no vector dimensions'') (dimensions c)) (\<lambda>d.
       if length v \<noteq> d \<or> list_ex (\<lambda>x. \<not> f32_is_finite x) v
       then Inl (Invalid (''vector must have '' @ show_nat d @ '' finite f32 components''))
       else if metric c = Cosine \<and> list_all f32_is_zero v
       then Inl (Invalid ''cosine vectors must have nonzero length'')
       else Inr ())"

definition valid_vector :: "ns_config \<Rightarrow> f32 list \<Rightarrow> bool" where
  "valid_vector c v \<longleftrightarrow> dimensions c = Some (length v) \<and> list_all f32_is_finite v
     \<and> (metric c = Cosine \<longrightarrow> list_ex (\<lambda>x. \<not> f32_is_zero x) v)"

lemma validate_vector_Inr [simp]: "validate_vector c v = Inr u \<longleftrightarrow> valid_vector c v"
  by (cases "dimensions c") (auto simp: validate_vector_def valid_vector_def list_all_iff list_ex_iff)

lemma validate_vector_ok [simp]: "valid_vector c v \<Longrightarrow> validate_vector c v = Inr ()"
  by (rule iffD2[OF validate_vector_Inr])

record namespace =
  ns_name :: string
  ns_conf :: ns_config

subsection \<open>Documents and writes\<close>

record document =
  doc_id :: string
  vector :: "f32 list option"
  attributes :: "(string, json) btree"

record write_request =
  upsert :: "document list"
  delete_ids :: "string list"

record write_result =
  upserted :: nat
  deleted :: nat
  res_sequence :: u64
  res_revision :: u64

record stats =
  revision :: u64
  documents :: u64
  stat_bytes :: u64
  pending_documents :: u64

definition default_stats :: stats where
  "default_stats = \<lparr>revision = 0, documents = 0, stat_bytes = 0, pending_documents = 0\<rparr>"

subsection \<open>Filters\<close>

record numeric_range =
  gte :: "f64 option"
  lte :: "f64 option"

record filter_spec =
  eq_preds :: "(string, json) btree"
  range_preds :: "(string, numeric_range) btree"

definition range_invalid :: "numeric_range \<Rightarrow> bool" where
  "range_invalid r \<longleftrightarrow>
     (gte r = None \<and> lte r = None)
     \<or> (case gte r of None \<Rightarrow> False | Some v \<Rightarrow> \<not> f64_is_finite v)
     \<or> (case lte r of None \<Rightarrow> False | Some v \<Rightarrow> \<not> f64_is_finite v)
     \<or> (case (gte r, lte r) of (Some lo, Some hi) \<Rightarrow> f64_lt hi lo | _ \<Rightarrow> False)"

definition validate_filter :: "filter_spec \<Rightarrow> unit result" where
  "validate_filter f =
     (if 64 < length (eq_preds f) + length (range_preds f)
      then Inl (Invalid ''at most 64 filter predicates are allowed'')
      else for_each (\<lambda>(_, r).
        if range_invalid r
        then Inl (Invalid ''ranges require finite, ordered gte and/or lte bounds'')
        else Inr ()) (range_preds f))"

definition in_range :: "numeric_range \<Rightarrow> f64 \<Rightarrow> bool" where
  "in_range r v \<longleftrightarrow>
     (case gte r of None \<Rightarrow> True | Some lo \<Rightarrow> f64_le lo v)
     \<and> (case lte r of None \<Rightarrow> True | Some hi \<Rightarrow> f64_le v hi)"

definition matches :: "filter_spec \<Rightarrow> (string, json) btree \<Rightarrow> bool" where
  "matches f attrs \<longleftrightarrow>
     list_all (\<lambda>(field, expected).
        (case bt_get attrs field of None \<Rightarrow> False | Some v \<Rightarrow> value_eq v expected)) (eq_preds f)
     \<and> list_all (\<lambda>(field, r).
        (case bt_get attrs field of None \<Rightarrow> False
         | Some v \<Rightarrow> (case as_f64 v of None \<Rightarrow> False | Some x \<Rightarrow> in_range r x))) (range_preds f)"

lemma matches_no_predicates: "eq_preds f = [] \<Longrightarrow> range_preds f = [] \<Longrightarrow> matches f attrs"
  by (simp add: matches_def)

subsection \<open>Queries and pages\<close>

datatype search_mode = Auto | Exact | Ann

record query_request =
  q_vector :: "f32 list"
  q_top_k :: nat
  q_filter :: filter_spec
  q_mode :: search_mode
  q_probes :: nat

record text_request =
  t_field :: string
  t_text :: string
  t_top_k :: nat
  t_filter :: filter_spec

record search_hit =
  hit_id :: string
  hit_score :: f64
  hit_attributes :: "(string, json) btree"

record query_result =
  hits :: "search_hit list"
  scanned_documents :: nat
  plan :: string
  qr_revision :: u64
  indexed_revision :: u64

definition default_top_k :: nat where "default_top_k = 10"
definition default_probes :: nat where "default_probes = 4"

record page_request =
  page_limit :: nat
  page_after :: "string option"

definition default_page :: page_request where
  "default_page = \<lparr>page_limit = 100, page_after = None\<rparr>"

definition validate_page :: "page_request \<Rightarrow> unit result" where
  "validate_page p =
     (if \<not> (1 \<le> page_limit p \<and> page_limit p \<le> MAX_PAGE_SIZE)
      then Inl (Invalid (''limit must be between 1 and '' @ show_nat MAX_PAGE_SIZE))
      else (case page_after p of None \<Rightarrow> Inr () | Some a \<Rightarrow> validate_id a))"

record 'a page =
  items :: "'a list"
  next_cursor :: "string option"

end
