(* ===== verification/Binary.thy ===== *)
theory Binary
  imports Wire Model
begin

section \<open>Checksummed vector blocks (binary.rs)\<close>

text \<open>
  A block is the magic and version, the dimension and row counts, the rows (a length-
  prefixed ID and the little-endian components), and a CRC-32 of everything before it.
  The checksum is a library's (crc32fast), so it is the parameter \<open>crc\<close>: nothing below
  depends on which function it is. Decoding reads front to back; the row codec is an
  instance of \<open>wire_codec\<close>.
\<close>

type_synonym row = "string \<times> f32 list"

definition f32_to_le :: "f32 \<Rightarrow> bytes" where "f32_to_le x = u32_to_le x"
definition f32_from_le :: "bytes \<Rightarrow> f32" where "f32_from_le b = u32_from_le b"

definition block_magic :: bytes where "block_magic = ''GMVB'' @ [CHR 0x01]"

definition encode_row :: "row \<Rightarrow> bytes" where
  "encode_row r =
     u16_to_le (of_nat (length (fst r))) @ fst r @ concat (map f32_to_le (snd r))"

definition block_dims :: "row list \<Rightarrow> nat" where
  "block_dims rows = (case rows of [] \<Rightarrow> 0 | r # _ \<Rightarrow> length (snd r))"

definition block_body :: "row list \<Rightarrow> bytes" where
  "block_body rows =
     block_magic @ u32_to_le (of_nat (block_dims rows)) @ u32_to_le (of_nat (length rows))
       @ concat (map encode_row rows)"

definition encode :: "(bytes \<Rightarrow> u32) \<Rightarrow> row list \<Rightarrow> bytes" where
  "encode crc rows = block_body rows @ u32_to_le (crc (block_body rows))"

subsection \<open>UTF-8\<close>

text \<open>\<open>std::str::from_utf8\<close> accepts exactly the well-formed sequences of the Unicode standard.\<close>

definition cont_byte :: "nat \<Rightarrow> bool" where "cont_byte b \<longleftrightarrow> 128 \<le> b \<and> b \<le> 191"

fun utf8_nats :: "nat list \<Rightarrow> bool" where
  "utf8_nats [] \<longleftrightarrow> True"
| "utf8_nats (a # r) \<longleftrightarrow>
     (if a < 128 then utf8_nats r
      else (case r of [] \<Rightarrow> False | b # r1 \<Rightarrow>
        if 194 \<le> a \<and> a \<le> 223 then cont_byte b \<and> utf8_nats r1
        else (case r1 of [] \<Rightarrow> False | c # r2 \<Rightarrow>
          if 224 \<le> a \<and> a \<le> 239
          then cont_byte b \<and> (a = 224 \<longrightarrow> 160 \<le> b) \<and> (a = 237 \<longrightarrow> b \<le> 159)
               \<and> cont_byte c \<and> utf8_nats r2
          else (case r2 of [] \<Rightarrow> False | d # r3 \<Rightarrow>
            240 \<le> a \<and> a \<le> 244 \<and> cont_byte b \<and> (a = 240 \<longrightarrow> 144 \<le> b) \<and> (a = 244 \<longrightarrow> b \<le> 143)
               \<and> cont_byte c \<and> cont_byte d \<and> utf8_nats r3))))"

definition valid_utf8 :: "bytes \<Rightarrow> bool" where
  "valid_utf8 bs \<longleftrightarrow> utf8_nats (map of_char bs)"

lemma ascii_utf8: "\<forall>n \<in> set ns. n < 128 \<Longrightarrow> utf8_nats ns"
  by (induction ns) auto

lemma valid_id_utf8: "valid_id v \<Longrightarrow> valid_utf8 v"
  unfolding valid_utf8_def
  by (rule ascii_utf8) (auto simp: valid_id_def list_all_iff id_char_ascii)

subsection \<open>Decoding\<close>

abbreviation bad_block :: error where
  "bad_block \<equiv> Corrupt ''invalid vector block or checksum''"

definition read_f32 :: "bytes \<Rightarrow> (f32 \<times> bytes) result" where
  "read_f32 bs =
     rbind (take_exact bad_block 4 bs) (\<lambda>(b, r).
       if f32_is_finite (f32_from_le b) then Inr (f32_from_le b, r) else Inl bad_block)"

definition decode_row :: "nat \<Rightarrow> bytes \<Rightarrow> (row \<times> bytes) result" where
  "decode_row dims bs =
     rbind (read_u16 bad_block bs) (\<lambda>(len, r1).
     rbind (take_exact bad_block (unat len) r1) (\<lambda>(rid, r2).
       if \<not> valid_utf8 rid then Inl bad_block
       else if \<not> valid_id rid then Inl bad_block
       else rbind (take_exact bad_block (dims * 4) r2) (\<lambda>(data, r3).
         rbind (parse_n read_f32 dims data) (\<lambda>(v, _). Inr ((rid, v), r3)))))"

definition decode :: "(bytes \<Rightarrow> u32) \<Rightarrow> bytes \<Rightarrow> row list result" where
  "decode crc bs =
     (if length bs < 17 \<or> take 5 bs \<noteq> block_magic then Inl bad_block
      else
        let body = take (length bs - 4) bs; checksum = drop (length bs - 4) bs in
        if crc body \<noteq> u32_from_le checksum then Inl bad_block
        else
          let dims = unat (u32_from_le (take 4 (drop 5 body)));
              count = unat (u32_from_le (take 4 (drop 9 body)))
          in if MAX_DIMENSIONS < dims \<or> (0 < count \<and> dims = 0)
                \<or> length body div (dims * 4 + 2) < count
             then Inl bad_block
             else rbind (parse_n (decode_row dims) count (drop 13 body)) (\<lambda>(rows, rest).
               if rest \<noteq> [] then Inl bad_block else Inr rows))"

definition encode_vector :: "(bytes \<Rightarrow> u32) \<Rightarrow> f32 list \<Rightarrow> bytes" where
  "encode_vector crc v = encode crc [(''v'', v)]"

definition decode_vector :: "(bytes \<Rightarrow> u32) \<Rightarrow> bytes \<Rightarrow> f32 list result" where
  "decode_vector crc bs =
     rbind (decode crc bs) (\<lambda>rows.
       if length rows \<noteq> 1 then Inl (Corrupt ''expected one vector'') else Inr (snd (hd rows)))"

subsection \<open>The row codec\<close>

definition row_ok :: "nat \<Rightarrow> row \<Rightarrow> bool" where
  "row_ok dims r \<longleftrightarrow> valid_id (fst r) \<and> length (snd r) = dims \<and> list_all f32_is_finite (snd r)"

interpretation f32: wire_codec f32_to_le read_f32 f32_is_finite
  by unfold_locales (simp add: read_f32_def f32_to_le_def f32_from_le_def)

lemma length_concat_f32 [wire_simps]: "length (concat (map f32_to_le v)) = length v * 4"
  by (induction v) (auto simp: f32_to_le_def)

lemma valid_id_len_u16: "valid_id v \<Longrightarrow> unat (of_nat (length v) :: u16) = length v"
  by (auto simp: valid_id_def unat_of_nat take_bit_eq_mod)

lemma decode_row_encode_row:
  "row_ok dims r \<Longrightarrow> decode_row dims (encode_row r @ rest) = Inr (r, rest)"
  using f32.parse_n_concat[of "snd r" "[]"]
  by (auto simp: row_ok_def decode_row_def encode_row_def u16.dec_enc valid_id_len_u16
      length_concat_f32 valid_id_utf8 list_all_iff)

interpretation row: wire_codec encode_row "decode_row dims" "row_ok dims"
  by unfold_locales (rule decode_row_encode_row)

lemma length_encode_row:
  "row_ok dims r \<Longrightarrow> length (encode_row r) = 2 + length (fst r) + dims * 4"
  by (auto simp: encode_row_def length_concat_f32 row_ok_def)

lemma length_rows_ge:
  "\<forall>r \<in> set rows. row_ok dims r \<Longrightarrow>
    length rows * (dims * 4 + 2) \<le> length (concat (map encode_row rows))"
  by (induction rows) (auto simp: length_encode_row)

subsection \<open>What a successful read says about the bytes\<close>

text \<open>Each reader accepts only what the writer produces: the bytes are determined.\<close>

lemma read_f32_Inr: "read_f32 bs = Inr (x, r) \<Longrightarrow> bs = f32_to_le x @ r \<and> f32_is_finite x"
  by (auto simp: read_f32_def take_exact_Inr_iff f32_to_le_def f32_from_le_def u32_to_le_from_le
      split: if_splits)

lemma parse_n_f32_Inr:
  "parse_n read_f32 n bs = Inr (v, r) \<Longrightarrow>
    bs = concat (map f32_to_le v) @ r \<and> length v = n \<and> list_all f32_is_finite v"
  by (induction n arbitrary: bs v r) (auto dest!: read_f32_Inr)

lemma u16_to_le_from_le: "length bs = 2 \<Longrightarrow> u16_to_le (u16_from_le bs) = bs"
  using nat_le_bound[of bs] le_nat_nat_le[of bs]
  by (simp add: u16_to_le_def u16_from_le_def unat_of_nat take_bit_eq_mod)

lemma decode_row_Inr:
  assumes "decode_row dims bs = Inr (r, rest)"
  shows "bs = encode_row r @ rest \<and> row_ok dims r"
proof -
  from assms obtain lenb r1 rid r2 data v left where
    bs: "bs = lenb @ r1" "length lenb = 2" and
    r1: "r1 = rid @ r2" "length rid = unat (u16_from_le lenb)" and
    rid: "valid_id rid" and
    r2: "r2 = data @ rest" "length data = dims * 4" and
    v: "parse_n read_f32 dims data = Inr (v, left)" and r: "r = (rid, v)"
    by (auto simp: decode_row_def read_u16_def take_exact_Inr_iff split: if_splits)
  from parse_n_f32_Inr[OF v] have v': "data = concat (map f32_to_le v) @ left" "length v = dims"
    "list_all f32_is_finite v" by auto
  with r2 have "left = []" by (simp add: length_concat_f32)
  moreover from r1(2) have "of_nat (length rid) = u16_from_le lenb" by simp
  ultimately have "bs = encode_row r @ rest"
    using bs r1 r2 v' r u16_to_le_from_le[OF bs(2)] by (simp add: encode_row_def)
  with rid v' r show ?thesis by (simp add: row_ok_def)
qed

lemma parse_n_rows_Inr:
  "parse_n (decode_row dims) n bs = Inr (rows, rest) \<Longrightarrow>
    bs = concat (map encode_row rows) @ rest \<and> length rows = n \<and> (\<forall>r \<in> set rows. row_ok dims r)"
  by (induction n arbitrary: bs rows rest) (auto dest!: decode_row_Inr)

subsection \<open>Round trip and canonical form\<close>

lemma length_block_magic [simp]: "length block_magic = 5"
  by (simp add: block_magic_def)

definition block_ok :: "row list \<Rightarrow> bool" where
  "block_ok rows \<longleftrightarrow> length rows < 2 ^ 32 \<and> block_dims rows \<le> 4096
     \<and> (rows \<noteq> [] \<longrightarrow> 0 < block_dims rows) \<and> (\<forall>r \<in> set rows. row_ok (block_dims rows) r)"

lemma decode_encode:
  assumes "block_ok rows"
  shows "decode crc (encode crc rows) = Inr rows"
proof -
  let ?d = "block_dims rows" and ?rs = "concat (map encode_row rows)"
  from assms have ok: "\<forall>r \<in> set rows. row_ok ?d r" and "?d \<le> 4096" "length rows < 2 ^ 32"
    by (simp_all add: block_ok_def)
  then have d: "unat (of_nat ?d :: u32) = ?d" and n: "unat (of_nat (length rows) :: u32) = length rows"
    by (auto simp: unat_of_nat take_bit_eq_mod)
  have len: "length (block_body rows) = 13 + length ?rs"
    by (simp add: block_body_def)
  from length_rows_ge[OF ok] len have "length rows * (?d * 4 + 2) \<le> length (block_body rows)"
    by simp
  then have cnt: "length rows \<le> length (block_body rows) div (?d * 4 + 2)"
    by (subst less_eq_div_iff_mult_less_eq) simp_all
  have parts: "take 5 (encode crc rows) = block_magic"
    "take (length (encode crc rows) - 4) (encode crc rows) = block_body rows"
    "drop (length (encode crc rows) - 4) (encode crc rows) = u32_to_le (crc (block_body rows))"
    "17 \<le> length (encode crc rows)"
    using len by (simp_all add: encode_def) (simp add: block_body_def)
  have fields: "take 4 (drop 5 (block_body rows)) = u32_to_le (of_nat ?d)"
    "take 4 (drop 9 (block_body rows)) = u32_to_le (of_nat (length rows))"
    "drop 13 (block_body rows) = ?rs"
    by (simp_all add: block_body_def)
  have rows: "parse_n (decode_row ?d) (length rows) ?rs = Inr (rows, [])"
    using row.parse_n_concat[OF ok, of "[]"] by simp
  show ?thesis
    using assms parts cnt
    by (auto simp: decode_def fields d n rows block_ok_def MAX_DIMENSIONS_def Let_def not_less)
qed

lemma header_split: "bs = take 5 bs @ take 4 (drop 5 bs) @ take 4 (drop 9 bs) @ drop 13 bs"
  using append_take_drop_id[of 5 bs] append_take_drop_id[of 4 "drop 5 bs"]
    append_take_drop_id[of 4 "drop 9 bs"] by simp

lemma unat_u32_less: "unat (x :: u32) < 2 ^ 32"
  using unsigned_less[where 'b = 32 and w = x] by simp

lemma decode_Inr:
  assumes "decode crc bs = Inr rows" and "rows \<noteq> []"
  shows "bs = encode crc rows \<and> block_ok rows"
proof -
  let ?body = "take (length bs - 4) bs"
  let ?dims = "unat (u32_from_le (take 4 (drop 5 ?body)))"
  let ?count = "unat (u32_from_le (take 4 (drop 9 ?body)))"
  from assms(1) have len: "17 \<le> length bs" and magic: "take 5 bs = block_magic"
    and crc: "crc ?body = u32_from_le (drop (length bs - 4) bs)"
    and dims: "?dims \<le> 4096" "0 < ?count \<longrightarrow> 0 < ?dims"
    and rows: "parse_n (decode_row ?dims) ?count (drop 13 ?body) = Inr (rows, [])"
    by (auto simp: decode_def Let_def MAX_DIMENSIONS_def split: if_splits)
  from parse_n_rows_Inr[OF rows] have rs: "drop 13 ?body = concat (map encode_row rows)"
    "length rows = ?count" and ok: "\<forall>r \<in> set rows. row_ok ?dims r" by auto
  from assms(2) ok have bd: "block_dims rows = ?dims"
    by (cases rows) (auto simp: block_dims_def row_ok_def)
  have "u32_to_le (of_nat ?dims) = take 4 (drop 5 ?body)"
    "u32_to_le (of_nat ?count) = take 4 (drop 9 ?body)"
    using len by (simp_all add: u32_to_le_from_le)
  moreover have "?body = take 5 ?body @ take 4 (drop 5 ?body) @ take 4 (drop 9 ?body) @ drop 13 ?body"
    by (rule header_split)
  moreover have "take 5 ?body = block_magic"
  proof -
    from len have "min 5 (length bs - 4) = 5" by linarith
    with magic show ?thesis by simp
  qed
  ultimately have "?body = block_body rows"
    using rs bd by (simp add: block_body_def)
  moreover have "u32_to_le (crc ?body) = drop (length bs - 4) bs"
    using len by (simp add: crc u32_to_le_from_le)
  ultimately have "bs = encode crc rows"
    by (metis append_take_drop_id encode_def)
  moreover have "?count < 2 ^ 32"
    by (rule unat_u32_less)
  ultimately show ?thesis
    using bd dims ok rs assms(2) by (auto simp: block_ok_def)
qed

lemma decode_vector_encode_vector:
  assumes "valid_vector c v" and "valid_config c"
  shows "decode_vector crc (encode_vector crc v) = Inr v"
proof -
  have "block_ok [(''v'', v)]"
    using assms
    by (auto simp: block_ok_def block_dims_def row_ok_def valid_vector_def valid_config_def
        valid_id_def id_char_def)
  then show ?thesis
    by (simp add: decode_vector_def encode_vector_def decode_encode)
qed


text \<open>C29: The vector block format is exact: a byte string decodes to given non-empty rows exactly when
  it is their encoding and they are well formed (valid IDs, one dimension up to 4096 for all,
  finite components). So blocks round-trip, and every other byte string, truncated, extended,
  with a wrong checksum or a non-canonical field, is rejected or is another block.\<close>
theorem block_codec_exact:
  assumes "rows \<noteq> []"
  shows "decode crc bs = Inr rows \<longleftrightarrow> bs = encode crc rows \<and> block_ok rows"
  using decode_encode decode_Inr[OF _ assms] by blast

theorem block_codec_exact_witness:
  "decode (\<lambda>_. 7) (encode (\<lambda>_. 7) [(''a'', [0x3F800000]), (''b'', [0xC0000000])]) =
    Inr [(''a'', [0x3F800000]), (''b'', [0xC0000000])]"
proof -
  let ?rows = "[(''a'', [0x3F800000 :: f32]), (''b'', [0xC0000000])]"
  have "block_ok ?rows"
    by (simp add: block_ok_def block_dims_def row_ok_def valid_id_def id_char_def Let_def
        f32_is_finite_def f32_mag_def f32_inf_mag_def)
  then show ?thesis using block_codec_exact[of ?rows] by simp
qed

text \<open>A stored vector reads back bit for bit: every vector that a valid namespace configuration
  accepts survives encoding and decoding, whatever the checksum function.\<close>
theorem stored_vector_round_trip:
  assumes "valid_vector c v" and "valid_config c"
  shows "decode_vector crc (encode_vector crc v) = Inr v"
  using decode_vector_encode_vector[OF assms] .

theorem stored_vector_round_trip_witness:
  "decode_vector (\<lambda>_. 0) (encode_vector (\<lambda>_. 0) [0x3F800000, 0x80000000]) = Inr [0x3F800000, 0x80000000]"
proof -
  let ?c = "\<lparr>dimensions = Some 2, metric = Cosine, text_fields = []\<rparr>"
  have "valid_vector ?c [0x3F800000, 0x80000000]" "valid_config ?c"
    by (simp_all add: valid_vector_def valid_config_def f32_is_finite_def f32_mag_def f32_inf_mag_def f32_is_zero_def)
  then show ?thesis by (rule stored_vector_round_trip)
qed

end
