(* ===== verification/Store.thy ===== *)
theory Store
  imports Binary
begin

section \<open>The durable key space and what the engine asks of it\<close>

text \<open>
  SlateDB is a library; the engine relies on its documented interface only: an ordered map
  from byte keys to byte values, atomic write batches, snapshots, and prefix scans in key
  order. That interface is modelled by the ordered map of \<open>BTree\<close> (its contract
  \<open>ordered_map\<close> is interpreted there on these functions), with one addition: a write that
  is reported as failed may or may not have become durable. The field \<open>faults\<close> says what
  happens to the next commits, in order (an exhausted list means success), so a theorem
  over all \<open>db\<close> states covers every failure and, by stopping at the first error, every
  crash point. A failing read aborts an operation where the next commit would otherwise be,
  so it leaves the same stores as \<open>FailClean\<close>.
\<close>

type_synonym store = "(string, bytes) btree"

datatype batch_op = Put string bytes | Del string

type_synonym batch = "batch_op list"

fun apply_op :: "batch_op \<Rightarrow> store \<Rightarrow> store" where
  "apply_op (Put k v) s = bt_put k v s"
| "apply_op (Del k) s = bt_del k s"

definition apply_batch :: "batch \<Rightarrow> store \<Rightarrow> store" where
  "apply_batch b s = fold apply_op b s"

fun op_key :: "batch_op \<Rightarrow> string" where
  "op_key (Put k v) = k"
| "op_key (Del k) = k"

text \<open>Rows under a prefix, with their full keys, in key order.\<close>

definition scan_prefix :: "string \<Rightarrow> store \<Rightarrow> (string \<times> bytes) list" where
  "scan_prefix p s = filter (\<lambda>(k, _). prefix p k) s"

text \<open>
  A scan with a sub-range: SlateDB compares the bounds with what follows the prefix. The
  lower bound is excluded in \<open>scan_after\<close> and included in \<open>scan_between\<close>, whose upper
  bound is excluded.
\<close>

definition scan_after :: "string \<Rightarrow> string option \<Rightarrow> store \<Rightarrow> (string \<times> bytes) list" where
  "scan_after p a s =
     filter (\<lambda>(k, _). case a of None \<Rightarrow> True | Some x \<Rightarrow> x < drop (length p) k) (scan_prefix p s)"

definition scan_between :: "string \<Rightarrow> string \<Rightarrow> string \<Rightarrow> store \<Rightarrow> (string \<times> bytes) list" where
  "scan_between p lo hi s =
     filter (\<lambda>(k, _). lo \<le> drop (length p) k \<and> drop (length p) k < hi) (scan_prefix p s)"

subsection \<open>Batches\<close>

lemma apply_batch_simps [simp]:
  "apply_batch [] s = s"
  "apply_batch (x # b) s = apply_batch b (apply_op x s)"
  by (simp_all add: apply_batch_def)

lemma apply_batch_append [simp]: "apply_batch (a @ b) s = apply_batch b (apply_batch a s)"
  by (simp add: apply_batch_def)

lemma bt_ok_apply_op [simp]: "bt_ok s \<Longrightarrow> bt_ok (apply_op x s)"
  by (cases x) simp_all

lemma bt_ok_apply_batch [simp]: "bt_ok s \<Longrightarrow> bt_ok (apply_batch b s)"
  by (induction b arbitrary: s) simp_all

lemma get_apply_op [store_simps]:
  "bt_ok s \<Longrightarrow> bt_get (apply_op x s) k =
    (if op_key x = k then (case x of Put _ v \<Rightarrow> Some v | Del _ \<Rightarrow> None) else bt_get s k)"
  by (cases x) auto

lemma get_apply_batch_other [store_simps]:
  "bt_ok s \<Longrightarrow> k \<notin> op_key ` set b \<Longrightarrow> bt_get (apply_batch b s) k = bt_get s k"
  by (induction b arbitrary: s) (auto simp: get_apply_op)

lemma get_apply_dels:
  "bt_ok s \<Longrightarrow> bt_get (apply_batch (map Del ks) s) k = (if k \<in> set ks then None else bt_get s k)"
  by (induction ks arbitrary: s) auto

subsection \<open>Scans\<close>

lemma scan_prefix_iff:
  "bt_ok s \<Longrightarrow> (k, v) \<in> set (scan_prefix p s) \<longleftrightarrow> prefix p k \<and> bt_get s k = Some v"
  by (auto simp: scan_prefix_def bt_get_iff)

lemma scan_prefix_keys:
  "bt_ok s \<Longrightarrow> k \<in> fst ` set (scan_prefix p s) \<longleftrightarrow> prefix p k \<and> bt_get s k \<noteq> None"
proof -
  assume "bt_ok s"
  from scan_prefix_iff[OF this] have
    "fst ` set (scan_prefix p s) = {k. \<exists>v. prefix p k \<and> bt_get s k = Some v}"
    by (auto simp: image_iff) (metis fst_conv)+
  then show ?thesis by auto
qed

lemma bt_ok_scan_prefix [simp]: "bt_ok s \<Longrightarrow> bt_ok (scan_prefix p s)"
  by (simp add: scan_prefix_def)

lemma bt_get_scan_prefix:
  "bt_ok s \<Longrightarrow> bt_get (scan_prefix p s) k = (if prefix p k then bt_get s k else None)"
  by (auto simp: scan_prefix_def bt_get_filter split: option.splits)

lemma scan_prefix_cong:
  assumes "bt_ok s" "bt_ok t" "\<And>k. prefix p k \<Longrightarrow> bt_get s k = bt_get t k"
  shows "scan_prefix p s = scan_prefix p t"
  by (rule bt_ok_ext) (use assms in \<open>auto simp: bt_get_scan_prefix\<close>)

lemma scan_prefix_apply_batch_other:
  "bt_ok s \<Longrightarrow> \<forall>x \<in> set b. \<not> prefix p (op_key x) \<Longrightarrow> scan_prefix p (apply_batch b s) = scan_prefix p s"
  by (rule scan_prefix_cong) (auto intro!: get_apply_batch_other)

subsection \<open>Tallies: sums over a table, in u64 arithmetic\<close>

text \<open>
  The counters of a namespace are sums over its rows, kept with wrapping 64-bit
  arithmetic. \<open>tally f p s\<close> is the sum of \<open>f\<close> over the rows under \<open>p\<close>; an update changes
  it by the difference at the one key.
\<close>

definition tally :: "(bytes \<Rightarrow> u64) \<Rightarrow> string \<Rightarrow> store \<Rightarrow> u64" where
  "tally f p s = sum_list (map (\<lambda>(k, v). f v) (scan_prefix p s))"

definition weight :: "(bytes \<Rightarrow> u64) \<Rightarrow> bytes option \<Rightarrow> u64" where
  "weight f x = (case x of None \<Rightarrow> 0 | Some v \<Rightarrow> f v)"

lemma weight_simps [simp]: "weight f None = 0" "weight f (Some v) = f v"
  by (simp_all add: weight_def)

lemma tally_Nil [simp]: "tally f p [] = 0"
  by (simp add: tally_def scan_prefix_def)

lemma tally_Cons:
  "tally f p ((k, v) # s) = (if prefix p k then f v else 0) + tally f p s"
  by (simp add: tally_def scan_prefix_def)

lemma tally_put:
  "bt_ok s \<Longrightarrow> tally f p (bt_put k v s) =
    (if prefix p k then tally f p s + f v - weight f (bt_get s k) else tally f p s)"
proof (induction k v s rule: bt_put.induct)
  case (1 k v)
  then show ?case by (simp add: tally_Cons)
next
  case (2 k v a b t)
  moreover have "bt_get t k = None" if "k < a"
    using 2(2) that by (auto simp: bt_get_None_iff)
  ultimately show ?case by (auto simp: tally_Cons)
qed

lemma tally_del:
  "bt_ok s \<Longrightarrow> tally f p (bt_del k s) =
    (if prefix p k then tally f p s - weight f (bt_get s k) else tally f p s)"
proof (induction s)
  case Nil
  then show ?case by (simp add: bt_del_def)
next
  case (Cons q t)
  obtain a b where q: "q = (a, b)" by force
  show ?case
  proof (cases "a = k")
    case True
    with Cons.prems q have "k \<notin> set (keys_of t)" by auto
    then have "bt_del k t = t" by (force simp: bt_del_def filter_id_conv)
    with True q show ?thesis by (simp add: bt_del_def tally_Cons)
  next
    case False
    with Cons q show ?thesis by (simp add: bt_del_def tally_Cons)
  qed
qed

lemma tally_apply_op [store_simps]:
  "bt_ok s \<Longrightarrow> tally f p (apply_op x s) =
    (if prefix p (op_key x)
     then tally f p s - weight f (bt_get s (op_key x))
          + (case x of Put _ v \<Rightarrow> f v | Del _ \<Rightarrow> 0)
     else tally f p s)"
  by (cases x) (simp_all add: tally_put tally_del)

lemma tally_cong: "scan_prefix p s = scan_prefix p t \<Longrightarrow> tally f p s = tally f p t"
  by (simp add: tally_def)

lemma tally_one: "tally (\<lambda>_. 1) p s = of_nat (length (scan_prefix p s))"
  by (simp add: tally_def case_prod_unfold sum_list_triv map_replicate_const sum_list_replicate)

subsection \<open>The database handle and its actions\<close>

datatype fault = NoFault | FailClean | FailDurable

record db =
  kv :: store
  seqno :: u64
  closed :: bool
  faults :: "fault list"

type_synonym 'a act = "db \<Rightarrow> 'a result \<times> db"

definition act_ret :: "'a \<Rightarrow> 'a act" where "act_ret a d = (Inr a, d)"
definition act_fail :: "error \<Rightarrow> 'a act" where "act_fail e d = (Inl e, d)"
definition act_lift :: "'a result \<Rightarrow> 'a act" where "act_lift r d = (r, d)"

definition act_bind :: "'a act \<Rightarrow> ('a \<Rightarrow> 'b act) \<Rightarrow> 'b act" where
  "act_bind m f d = (case m d of (Inl e, d') \<Rightarrow> (Inl e, d') | (Inr a, d') \<Rightarrow> f a d')"

text \<open>A read of the current store.\<close>

definition act_read :: "(store \<Rightarrow> 'a result) \<Rightarrow> 'a act" where
  "act_read f d = (f (kv d), d)"

text \<open>\<open>db.write(batch).await?.await_durable().await?\<close>: an atomic batch and its sequence number.\<close>

definition commit :: "batch \<Rightarrow> u64 act" where
  "commit b d =
     (let done = d\<lparr>kv := apply_batch b (kv d), seqno := seqno d + 1, faults := tl (faults d)\<rparr> in
      if closed d then (Inl Storage, d)
      else (case faults d of
          [] \<Rightarrow> (Inr (seqno d + 1), done)
        | NoFault # _ \<Rightarrow> (Inr (seqno d + 1), done)
        | FailClean # fs \<Rightarrow> (Inl Storage, d\<lparr>faults := fs\<rparr>)
        | FailDurable # _ \<Rightarrow> (Inl Storage, done)))"

fun commit_all :: "batch list \<Rightarrow> unit act" where
  "commit_all [] = act_ret ()"
| "commit_all (b # bs) = act_bind (commit b) (\<lambda>_. commit_all bs)"

fun act_for :: "('a \<Rightarrow> unit act) \<Rightarrow> 'a list \<Rightarrow> unit act" where
  "act_for f [] = act_ret ()"
| "act_for f (x # xs) = act_bind (f x) (\<lambda>_. act_for f xs)"

lemma act_simps [simp]:
  "act_ret a d = (Inr a, d)"
  "act_fail e d = (Inl e, d)"
  "act_lift r d = (r, d)"
  "act_read f d = (f (kv d), d)"
  by (simp_all add: act_ret_def act_fail_def act_lift_def act_read_def)

lemma act_bind_Inr_iff:
  "act_bind m f d = (Inr b, d') \<longleftrightarrow> (\<exists>a e. m d = (Inr a, e) \<and> f a e = (Inr b, d'))"
  by (auto simp: act_bind_def split: prod.splits sum.splits)

lemma act_bind_eq_cases:
  "act_bind m f d = (r, d') \<Longrightarrow>
    (\<exists>e. m d = (Inl e, d') \<and> r = Inl e) \<or> (\<exists>a u. m d = (Inr a, u) \<and> f a u = (r, d'))"
  by (auto simp: act_bind_def split: prod.splits sum.splits)

lemma commit_Inr:
  "commit b d = (Inr q, d') \<Longrightarrow>
    \<not> closed d \<and> kv d' = apply_batch b (kv d) \<and> q = seqno d + 1 \<and> seqno d' = q \<and> \<not> closed d'"
  by (auto simp: commit_def Let_def split: if_splits list.splits fault.splits)

lemma commit_kv:
  "commit b d = (r, d') \<Longrightarrow> kv d' = kv d \<or> kv d' = apply_batch b (kv d)"
  by (auto simp: commit_def Let_def split: if_splits list.splits fault.splits)

lemma commit_Inl: "commit b d = (Inl e, d') \<Longrightarrow> e = Storage"
  by (auto simp: commit_def Let_def split: if_splits list.splits fault.splits)

lemma commit_no_faults [simp]:
  "\<not> closed d \<Longrightarrow> faults d = [] \<Longrightarrow>
    commit b d = (Inr (seqno d + 1), d\<lparr>kv := apply_batch b (kv d), seqno := seqno d + 1\<rparr>)"
  by (simp add: commit_def Let_def)

text \<open>
  A store relation that every batch of an action preserves holds between the stores before
  and after it, whether it succeeds, fails or crashes part-way.
\<close>

definition keeps :: "(store \<Rightarrow> store \<Rightarrow> bool) \<Rightarrow> 'a act \<Rightarrow> bool" where
  "keeps R m \<longleftrightarrow> (\<forall>d r d'. m d = (r, d') \<longrightarrow> R (kv d) (kv d'))"

lemma keeps_ret [intro]: "reflp R \<Longrightarrow> keeps R (act_ret a)"
  by (auto simp: keeps_def reflp_def)

lemma keeps_bind:
  assumes "transp R" "keeps R m" "\<And>a. keeps R (f a)"
  shows "keeps R (act_bind m f)"
  unfolding keeps_def
proof (intro allI impI)
  fix d r d'
  assume "act_bind m f d = (r, d')"
  from act_bind_eq_cases[OF this] show "R (kv d) (kv d')"
  proof (elim disjE exE conjE)
    fix e
    assume "m d = (Inl e, d')"
    with assms(2) show ?thesis by (auto simp: keeps_def)
  next
    fix a u
    assume "m d = (Inr a, u)" "f a u = (r, d')"
    with assms(2,3) have "R (kv d) (kv u)" "R (kv u) (kv d')" unfolding keeps_def by blast+
    with assms(1) show ?thesis by (rule transpD)
  qed
qed

lemma keeps_commit:
  "reflp R \<Longrightarrow> (\<And>s. R s (apply_batch b s)) \<Longrightarrow> keeps R (commit b)"
  unfolding keeps_def by (metis commit_kv reflp_def)

end
