(* ===== verification/Keys.thy ===== *)
theory Keys
  imports Store
begin

section \<open>The logical key layout (engine.rs, docs/architecture.md)\<close>

text \<open>
  One key family per letter. Namespace names are validated IDs and so contain no slash,
  which is what keeps the tables of different namespaces apart: the lemmas of
  \<open>key_simps\<close> decide for every pair of families whether a key lies under a prefix.
\<close>

definition FORMAT_KEY :: string where "FORMAT_KEY = ''meta/format''"
definition FORMAT :: bytes where "FORMAT = ''gengis-mimi:2''"

definition namespace_key :: "string \<Rightarrow> string" where "namespace_key n = ''n/'' @ n"
definition document_prefix :: "string \<Rightarrow> string" where "document_prefix n = ''d/'' @ n @ ''/''"
definition document_key :: "string \<Rightarrow> string \<Rightarrow> string" where
  "document_key n i = ''d/'' @ n @ ''/'' @ i"
definition vector_prefix :: "string \<Rightarrow> string" where "vector_prefix n = ''v/'' @ n @ ''/''"
definition vector_key :: "string \<Rightarrow> string \<Rightarrow> string" where
  "vector_key n i = ''v/'' @ n @ ''/'' @ i"
definition change_prefix :: "string \<Rightarrow> string" where "change_prefix n = ''c/'' @ n @ ''/''"
definition change_key :: "string \<Rightarrow> string \<Rightarrow> string" where
  "change_key n i = ''c/'' @ n @ ''/'' @ i"
definition gen_prefix :: "string \<Rightarrow> string" where "gen_prefix n = ''g/'' @ n @ ''/''"
definition gen_root :: "string \<Rightarrow> string \<Rightarrow> string" where
  "gen_root n g = ''g/'' @ n @ ''/'' @ g @ ''/''"
definition stats_key :: "string \<Rightarrow> string" where "stats_key n = ''s/'' @ n"
definition index_key :: "string \<Rightarrow> string" where "index_key n = ''i/'' @ n"
definition staging_key :: "string \<Rightarrow> string" where "staging_key n = ''j/'' @ n"
definition deletion_key :: "string \<Rightarrow> string" where "deletion_key n = ''z/'' @ n"

lemmas key_defs = FORMAT_KEY_def namespace_key_def document_prefix_def document_key_def
  vector_prefix_def vector_key_def change_prefix_def change_key_def gen_prefix_def gen_root_def
  stats_key_def index_key_def staging_key_def deletion_key_def

lemma slash_append_eq:
  "slash \<notin> set n \<Longrightarrow> slash \<notin> set m \<Longrightarrow> n @ slash # i = m @ slash # j \<longleftrightarrow> n = m \<and> i = j"
proof (induction n arbitrary: m)
  case Nil
  then show ?case by (cases m) auto
next
  case (Cons c n)
  then show ?case by (cases m) auto
qed

lemma slash_prefix_iff:
  "slash \<notin> set n \<Longrightarrow> slash \<notin> set m \<Longrightarrow> prefix (n @ slash # i) (m @ slash # j) \<longleftrightarrow> n = m \<and> prefix i j"
  unfolding prefix_def by (auto simp: slash_append_eq)

lemma document_prefix_key: "document_key n i = document_prefix n @ i"
  by (simp add: key_defs)
lemma vector_prefix_key: "vector_key n i = vector_prefix n @ i"
  by (simp add: key_defs)
lemma change_prefix_key: "change_key n i = change_prefix n @ i"
  by (simp add: key_defs)

lemma key_inject [key_simps, simp]:
  assumes "valid_id n" "valid_id m"
  shows "document_key n i = document_key m j \<longleftrightarrow> n = m \<and> i = j"
    "vector_key n i = vector_key m j \<longleftrightarrow> n = m \<and> i = j"
    "change_key n i = change_key m j \<longleftrightarrow> n = m \<and> i = j"
  using assms[THEN valid_id_no_slash] by (simp_all add: key_defs slash_append_eq)

lemma key_inject_name [key_simps, simp]:
  "namespace_key n = namespace_key m \<longleftrightarrow> n = m"
  "stats_key n = stats_key m \<longleftrightarrow> n = m"
  "index_key n = index_key m \<longleftrightarrow> n = m"
  "staging_key n = staging_key m \<longleftrightarrow> n = m"
  "deletion_key n = deletion_key m \<longleftrightarrow> n = m"
  by (simp_all add: key_defs)

lemma key_prefix [key_simps, simp]:
  assumes "valid_id n" "valid_id m"
  shows "prefix (document_prefix n) (document_key m i) \<longleftrightarrow> n = m"
    "prefix (vector_prefix n) (vector_key m i) \<longleftrightarrow> n = m"
    "prefix (change_prefix n) (change_key m i) \<longleftrightarrow> n = m"
    "prefix (gen_prefix n) (gen_root m g @ i) \<longleftrightarrow> n = m"
  using assms[THEN valid_id_no_slash] by (simp_all add: key_defs slash_prefix_iff)

text \<open>Families never overlap.\<close>

lemma key_families [key_simps, simp]:
  "document_key n i \<noteq> vector_key m j" "document_key n i \<noteq> change_key m j"
  "document_key n i \<noteq> stats_key m" "document_key n i \<noteq> namespace_key m"
  "document_key n i \<noteq> index_key m" "document_key n i \<noteq> deletion_key m" "document_key n i \<noteq> FORMAT_KEY"
  "vector_key n i \<noteq> document_key m j" "vector_key n i \<noteq> change_key m j"
  "vector_key n i \<noteq> stats_key m" "vector_key n i \<noteq> namespace_key m"
  "vector_key n i \<noteq> index_key m" "vector_key n i \<noteq> deletion_key m" "vector_key n i \<noteq> FORMAT_KEY"
  "change_key n i \<noteq> document_key m j" "change_key n i \<noteq> vector_key m j"
  "change_key n i \<noteq> stats_key m" "change_key n i \<noteq> namespace_key m"
  "change_key n i \<noteq> index_key m" "change_key n i \<noteq> deletion_key m" "change_key n i \<noteq> FORMAT_KEY"
  "stats_key n \<noteq> document_key m j" "stats_key n \<noteq> vector_key m j" "stats_key n \<noteq> change_key m j"
  "stats_key n \<noteq> namespace_key m" "stats_key n \<noteq> index_key m" "stats_key n \<noteq> deletion_key m"
  "stats_key n \<noteq> FORMAT_KEY" "stats_key n \<noteq> staging_key m"
  "namespace_key n \<noteq> document_key m j" "namespace_key n \<noteq> vector_key m j"
  "namespace_key n \<noteq> change_key m j" "namespace_key n \<noteq> stats_key m"
  "namespace_key n \<noteq> index_key m" "namespace_key n \<noteq> deletion_key m" "namespace_key n \<noteq> FORMAT_KEY"
  "namespace_key n \<noteq> staging_key m"
  "deletion_key n \<noteq> namespace_key m" "deletion_key n \<noteq> index_key m" "deletion_key n \<noteq> staging_key m"
  "deletion_key n \<noteq> stats_key m" "deletion_key n \<noteq> FORMAT_KEY"
  "FORMAT_KEY \<noteq> document_key n i" "FORMAT_KEY \<noteq> vector_key n i" "FORMAT_KEY \<noteq> change_key n i"
  "FORMAT_KEY \<noteq> stats_key n" "FORMAT_KEY \<noteq> namespace_key n" "FORMAT_KEY \<noteq> deletion_key n"
  "FORMAT_KEY \<noteq> index_key n" "FORMAT_KEY \<noteq> staging_key n"
  "staging_key n \<noteq> document_key m j" "staging_key n \<noteq> vector_key m j"
  "staging_key n \<noteq> change_key m j" "staging_key n \<noteq> stats_key m" "staging_key n \<noteq> index_key m"
  "staging_key n \<noteq> namespace_key m" "staging_key n \<noteq> deletion_key m" "staging_key n \<noteq> FORMAT_KEY"
  "index_key n \<noteq> document_key m j" "index_key n \<noteq> vector_key m j" "index_key n \<noteq> change_key m j"
  "index_key n \<noteq> deletion_key m" "index_key n \<noteq> FORMAT_KEY"
  "deletion_key n \<noteq> document_key m j" "deletion_key n \<noteq> vector_key m j"
  "deletion_key n \<noteq> change_key m j"
  "document_key n i \<noteq> staging_key m" "vector_key n i \<noteq> staging_key m" "change_key n i \<noteq> staging_key m"
  "index_key n \<noteq> stats_key m" "index_key n \<noteq> namespace_key m" "index_key n \<noteq> staging_key m"
  by (simp_all add: key_defs)

lemma prefix_families [key_simps, simp]:
  "\<not> prefix (document_prefix n) (vector_key m j)" "\<not> prefix (document_prefix n) (change_key m j)"
  "\<not> prefix (document_prefix n) (stats_key m)" "\<not> prefix (document_prefix n) (namespace_key m)"
  "\<not> prefix (document_prefix n) (deletion_key m)" "\<not> prefix (document_prefix n) FORMAT_KEY"
  "\<not> prefix (document_prefix n) (index_key m)" "\<not> prefix (document_prefix n) (staging_key m)"
  "\<not> prefix (vector_prefix n) (document_key m j)" "\<not> prefix (vector_prefix n) (change_key m j)"
  "\<not> prefix (vector_prefix n) (stats_key m)" "\<not> prefix (vector_prefix n) (namespace_key m)"
  "\<not> prefix (vector_prefix n) (deletion_key m)" "\<not> prefix (vector_prefix n) FORMAT_KEY"
  "\<not> prefix (vector_prefix n) (index_key m)" "\<not> prefix (vector_prefix n) (staging_key m)"
  "\<not> prefix (change_prefix n) (document_key m j)" "\<not> prefix (change_prefix n) (vector_key m j)"
  "\<not> prefix (change_prefix n) (stats_key m)" "\<not> prefix (change_prefix n) (namespace_key m)"
  "\<not> prefix (change_prefix n) (deletion_key m)" "\<not> prefix (change_prefix n) FORMAT_KEY"
  "\<not> prefix (change_prefix n) (index_key m)" "\<not> prefix (change_prefix n) (staging_key m)"
  "\<not> prefix (gen_prefix n) (document_key m j)" "\<not> prefix (gen_prefix n) (vector_key m j)"
  "\<not> prefix (gen_prefix n) (change_key m j)" "\<not> prefix (gen_prefix n) (stats_key m)"
  "\<not> prefix (gen_prefix n) (namespace_key m)" "\<not> prefix (gen_prefix n) (deletion_key m)"
  "\<not> prefix (gen_prefix n) (index_key m)" "\<not> prefix (gen_prefix n) (staging_key m)"
  "\<not> prefix (gen_prefix n) FORMAT_KEY"
  by (simp_all add: key_defs)

text \<open>
  The keys that belong to a namespace, in all families: its tables and its single keys.
\<close>

definition owned_by :: "string \<Rightarrow> string \<Rightarrow> bool" where
  "owned_by n k \<longleftrightarrow>
     prefix (document_prefix n) k \<or> prefix (vector_prefix n) k \<or> prefix (change_prefix n) k
     \<or> prefix (gen_prefix n) k
     \<or> k \<in> {namespace_key n, stats_key n, index_key n, staging_key n, deletion_key n}"

lemma owned_by_own [simp]:
  "owned_by n (document_key n i)" "owned_by n (vector_key n i)" "owned_by n (change_key n i)"
  "owned_by n (namespace_key n)" "owned_by n (stats_key n)" "owned_by n (index_key n)"
  "owned_by n (staging_key n)" "owned_by n (deletion_key n)"
  by (simp_all add: owned_by_def document_prefix_key vector_prefix_key change_prefix_key)

lemma owned_by_disjoint:
  assumes "valid_id n" "valid_id m" "n \<noteq> m" "owned_by n k"
  shows "\<not> owned_by m k"
proof
  note sl = assms(1,2)[THEN valid_id_no_slash]
  have two: "n = m" if "prefix (p @ n @ [slash]) k" "prefix (p @ m @ [slash]) k" for p
  proof -
    from that obtain i j where "k = p @ n @ slash # i" "k = p @ m @ slash # j"
      unfolding prefix_def by fastforce
    then have "n @ slash # i = m @ slash # j" by simp
    with sl show ?thesis by (simp add: slash_append_eq)
  qed
  assume "owned_by m k"
  with assms(4) show False
    using assms(3) two[of "''d/''"] two[of "''v/''"] two[of "''c/''"] two[of "''g/''"]
    by (auto simp: owned_by_def key_defs prefix_def)
qed

lemma owned_by_not_format [simp]: "\<not> owned_by n FORMAT_KEY"
  by (auto simp: owned_by_def)

end
