(* ===== verification/Codec.thy ===== *)
theory Codec
  imports Keys
begin

section \<open>Stored records and the libraries that encode them\<close>

text \<open>
  The derived index's records (index.rs) and \<open>ext\<close>, the functions of libraries the
  program calls: serde_json's encoders and decoders of the stored types, CRC-32
  (crc32fast), SHA-256 in hexadecimal (sha2), Unicode's alphanumeric and lowercase tables,
  and the platform's natural logarithm. They are arguments of every definition that uses
  them; what a theorem needs of them it states as a hypothesis: \<open>json_codec\<close> is
  serde_json's round trip for the stored types made of integers and strings. Types with
  floating-point members (documents, index statuses) are kept out of it and appear as the
  round trip of the very values written, because JSON text does not promise every double
  back exactly.
\<close>

record corpus =
  corpus_documents :: u64
  corpus_tokens :: u64

definition default_corpus :: corpus where
  "default_corpus = \<lparr>corpus_documents = 0, corpus_tokens = 0\<rparr>"

record terms =
  terms_length :: u32
  frequencies :: "(string, u32) btree"

record posting =
  posting_id :: string
  posting_frequency :: u32
  posting_length :: u32

record index_status =
  generation :: string
  idx_revision :: u64
  idx_documents :: nat
  idx_vectors :: nat
  centroids :: "f32 list list"
  cluster_blocks :: "nat list"
  idx_text :: "(string, corpus) btree"

definition default_index :: index_status where
  "default_index = \<lparr>generation = [], idx_revision = 0, idx_documents = 0, idx_vectors = 0,
     centroids = [], cluster_blocks = [], idx_text = []\<rparr>"

record ext =
  enc_ns :: "namespace \<Rightarrow> bytes"
  dec_ns :: "bytes \<Rightarrow> namespace option"
  enc_stats :: "stats \<Rightarrow> bytes"
  dec_stats :: "bytes \<Rightarrow> stats option"
  enc_doc :: "document \<Rightarrow> bytes"
  dec_doc :: "bytes \<Rightarrow> document option"
  enc_index :: "index_status \<Rightarrow> bytes"
  dec_index :: "bytes \<Rightarrow> index_status option"
  enc_ids :: "string list \<Rightarrow> bytes"
  dec_ids :: "bytes \<Rightarrow> string list option"
  enc_postings :: "posting list \<Rightarrow> bytes"
  dec_postings :: "bytes \<Rightarrow> posting list option"
  enc_terms :: "(string, terms) btree \<Rightarrow> bytes"
  dec_terms :: "bytes \<Rightarrow> (string, terms) btree option"
  enc_json :: "json \<Rightarrow> bytes"
  crc32 :: "bytes \<Rightarrow> u32"
  sha256_hex :: "bytes \<Rightarrow> string"
  split_words :: "string \<Rightarrow> string list"
  to_lowercase :: "string \<Rightarrow> string"
  ln64 :: "f64 \<Rightarrow> f64"

definition terms_ok :: "(string, terms) btree \<Rightarrow> bool" where
  "terms_ok m \<longleftrightarrow> bt_ok m \<and> list_all (\<lambda>(_, t). bt_ok (frequencies t)) m"

definition json_codec :: "ext \<Rightarrow> bool" where
  "json_codec X \<longleftrightarrow>
     (\<forall>a. dec_ns X (enc_ns X a) = Some a) \<and> (\<forall>a. dec_stats X (enc_stats X a) = Some a)
     \<and> (\<forall>a. dec_ids X (enc_ids X a) = Some a)
     \<and> (\<forall>a. dec_postings X (enc_postings X a) = Some a)
     \<and> (\<forall>a. terms_ok a \<longrightarrow> dec_terms X (enc_terms X a) = Some a)"

lemma json_codecD [simp]:
  assumes "json_codec X"
  shows "dec_ns X (enc_ns X a) = Some a" "dec_stats X (enc_stats X b) = Some b"
    "dec_ids X (enc_ids X d) = Some d"
    "dec_postings X (enc_postings X e) = Some e"
    "terms_ok f \<Longrightarrow> dec_terms X (enc_terms X f) = Some f"
  using assms by (simp_all add: json_codec_def)

end
