(* ===== verification/Configuration.thy ===== *)
theory Configuration
  imports Model
begin

section \<open>Configuration and its validation (config.rs)\<close>

text \<open>
  The configuration records and \<open>Config::validate\<close>, with its checks in the source's order.
  TOML parsing is a library's, and so is the URL parser: \<open>parse_url\<close> is a parameter that
  returns the parts of a URL the code looks at, or the parser's message.
\<close>

record server_config =
  bind :: string
  max_concurrent_queries :: nat
  request_timeout_ms :: nat

datatype storage_config =
    Local (local_path: string)
  | S3 (bucket: string) (region: string) (endpoint: "string option") (allow_http: bool)

record database_config =
  db_prefix :: string
  wal_flush_ms :: nat
  cache_dir :: "string option"
  cache_bytes :: nat
  migrate :: bool
  l0_sst_bytes :: nat

record index_config =
  interval_ms :: nat
  clusters :: nat
  iterations :: nat
  max_build_bytes :: nat
  filter_scan_threshold :: nat

record limits_config =
  max_documents :: u64
  max_namespace_bytes :: u64
  max_pending_documents :: u64

record grant_config =
  grant_namespace :: string
  token_env :: string
  grant_write :: bool

record shard_config =
  shard_id :: string
  workers :: "string list"

datatype cluster_config =
    WorkerConf (node_id: string) (lease_ms: nat)
  | GatewayConf (shards: "shard_config list") (upstream_token_env: string)

record config =
  server :: server_config
  storage :: storage_config
  database :: database_config
  index_conf :: index_config
  limits :: limits_config
  grants :: "grant_config list"
  cluster :: "cluster_config option"

definition default_config :: config where
  "default_config = \<lparr>
     server = \<lparr>bind = ''127.0.0.1:7878'', max_concurrent_queries = 4, request_timeout_ms = 30000\<rparr>,
     storage = Local ''./data'',
     database = \<lparr>db_prefix = ''gengis-mimi/v1'', wal_flush_ms = 100, cache_dir = None,
       cache_bytes = 512 * 1024 * 1024, migrate = False, l0_sst_bytes = 16 * 1024 * 1024\<rparr>,
     index_conf = \<lparr>interval_ms = 5000, clusters = 32, iterations = 4,
       max_build_bytes = 512 * 1024 * 1024, filter_scan_threshold = 4096\<rparr>,
     limits = \<lparr>max_documents = 1000000, max_namespace_bytes = 16 * 1024 * 1024 * 1024,
       max_pending_documents = 50000\<rparr>,
     grants = [], cluster = None\<rparr>"

record url =
  url_scheme :: string
  url_path :: string
  url_query :: "string option"
  url_fragment :: "string option"
  url_username :: string
  url_password :: "string option"

definition worker_origin :: "url \<Rightarrow> bool" where
  "worker_origin u \<longleftrightarrow>
     (url_scheme u = ''http'' \<or> url_scheme u = ''https'') \<and> url_path u = ''/''
     \<and> url_query u = None \<and> url_fragment u = None \<and> url_username u = [] \<and> url_password u = None"

definition validate_worker :: "(string \<Rightarrow> string + url) \<Rightarrow> string \<Rightarrow> unit result" where
  "validate_worker parse_url w =
     (case parse_url w of
        Inl m \<Rightarrow> Inl (Config m)
      | Inr u \<Rightarrow> if worker_origin u then Inr ()
                 else Inl (Config ''worker addresses must be HTTP(S) origins''))"

text \<open>The loop over the shards carries the set of IDs seen so far.\<close>

fun validate_shards ::
  "(string \<Rightarrow> string + url) \<Rightarrow> string list \<Rightarrow> shard_config list \<Rightarrow> unit result" where
  "validate_shards parse_url ids [] = Inr ()"
| "validate_shards parse_url ids (s # ss) =
     rbind (validate_id (shard_id s)) (\<lambda>_.
       if shard_id s \<in> set ids \<or> workers s = [] \<or> 8 < length (workers s)
       then Inl (Config ''shard IDs must be unique, each with 1..8 workers'')
       else rbind (for_each (validate_worker parse_url) (workers s))
         (\<lambda>_. validate_shards parse_url (shard_id s # ids) ss))"

fun validate_cluster :: "(string \<Rightarrow> string + url) \<Rightarrow> cluster_config \<Rightarrow> unit result" where
  "validate_cluster parse_url (WorkerConf node lease) =
     rbind (validate_id node) (\<lambda>_.
       if \<not> (3000 \<le> lease \<and> lease \<le> 300000) then Inl (Config ''lease_ms must be 3000..300000'')
       else Inr ())"
| "validate_cluster parse_url (GatewayConf shs env) =
     (if shs = [] \<or> 128 < length shs \<or> env = []
      then Inl (Config (''gateway requires 1..128 shards and an upstream token environment variable''))
      else validate_shards parse_url [] shs)"

fun is_s3 :: "storage_config \<Rightarrow> bool" where
  "is_s3 (S3 _ _ _ _) = True"
| "is_s3 (Local _) = False"

definition validate_storage :: "storage_config \<Rightarrow> unit result" where
  "validate_storage st =
     (case st of
        Local _ \<Rightarrow> Inr ()
      | S3 bkt reg ep http \<Rightarrow>
          if bkt = [] \<or> reg = [] then Inl (Config ''S3 bucket and region cannot be empty'')
          else (case ep of
              None \<Rightarrow> Inr ()
            | Some e \<Rightarrow>
                if \<not> (prefix ''https://'' e \<or> (http \<and> prefix ''http://'' e))
                then Inl (Config ''S3 endpoint requires https://, or http:// with allow_http = true'')
                else Inr ()))"

definition validate_grant :: "grant_config \<Rightarrow> unit result" where
  "validate_grant g =
     rbind (validate_id (grant_namespace g)) (\<lambda>_.
       if token_env g = [] then Inl (Config ''token_env cannot be empty'') else Inr ())"

definition guard :: "bool \<Rightarrow> error \<Rightarrow> unit result" where
  "guard b e = (if b then Inr () else Inl e)"

lemma guard_Inr [simp]: "guard b e = Inr u \<longleftrightarrow> b"
  by (simp add: guard_def)

definition validate :: "(string \<Rightarrow> string + url) \<Rightarrow> config \<Rightarrow> unit result" where
  "validate parse_url c =
     (let sv = server c; d = database c; ix = index_conf c; lim = limits c in
      rbind (guard (100 \<le> request_timeout_ms sv \<and> request_timeout_ms sv \<le> 3600000)
        (Config ''request_timeout_ms must be 100..3600000'')) (\<lambda>_.
      rbind (guard (64 * 1024 \<le> l0_sst_bytes d \<and> l0_sst_bytes d \<le> 256 * 1024 * 1024)
        (Config ''l0_sst_bytes must be 64 KiB..256 MiB'')) (\<lambda>_.
      rbind (case cluster c of
          None \<Rightarrow> Inr ()
        | Some cl \<Rightarrow> rbind (validate_cluster parse_url cl) (\<lambda>_.
            guard (is_s3 (storage c)) (Config ''cluster deployment requires S3 storage''))) (\<lambda>_.
      rbind (guard (\<not> (clusters ix = 0 \<or> 1024 < clusters ix \<or> iterations ix = 0
            \<or> 50 < iterations ix \<or> max_build_bytes ix < 1024 * 1024))
        (Config ''index requires 1..1024 clusters, 1..50 iterations, and at least 1 MiB max_build_bytes''))
        (\<lambda>_.
      rbind (guard (\<not> (max_documents lim = 0 \<or> max_namespace_bytes lim = 0 \<or> max_pending_documents lim = 0))
        (Config ''namespace limits must be positive'')) (\<lambda>_.
      rbind (for_each validate_grant (grants c)) (\<lambda>_.
      rbind (guard (\<not> list_ex (\<lambda>part. validate_id part \<noteq> Inr ()) (split_slash (db_prefix d)))
        (Config ''database.prefix must contain nonempty slash-separated ID components'')) (\<lambda>_.
      rbind (guard (1 \<le> wal_flush_ms d \<and> wal_flush_ms d \<le> 60000)
        (Config ''wal_flush_ms must be between 1 and 60000'')) (\<lambda>_.
      rbind (guard (1 \<le> max_concurrent_queries sv \<and> max_concurrent_queries sv \<le> 64)
        (Config ''max_concurrent_queries must be between 1 and 64'')) (\<lambda>_.
      rbind (guard (\<not> (cache_dir d \<noteq> None \<and> cache_bytes d < 4 * 1024 * 1024))
        (Config ''cache_bytes must be at least 4 MiB'')) (\<lambda>_.
      validate_storage (storage c))))))))))))"

subsection \<open>What a validated configuration guarantees\<close>

lemma validate_shards_distinct:
  "validate_shards parse_url ids ss = Inr u \<Longrightarrow>
    distinct (map shard_id ss) \<and> set ids \<inter> set (map shard_id ss) = {}
    \<and> (\<forall>s \<in> set ss. valid_id (shard_id s) \<and> workers s \<noteq> [] \<and> length (workers s) \<le> 8)"
  by (induction ss arbitrary: ids) (force split: if_splits)+

definition cluster_ok :: "cluster_config \<Rightarrow> bool" where
  "cluster_ok cl \<longleftrightarrow> (case cl of
      WorkerConf node lease \<Rightarrow> valid_id node \<and> 3000 \<le> lease \<and> lease \<le> 300000
    | GatewayConf shs env \<Rightarrow> shs \<noteq> [] \<and> length shs \<le> 128 \<and> env \<noteq> [] \<and> distinct (map shard_id shs)
        \<and> (\<forall>s \<in> set shs. valid_id (shard_id s)))"

lemma validate_cluster_ok: "validate_cluster parse_url cl = Inr u \<Longrightarrow> cluster_ok cl"
  by (cases cl) (auto simp: cluster_ok_def dest: validate_shards_distinct split: if_splits)

text \<open>a configuration that \<open>validate\<close> accepts satisfies what the rest of the program
  assumes of it: the index parameters lie in the ranges the builder relies on (a nonzero
  cluster count of at most 1024), quotas are positive, every path component of the prefix
  is an ID, a cluster runs on S3 with distinct shard IDs and a lease of 3 s to 300 s, and no
  plaintext endpoint is used unless \<open>allow_http\<close> was set.\<close>
theorem validated_config:
  assumes "validate parse_url c = Inr ()"
  shows "1 \<le> clusters (index_conf c) \<and> clusters (index_conf c) \<le> 1024
    \<and> 1 \<le> iterations (index_conf c) \<and> iterations (index_conf c) \<le> 50
    \<and> max_documents (limits c) \<noteq> 0 \<and> max_pending_documents (limits c) \<noteq> 0
    \<and> list_all valid_id (split_slash (db_prefix (database c)))
    \<and> (\<forall>cl. cluster c = Some cl \<longrightarrow> cluster_ok cl \<and> is_s3 (storage c))
    \<and> (\<forall>bkt reg e. storage c = S3 bkt reg (Some e) False \<longrightarrow> prefix ''https://'' e)"
proof -
  have st: "prefix ''https://'' e" if "storage c = S3 bkt reg (Some e) False" for bkt reg e
    using assms that by (auto simp: validate_def validate_storage_def Let_def split: if_splits)
  have pre: "list_all valid_id (split_slash (db_prefix (database c)))"
    using assms by (auto simp: validate_def Let_def list_ex_iff list_all_iff)
  have cl: "cluster_ok cl \<and> is_s3 (storage c)" if "cluster c = Some cl" for cl
    using assms that by (auto simp: validate_def Let_def dest: validate_cluster_ok)
  from assms have "1 \<le> clusters (index_conf c) \<and> clusters (index_conf c) \<le> 1024
      \<and> 1 \<le> iterations (index_conf c) \<and> iterations (index_conf c) \<le> 50
      \<and> max_documents (limits c) \<noteq> 0 \<and> max_pending_documents (limits c) \<noteq> 0"
    by (auto simp: validate_def Let_def)
  with st pre cl show ?thesis by blast
qed

lemma default_config_valid: "validate parse_url default_config = Inr ()"
  by (simp add: validate_def default_config_def validate_storage_def Let_def valid_id_def id_char_def)

theorem validated_config_witness:
  "validate (\<lambda>_. Inl []) default_config = Inr () \<and> 1 \<le> clusters (index_conf default_config)"
  using default_config_valid[of "\<lambda>_. Inl []"] validated_config[of "\<lambda>_. Inl []" default_config] by blast

end
