(* ===== verification/Index.thy ===== *)
theory Index
  imports Codec Configuration "HOL-Library.Product_Lexorder"
begin

section \<open>Immutable index generations (index.rs)\<close>

text \<open>
  What \<open>build\<close> derives from a snapshot of the documents: vector clusters in blocks, posting
  lists of equal attribute values, of numeric values in sortable keys and of text terms, and
  the term table of each document; and how queries read the attribute postings back
  (\<open>filter_ids\<close>). A \<open>BTreeSet<String>\<close> is an ordered map to unit.
\<close>

type_synonym bset = "(string, unit) btree"

abbreviation bs_insert :: "string \<Rightarrow> bset \<Rightarrow> bset" where "bs_insert x m \<equiv> bt_put x () m"
abbreviation bs_mem :: "string \<Rightarrow> bset \<Rightarrow> bool" where "bs_mem x m \<equiv> bt_get m x \<noteq> None"

definition bs_extend :: "string list \<Rightarrow> bset \<Rightarrow> bset" where
  "bs_extend xs m = fold (\<lambda>x. bt_put x ()) xs m"

subsection \<open>Keys\<close>

definition digest :: "ext \<Rightarrow> bytes \<Rightarrow> string" where "digest X v = sha256_hex X v"

fun canonicalize :: "json \<Rightarrow> json"
  and canonicalize_list :: "json list \<Rightarrow> json list"
  and canonicalize_fields :: "(string \<times> json) list \<Rightarrow> (string \<times> json) list" where
  "canonicalize (JNumber (Float x)) =
     (if f64_eq x f64_zero then JNumber (Float f64_zero) else JNumber (Float x))"
| "canonicalize (JArray vs) = JArray (canonicalize_list vs)"
| "canonicalize (JObject fs) = JObject (canonicalize_fields fs)"
| "canonicalize v = v"
| "canonicalize_list [] = []"
| "canonicalize_list (v # vs) = canonicalize v # canonicalize_list vs"
| "canonicalize_fields [] = []"
| "canonicalize_fields ((k, v) # fs) = (k, canonicalize v) # canonicalize_fields fs"

definition equality_key :: "ext \<Rightarrow> json \<Rightarrow> string" where
  "equality_key X v = digest X (enc_json X (canonicalize v))"

text \<open>The sign bit is flipped for positive values and every bit for negative ones.\<close>

definition number_key :: "f64 \<Rightarrow> string" where
  "number_key v =
     (let bits = (if f64_eq v f64_zero then f64_zero else v) in
      hex_padded 16 (unat (if drop_bit 63 bits = 1 then NOT bits
                           else bits XOR push_bit 63 1)))"

subsection \<open>Terms\<close>

definition count_term :: "(string, u32) btree \<Rightarrow> string \<Rightarrow> (string, u32) btree" where
  "count_term m t = bt_put t ((case bt_get m t of None \<Rightarrow> 0 | Some c \<Rightarrow> c) + 1) m"

definition tokenize :: "ext \<Rightarrow> string \<Rightarrow> terms" where
  "tokenize X text =
     foldl (\<lambda>r term. \<lparr>terms_length = terms_length r + 1,
                     frequencies = count_term (frequencies r) (to_lowercase X term)\<rparr>)
       \<lparr>terms_length = 0, frequencies = []\<rparr>
       (filter (\<lambda>w. w \<noteq> []) (split_words X text))"

definition document_terms :: "ext \<Rightarrow> document \<Rightarrow> string list \<Rightarrow> (string, terms) btree" where
  "document_terms X doc flds =
     fold (\<lambda>field m. case bt_get (attributes doc) field of
         None \<Rightarrow> m
       | Some v \<Rightarrow> (case as_str v of None \<Rightarrow> m | Some text \<Rightarrow> bt_put field (tokenize X text) m))
       flds []"

subsection \<open>Distances, normalisation and the nearest centroid\<close>

definition f64_dot :: "f32 list \<Rightarrow> f32 list \<Rightarrow> f64" where
  "f64_dot a b = f64_sum (map (\<lambda>(x, y). f64_mul (f64_of_f32 x) (f64_of_f32 y)) (zip a b))"

definition f64_norm :: "f32 list \<Rightarrow> f64" where
  "f64_norm v = f64_sqrt (f64_sum (map (\<lambda>x. f64_square (f64_of_f32 x)) v))"

definition distance_score :: "f32 list \<Rightarrow> f32 list \<Rightarrow> metric \<Rightarrow> f64" where
  "distance_score a b m =
     (case m of
        Dot \<Rightarrow> f64_dot a b
      | SquaredEuclidean \<Rightarrow>
          f64_neg (f64_sum (map (\<lambda>(x, y). f64_square (f64_sub (f64_of_f32 x) (f64_of_f32 y))) (zip a b)))
      | Cosine \<Rightarrow>
          (let denominator = f64_mul (f64_norm a) (f64_norm b) in
           if f64_eq denominator f64_zero then f64_minus_one
           else f64_clamp f64_minus_one f64_one (f64_div (f64_dot a b) denominator)))"

definition normalize :: "f32 list \<Rightarrow> f32 list" where
  "normalize v =
     (let norm = f64_norm v in
      if f64_lt f64_zero norm then map (\<lambda>x. f32_of_f64 (f64_div (f64_of_f32 x) norm)) v else v)"

text \<open>\<open>Iterator::max_by\<close> keeps the last of several maxima; an empty list gives 0.\<close>

fun max_at :: "(nat \<times> int) option \<Rightarrow> (nat \<times> int) list \<Rightarrow> nat" where
  "max_at best [] = (case best of None \<Rightarrow> 0 | Some (i, _) \<Rightarrow> i)"
| "max_at best ((i, k) # rest) =
     max_at (case best of None \<Rightarrow> Some (i, k)
             | Some (j, l) \<Rightarrow> if k < l then Some (j, l) else Some (i, k)) rest"

definition nearest :: "f32 list \<Rightarrow> f32 list list \<Rightarrow> nat" where
  "nearest v cs =
     max_at None (map (\<lambda>(i, c). (i, f64_total_key (distance_score v c SquaredEuclidean)))
       (enumerate 0 cs))"

subsection \<open>Training\<close>

definition training_vector :: "metric \<Rightarrow> f32 list \<Rightarrow> f32 list" where
  "training_vector m v = (if m = Cosine then normalize v else v)"

definition spread :: "nat \<Rightarrow> f32 list list \<Rightarrow> f32 list list" where
  "spread count training = map (\<lambda>i. training ! (i * length training div count)) [0..<count]"

text \<open>One Lloyd step: sums and sizes per cluster, then the new centroids.\<close>

definition add_to :: "f64 list \<Rightarrow> f32 list \<Rightarrow> f64 list" where
  "add_to acc v = map (\<lambda>(s, x). f64_add s (f64_of_f32 x)) (zip acc v) @ drop (length v) acc"

definition accumulate ::
  "f32 list list \<Rightarrow> f32 list \<Rightarrow> f64 list list \<times> nat list \<Rightarrow> f64 list list \<times> nat list"
where
  "accumulate cs v acc =
     (let (sums, sizes) = acc; c = nearest v cs in
      (sums[c := add_to (sums ! c) v], sizes[c := sizes ! c + 1]))"

definition lloyd_step :: "metric \<Rightarrow> f32 list list \<Rightarrow> f32 list list \<Rightarrow> f32 list list" where
  "lloyd_step m training cs =
     (let count = length cs;
          (sums, sizes) = fold (accumulate cs) training
            (replicate count (replicate (length (training ! 0)) f64_zero), replicate count 0)
      in map (\<lambda>i. if 0 < sizes ! i
                  then training_vector m
                    (map (\<lambda>v. f32_of_f64 (f64_div v (f64_of_nat (sizes ! i)))) (sums ! i))
                  else cs ! i) [0..<count])"

definition train :: "metric \<Rightarrow> nat \<Rightarrow> nat \<Rightarrow> f32 list list \<Rightarrow> f32 list list" where
  "train m count iters training =
     (if count = 0 then [] else (lloyd_step m training ^^ iters) (spread count training))"

subsection \<open>Building a generation\<close>

definition append_blocks :: "('a list \<Rightarrow> bytes) \<Rightarrow> string \<Rightarrow> 'a list \<Rightarrow> (string \<times> bytes) list" where
  "append_blocks enc key rows =
     map (\<lambda>(block, rows). (key @ ''/'' @ dec_padded 8 block, enc rows)) (enumerate 0 (chunks 256 rows))"

definition push_to :: "string \<Rightarrow> 'a \<Rightarrow> (string, 'a list) btree \<Rightarrow> (string, 'a list) btree" where
  "push_to key x m = bt_put key ((case bt_get m key of None \<Rightarrow> [] | Some xs \<Rightarrow> xs) @ [x]) m"

definition vector_block_key :: "string \<Rightarrow> nat \<Rightarrow> nat \<Rightarrow> string" where
  "vector_block_key p c b = p @ ''v/'' @ dec_padded 4 c @ ''/'' @ dec_padded 8 b"

definition per_block :: "ns_config \<Rightarrow> nat" where
  "per_block schema =
     (let d = (case dimensions schema of None \<Rightarrow> 1 | Some d \<Rightarrow> d) in
      max 1 (min 128 (256 * 1024 div (d * 4 + 130))))"

definition assign :: "f32 list list \<Rightarrow> row \<times> f32 list \<Rightarrow> row list list \<Rightarrow> row list list" where
  "assign cs p groups =
     (let (r, v) = p; c = nearest v cs in groups[c := groups ! c @ [r]])"

definition index_attributes ::
  "ext \<Rightarrow> string \<Rightarrow> document \<Rightarrow> (string, string list) btree \<Rightarrow> (string, string list) btree"
where
  "index_attributes X p doc m =
     fold (\<lambda>(field, v) m.
       let f = digest X field;
           m1 = push_to (p @ ''e/'' @ f @ ''/'' @ equality_key X v) (doc_id doc) m
       in (case as_f64 v of
             Some x \<Rightarrow> if f64_is_finite x
               then push_to (p @ ''r/'' @ f @ ''/'' @ number_key x) (doc_id doc) m1 else m1
           | None \<Rightarrow> m1)) (attributes doc) m"

definition count_corpus :: "string \<Rightarrow> terms \<Rightarrow> (string, corpus) btree \<Rightarrow> (string, corpus) btree" where
  "count_corpus field t m =
     (let c = (case bt_get m field of None \<Rightarrow> default_corpus | Some c \<Rightarrow> c) in
      bt_put field (c\<lparr>corpus_documents := corpus_documents c + 1,
                     corpus_tokens := corpus_tokens c + ucast (terms_length t)\<rparr>) m)"

definition term_prefix :: "ext \<Rightarrow> string \<Rightarrow> string \<Rightarrow> string \<Rightarrow> string" where
  "term_prefix X p field term = p @ ''t/'' @ digest X field @ ''/'' @ digest X term"

definition index_terms ::
  "ext \<Rightarrow> string \<Rightarrow> string \<Rightarrow> string \<Rightarrow> terms \<Rightarrow> (string, posting list) btree \<Rightarrow> (string, posting list) btree"
where
  "index_terms X p i field t m =
     fold (\<lambda>(term, n). push_to (term_prefix X p field term)
         \<lparr>posting_id = i, posting_frequency = n, posting_length = terms_length t\<rparr>)
       (frequencies t) m"

text \<open>
  The state of the loop over the documents: entries so far, attribute postings, text
  postings, and the corpus statistics per field.
\<close>

type_synonym build_state =
  "(string \<times> bytes) list \<times> (string, string list) btree \<times> (string, posting list) btree
   \<times> (string, corpus) btree"

definition index_document :: "ext \<Rightarrow> string \<Rightarrow> ns_config \<Rightarrow> document \<Rightarrow> build_state \<Rightarrow> build_state" where
  "index_document X p schema doc st =
     (let (entries, attrs, text, corpora) = st;
          terms = document_terms X doc (text_fields schema)
      in (entries @ (if terms = [] then [] else [(p @ ''l/'' @ doc_id doc, enc_terms X terms)]),
          index_attributes X p doc attrs,
          fold (\<lambda>(field, t). index_terms X p (doc_id doc) field t) terms text,
          fold (\<lambda>(field, t). count_corpus field t) terms corpora))"

definition entry_bytes :: "(string \<times> bytes) list \<Rightarrow> nat" where
  "entry_bytes es = sum_list (map (\<lambda>(k, v). length k + length v) es)"

definition vectors_of :: "document list \<Rightarrow> row list" where
  "vectors_of docs = concat (map (\<lambda>doc. case vector doc of None \<Rightarrow> [] | Some v \<Rightarrow> [(doc_id doc, v)]) docs)"

definition cluster_entries :: "ext \<Rightarrow> string \<Rightarrow> nat \<Rightarrow> nat \<times> row list \<Rightarrow> (string \<times> bytes) list" where
  "cluster_entries X p pb c =
     map (\<lambda>(block, rows). (vector_block_key p (fst c) block, encode (crc32 X) rows))
       (enumerate 0 (chunks pb (snd c)))"

definition build ::
  "ext \<Rightarrow> string \<Rightarrow> string \<Rightarrow> ns_config \<Rightarrow> u64 \<Rightarrow> document list \<Rightarrow> index_config
   \<Rightarrow> (index_status \<times> (string \<times> bytes) list) result"
where
  "build X gen name schema rv docs conf =
     (let p = gen_root name gen;
          vectors = vectors_of docs;
          training = map (\<lambda>(_, v). training_vector (metric schema) v) vectors;
          count = min (clusters conf) (length vectors);
          cs = train (metric schema) count (iterations conf) training;
          members = fold (assign cs) (zip vectors training) (replicate count []);
          pb = per_block schema;
          vector_entries = concat (map (cluster_entries X p pb) (enumerate 0 members));
          (entries, attrs, text, corpora) =
            fold (index_document X p schema) docs (vector_entries, [], [], []);
          status = \<lparr>generation = gen, idx_revision = rv, idx_documents = length docs,
            idx_vectors = length vectors, centroids = cs,
            cluster_blocks = map (\<lambda>rows. div_ceil (length rows) pb) members, idx_text = corpora\<rparr>;
          all = entries
            @ concat (map (\<lambda>(key, ids). append_blocks (enc_ids X) key ids) attrs)
            @ concat (map (\<lambda>(key, ps). append_blocks (enc_postings X) key ps) text)
      in if max_build_bytes conf < entry_bytes all
         then Inl (Limit ''index output exceeds index.max_build_bytes'')
         else Inr (status, all))"

subsection \<open>Reading postings\<close>

definition postings :: "(bytes \<Rightarrow> 'a list option) \<Rightarrow> store \<Rightarrow> string \<Rightarrow> 'a list result" where
  "postings dec s p =
     rbind (collect_res (\<lambda>(_, v). ok_or Encoding (dec v)) (scan_prefix p s)) (\<lambda>xs. Inr (concat xs))"

definition intersect :: "bset option \<Rightarrow> bset \<Rightarrow> bset" where
  "intersect result ids =
     (case result of
        Some existing \<Rightarrow> filter (\<lambda>(i, _). bs_mem i ids) existing
      | None \<Rightarrow> ids)"

definition eq_ids :: "ext \<Rightarrow> store \<Rightarrow> string \<Rightarrow> string \<Rightarrow> json \<Rightarrow> bset result" where
  "eq_ids X s p field v =
     rbind (postings (dec_ids X) s (p @ ''e/'' @ digest X field @ ''/'' @ equality_key X v @ ''/''))
       (\<lambda>ids. Inr (bs_extend ids []))"

definition range_ids :: "ext \<Rightarrow> store \<Rightarrow> string \<Rightarrow> string \<Rightarrow> numeric_range \<Rightarrow> bset result" where
  "range_ids X s p field bounds =
     (let key = p @ ''r/'' @ digest X field @ ''/'';
          low = (case gte bounds of None \<Rightarrow> [] | Some x \<Rightarrow> number_key x);
          high = (case lte bounds of None \<Rightarrow> ''~'' | Some x \<Rightarrow> number_key x @ ''~'')
      in fold_res (\<lambda>(_, v) ids. rbind (ok_or Encoding (dec_ids X v)) (\<lambda>xs. Inr (bs_extend xs ids)))
           (scan_between key low high s) [])"

definition filter_ids :: "ext \<Rightarrow> store \<Rightarrow> string \<Rightarrow> filter_spec \<Rightarrow> bset option result" where
  "filter_ids X s p f =
     rbind (fold_res (\<lambda>(field, v) result.
         rbind (eq_ids X s p field v) (\<lambda>ids. Inr (Some (intersect result ids)))) (eq_preds f) None)
       (fold_res (\<lambda>(field, bounds) result.
         rbind (range_ids X s p field bounds) (\<lambda>ids. Inr (Some (intersect result ids)))) (range_preds f))"

end
