(* ===== verification/Built.thy ===== *)
theory Built
  imports Index
begin

section \<open>What the index builder writes\<close>

text \<open>
  Facts about the entries of a build, used by the publication protocol (every key lies under
  the root of the generation) and by the queries that read them back.
\<close>

subsection \<open>Keys under the root of the generation\<close>

lemma prefix_appendI: "prefix p q \<Longrightarrow> prefix p (q @ r)"
  by (auto simp: prefix_def)

definition keys_under :: "string \<Rightarrow> (string \<times> 'a) list \<Rightarrow> bool" where
  "keys_under p m \<longleftrightarrow> (\<forall>k \<in> set (map fst m). prefix p k)"

lemma keys_under_simps [simp]:
  "keys_under p []"
  "keys_under p ((k, v) # m) \<longleftrightarrow> prefix p k \<and> keys_under p m"
  "keys_under p (m @ m') \<longleftrightarrow> keys_under p m \<and> keys_under p m'"
  by (auto simp: keys_under_def)

lemma keys_under_push_to: "prefix p k \<Longrightarrow> keys_under p m \<Longrightarrow> keys_under p (push_to k x m)"
  unfolding keys_under_def push_to_def by (simp only: set_keys_bt_put) simp

lemma fold_keeps: "(\<And>x s. x \<in> set xs \<Longrightarrow> P s \<Longrightarrow> P (f x s)) \<Longrightarrow> P s \<Longrightarrow> P (fold f xs s)"
  by (induction xs arbitrary: s) auto

lemma keys_under_index_attributes: "keys_under p m \<Longrightarrow> keys_under p (index_attributes X p doc m)"
  unfolding index_attributes_def
  by (rule fold_keeps[where P = "keys_under p"])
    (auto simp: Let_def intro!: keys_under_push_to split: option.split)

lemma keys_under_index_terms:
  "prefix q (p @ ''t/'') \<Longrightarrow> keys_under q m \<Longrightarrow> keys_under q (index_terms X p i field t m)"
proof -
  assume q: "prefix q (p @ ''t/'')" "keys_under q m"
  have "prefix q (term_prefix X p field w)" for w
    using prefix_appendI[OF q(1), of "digest X field @ ''/'' @ digest X w"] by (simp add: term_prefix_def)
  with q(2) show ?thesis
    unfolding index_terms_def
    by (intro fold_keeps[where P = "keys_under q"]) (auto intro!: keys_under_push_to)
qed

definition build_keys_under :: "string \<Rightarrow> build_state \<Rightarrow> bool" where
  "build_keys_under p st = (case st of (entries, attrs, postings_map, corpora) \<Rightarrow>
     keys_under p entries \<and> keys_under p attrs \<and> keys_under p postings_map)"

lemma build_keys_index_document:
  "build_keys_under p st \<Longrightarrow> build_keys_under p (index_document X p schema doc st)"
  by (cases st)
    (auto simp: build_keys_under_def index_document_def Let_def keys_under_index_attributes case_prod_unfold
      intro!: fold_keeps[where P = "keys_under p"] keys_under_index_terms prefix_appendI)

lemma keys_under_append_blocks: "prefix p key \<Longrightarrow> keys_under p (append_blocks enc key rows)"
  by (auto simp: keys_under_def append_blocks_def intro!: prefix_appendI)

lemma keys_under_all_blocks:
  assumes "keys_under p m"
  shows "keys_under p (concat (map (\<lambda>(key, xs). append_blocks enc key xs) m))"
  using assms by (induction m) (auto simp: keys_under_append_blocks)

lemma keys_under_cluster_entries: "keys_under p (cluster_entries X p pb c)"
  by (auto simp: keys_under_def cluster_entries_def vector_block_key_def)

lemma keys_under_concat: "(\<And>m. m \<in> set ms \<Longrightarrow> keys_under p m) \<Longrightarrow> keys_under p (concat ms)"
  by (induction ms) simp_all

text \<open>The pieces of a successful build, by name.\<close>

lemma build_Inr:
  assumes "build X gen name schema rv docs conf = Inr (status, entries)"
  obtains members es attrs postings_map corpora where
    "fold (index_document X (gen_root name gen) schema) docs
       (concat (map (cluster_entries X (gen_root name gen) (per_block schema)) (enumerate 0 members)), [], [], [])
     = (es, attrs, postings_map, corpora)"
    "members = fold (assign (centroids status))
       (zip (vectors_of docs) (map (\<lambda>(_, v). training_vector (metric schema) v) (vectors_of docs)))
       (replicate (min (clusters conf) (length (vectors_of docs))) [])"
    "centroids status = train (metric schema) (min (clusters conf) (length (vectors_of docs))) (iterations conf)
       (map (\<lambda>(_, v). training_vector (metric schema) v) (vectors_of docs))"
    "entries = es @ concat (map (\<lambda>(key, ids). append_blocks (enc_ids X) key ids) attrs)
       @ concat (map (\<lambda>(key, ps). append_blocks (enc_postings X) key ps) postings_map)"
    "generation status = gen" "idx_revision status = rv" "idx_documents status = length docs"
    "cluster_blocks status = map (\<lambda>rows. div_ceil (length rows) (per_block schema)) members"
    "idx_text status = corpora" "idx_vectors status = length (vectors_of docs)"
proof -
  let ?vs = "vectors_of docs" and ?p = "gen_root name gen"
  let ?tr = "map (\<lambda>(_, v). training_vector (metric schema) v) ?vs"
  let ?n = "min (clusters conf) (length ?vs)"
  let ?cs = "train (metric schema) ?n (iterations conf) ?tr"
  let ?ms = "fold (assign ?cs) (zip ?vs ?tr) (replicate ?n [])"
  obtain es attrs postings_map corpora where fold:
    "fold (index_document X ?p schema) docs
       (concat (map (cluster_entries X ?p (per_block schema)) (enumerate 0 ?ms)), [], [], [])
     = (es, attrs, postings_map, corpora)"
    by (cases "fold (index_document X ?p schema) docs
       (concat (map (cluster_entries X ?p (per_block schema)) (enumerate 0 ?ms)), [], [], [])") auto
  with assms show thesis
    by (intro that[OF fold]) (auto simp: build_def Let_def split: if_splits)
qed

lemma build_keys:
  assumes "build X gen name schema rv docs conf = Inr (status, entries)"
  shows "keys_under (gen_root name gen) entries"
  using assms
proof (rule build_Inr)
  fix members es attrs postings_map corpora
  let ?p = "gen_root name gen"
  let ?v = "concat (map (cluster_entries X ?p (per_block schema)) (enumerate 0 members))"
  assume f: "fold (index_document X ?p schema) docs (?v, [], [], []) = (es, attrs, postings_map, corpora)"
    and e: "entries = es @ concat (map (\<lambda>(key, ids). append_blocks (enc_ids X) key ids) attrs)
       @ concat (map (\<lambda>(key, ps). append_blocks (enc_postings X) key ps) postings_map)"
  have "keys_under ?p ?v" by (rule keys_under_concat) (auto simp: keys_under_cluster_entries)
  then have "build_keys_under ?p (?v, [], [], [])" by (simp add: build_keys_under_def)
  then have "build_keys_under ?p (fold (index_document X ?p schema) docs (?v, [], [], []))"
    by (rule fold_keeps[rotated]) (rule build_keys_index_document)
  with f have "build_keys_under ?p (es, attrs, postings_map, corpora)" by simp
  with e show "keys_under ?p entries" by (simp add: build_keys_under_def keys_under_all_blocks)
qed

end
