(* ===== verification/Engine.thy ===== *)
theory Engine
  imports Codec Configuration
begin

section \<open>Namespaces and documents (engine.rs)\<close>

text \<open>
  The operations that hold the commit mutex from their snapshot to durability:
  \<open>create_namespace\<close>, \<open>write\<close>, and the readers, which pin one durable snapshot. An
  operation is an action on the database handle; its early returns are error results and
  its only effect on the store is through \<open>commit\<close>. The mutex makes each operation one
  step, so its snapshot is the current store.
\<close>

subsection \<open>Reading one snapshot\<close>

definition check_ready :: "db \<Rightarrow> unit result" where
  "check_ready d =
     (if closed d then Inl Unavailable
      else (case bt_get (kv d) FORMAT_KEY of
          Some v \<Rightarrow> if v = FORMAT then Inr () else Inl Unavailable
        | None \<Rightarrow> Inl Unavailable))"

definition snapshot :: "store act" where
  "snapshot d = (rbind (check_ready d) (\<lambda>_. Inr (kv d)), d)"

definition parse_revision :: "bytes \<Rightarrow> u64 result" where
  "parse_revision b = (if length b = 8 then Inr (u64_from_le b) else Inl (Corrupt ''invalid revision''))"

definition namespace_at :: "ext \<Rightarrow> store \<Rightarrow> string \<Rightarrow> namespace result" where
  "namespace_at X s name =
     rbind (validate_id name) (\<lambda>_.
     rbind (ok_or (NotFound (''namespace '' @ [squote] @ name @ [squote] @ '' not found''))
        (bt_get s (namespace_key name))) (\<lambda>v.
     ok_or Encoding (dec_ns X v)))"

definition stats_at :: "ext \<Rightarrow> store \<Rightarrow> string \<Rightarrow> stats result" where
  "stats_at X s name =
     (case bt_get s (stats_key name) of
        None \<Rightarrow> Inr default_stats
      | Some v \<Rightarrow> ok_or Encoding (dec_stats X v))"

definition index_at :: "ext \<Rightarrow> store \<Rightarrow> string \<Rightarrow> index_status option result" where
  "index_at X s name =
     (case bt_get s (index_key name) of
        None \<Rightarrow> Inr None
      | Some v \<Rightarrow> rbind (ok_or Encoding (dec_index X v)) (\<lambda>i. Inr (Some i)))"

definition vector_at :: "ext \<Rightarrow> store \<Rightarrow> string \<Rightarrow> string \<Rightarrow> f32 list option result" where
  "vector_at X s name i =
     (case bt_get s (vector_key name i) of
        None \<Rightarrow> Inr None
      | Some v \<Rightarrow> rbind (decode_vector (crc32 X) v) (\<lambda>x. Inr (Some x)))"

definition attributes_at :: "ext \<Rightarrow> store \<Rightarrow> string \<Rightarrow> string \<Rightarrow> document option result" where
  "attributes_at X s name i =
     (case bt_get s (document_key name i) of
        None \<Rightarrow> Inr None
      | Some v \<Rightarrow> rbind (ok_or Encoding (dec_doc X v)) (\<lambda>d. Inr (Some d)))"

definition document_at :: "ext \<Rightarrow> store \<Rightarrow> string \<Rightarrow> string \<Rightarrow> document option result" where
  "document_at X s name i =
     rbind (attributes_at X s name i) (\<lambda>od. case od of
        None \<Rightarrow> Inr None
      | Some doc \<Rightarrow> rbind (vector_at X s name i) (\<lambda>v. Inr (Some (doc\<lparr>vector := v\<rparr>))))"

subsection \<open>Operations that read\<close>

definition get_namespace :: "ext \<Rightarrow> string \<Rightarrow> namespace act" where
  "get_namespace X name = act_bind snapshot (\<lambda>s. act_lift (namespace_at X s name))"

definition get_stats :: "ext \<Rightarrow> string \<Rightarrow> stats act" where
  "get_stats X name = act_bind snapshot (\<lambda>s.
     act_lift (rbind (namespace_at X s name) (\<lambda>_. stats_at X s name)))"

definition get_document :: "ext \<Rightarrow> string \<Rightarrow> string \<Rightarrow> document act" where
  "get_document X name i =
     act_bind (act_lift (validate_id i)) (\<lambda>_. act_bind snapshot (\<lambda>s. act_lift (
       rbind (namespace_at X s name) (\<lambda>_.
       rbind (document_at X s name i) (\<lambda>od.
       ok_or (NotFound (''document '' @ [squote] @ i @ [squote] @ '' not found'')) od)))))"

definition index_status_op :: "ext \<Rightarrow> string \<Rightarrow> index_status option act" where
  "index_status_op X name = act_bind snapshot (\<lambda>s.
     act_lift (rbind (namespace_at X s name) (\<lambda>_. index_at X s name)))"

text \<open>\<open>collect_page\<close>: rows are decoded until the page is full and one more row exists.\<close>

fun collect_page ::
  "(bytes \<Rightarrow> 'a option) \<Rightarrow> ('a \<Rightarrow> string) \<Rightarrow> nat \<Rightarrow> 'a list \<Rightarrow> (string \<times> bytes) list \<Rightarrow> 'a page result"
where
  "collect_page dec ident limit acc [] = Inr \<lparr>items = acc, next_cursor = None\<rparr>"
| "collect_page dec ident limit acc ((k, v) # rows) =
     (if length acc = limit
      then Inr \<lparr>items = acc,
                next_cursor = (if acc = [] then None else Some (ident (last acc)))\<rparr>
      else rbind (ok_or Encoding (dec v)) (\<lambda>x. collect_page dec ident limit (acc @ [x]) rows))"

definition page_rows :: "store \<Rightarrow> string \<Rightarrow> page_request \<Rightarrow> (string \<times> bytes) list" where
  "page_rows s p req = scan_after p (page_after req) s"

definition namespaces :: "ext \<Rightarrow> page_request \<Rightarrow> namespace page act" where
  "namespaces X req =
     act_bind (act_lift (validate_page req)) (\<lambda>_. act_bind snapshot (\<lambda>s.
       act_lift (collect_page (dec_ns X) ns_name (page_limit req) [] (page_rows s ''n/'' req))))"

definition add_vectors :: "ext \<Rightarrow> store \<Rightarrow> string \<Rightarrow> document page \<Rightarrow> document page result" where
  "add_vectors X s name p =
     rbind (collect_res (\<lambda>doc. rbind (vector_at X s name (doc_id doc))
         (\<lambda>v. Inr (doc\<lparr>vector := v\<rparr>))) (items p))
       (\<lambda>docs. Inr (p\<lparr>items := docs\<rparr>))"

definition list_documents :: "ext \<Rightarrow> string \<Rightarrow> page_request \<Rightarrow> document page act" where
  "list_documents X name req =
     act_bind (act_lift (validate_page req)) (\<lambda>_. act_bind snapshot (\<lambda>s. act_lift (
       rbind (namespace_at X s name) (\<lambda>_.
       rbind (collect_page (dec_doc X) doc_id (page_limit req) []
         (page_rows s (document_prefix name) req))
       (add_vectors X s name)))))"

subsection \<open>Creating a namespace\<close>

definition create_namespace :: "ext \<Rightarrow> string \<Rightarrow> ns_config \<Rightarrow> namespace act" where
  "create_namespace X name conf =
     act_bind (act_lift (validate_id name)) (\<lambda>_.
     act_bind (act_lift (validate_config conf)) (\<lambda>_.
     act_bind snapshot (\<lambda>s.
       case bt_get s (namespace_key name) of
         Some v \<Rightarrow> act_lift (rbind (ok_or Encoding (dec_ns X v)) (\<lambda>existing.
           if ns_conf existing \<noteq> conf
           then Inl (Conflict ''namespace configuration is immutable'')
           else Inr existing))
       | None \<Rightarrow>
           let ns = \<lparr>ns_name = name, ns_conf = conf\<rparr> in
           act_bind (commit [Put (namespace_key name) (enc_ns X ns)]) (\<lambda>_. act_ret ns))))"

subsection \<open>Writing a batch\<close>

text \<open>
  The first loop validates every ID and rejects a repeated one; the second builds the
  batch. Its state is the namespace counters, the batch so far and the input size; an item
  is an ID with the new document, or none for a delete. Old values are read from the
  snapshot, not from the batch.
\<close>

fun check_ids :: "string list \<Rightarrow> string list \<Rightarrow> unit result" where
  "check_ids seen [] = Inr ()"
| "check_ids seen (i # ids) =
     rbind (validate_id i) (\<lambda>_.
       if i \<in> set seen then Inl (Invalid ''a document ID may occur only once per batch'')
       else check_ids (i # seen) ids)"

definition write_items :: "write_request \<Rightarrow> (string \<times> document option) list" where
  "write_items req =
     map (\<lambda>d. (doc_id d, Some d)) (upsert req) @ map (\<lambda>i. (i, None)) (delete_ids req)"

definition blen :: "bytes \<Rightarrow> u64" where "blen b = of_nat (length b)"

definition drop_old :: "bytes option \<Rightarrow> bytes option \<Rightarrow> stats \<Rightarrow> stats" where
  "drop_old old old_vector st =
     (case old of
        None \<Rightarrow> st
      | Some o1 \<Rightarrow> st\<lparr>documents := documents st - 1,
                     stat_bytes := stat_bytes st - (blen o1 + weight blen old_vector)\<rparr>)"

type_synonym write_state = "stats \<times> batch \<times> nat"

definition write_item ::
  "ext \<Rightarrow> ns_config \<Rightarrow> string \<Rightarrow> store \<Rightarrow> string \<times> document option \<Rightarrow> write_state \<Rightarrow> write_state result"
where
  "write_item X conf name snap item w =
     (let (i, new) = item; (st, b, input) = w;
          key = document_key name i; vkey = vector_key name i; change = change_key name i;
          st1 = drop_old (bt_get snap key) (bt_get snap vkey) st
      in rbind
        (case new of
           Some doc \<Rightarrow>
             (let size = length (enc_doc X doc) in
              if MAX_DOCUMENT_BYTES < size
              then Inl (Invalid ''serialized document exceeds 256 KiB'')
              else if 64 < length (attributes doc)
              then Inl (Invalid ''at most 64 attributes per document'')
              else rbind
                (case vector doc of
                   Some v \<Rightarrow> rbind (validate_vector conf v) (\<lambda>_.
                     let encoded = encode_vector (crc32 X) v in
                     Inr (st1\<lparr>stat_bytes := stat_bytes st1 + blen encoded\<rparr>, b @ [Put vkey encoded]))
                 | None \<Rightarrow> Inr (st1, b @ [Del vkey]))
                (\<lambda>(st2, b2).
                  let encoded = enc_doc X (doc\<lparr>vector := None\<rparr>) in
                  Inr (st2\<lparr>stat_bytes := stat_bytes st2 + blen encoded, documents := documents st2 + 1\<rparr>,
                       b2 @ [Put key encoded], input + size)))
         | None \<Rightarrow> Inr (st1, b @ [Del key, Del vkey], input + length i))
        (\<lambda>(st3, b3, input3).
          let st4 = (if bt_get snap change = None
                     then st3\<lparr>pending_documents := pending_documents st3 + 1\<rparr> else st3)
          in Inr (st4, b3 @ [Put change (u64_to_le (revision st4))], input3)))"

definition checked_add_u64 :: "u64 \<Rightarrow> u64 \<Rightarrow> u64 option" where
  "checked_add_u64 a b = (if unat a + unat b < 2 ^ 64 then Some (a + b) else None)"

definition over_quota :: "limits_config \<Rightarrow> stats \<Rightarrow> bool" where
  "over_quota l st \<longleftrightarrow>
     max_documents l < documents st \<or> max_namespace_bytes l < stat_bytes st
     \<or> max_pending_documents l < pending_documents st"

text \<open>Everything between the snapshot and the commit: the counters and the batch to write.\<close>

definition prepare_write ::
  "ext \<Rightarrow> limits_config \<Rightarrow> string \<Rightarrow> write_request \<Rightarrow> store \<Rightarrow> (stats \<times> batch) result"
where
  "prepare_write X lim name req snap =
     rbind (namespace_at X snap name) (\<lambda>ns.
     rbind (stats_at X snap name) (\<lambda>st.
     rbind (ok_or (Limit ''revision exhausted'') (checked_add_u64 (revision st) 1)) (\<lambda>rev.
     rbind (fold_res (write_item X (ns_conf ns) name snap) (write_items req)
             (st\<lparr>revision := rev\<rparr>, [], 0)) (\<lambda>(st', b, input).
       if MAX_BODY_BYTES < input then Inl (Invalid ''batch exceeds 8 MiB'')
       else if over_quota lim st'
       then Inl (Limit ''namespace document, byte, or pending-index quota exceeded'')
       else Inr (st', b @ [Put (stats_key name) (enc_stats X st')])))))"

definition check_request :: "string \<Rightarrow> write_request \<Rightarrow> unit result" where
  "check_request name req =
     rbind (validate_id name) (\<lambda>_.
       let count = length (upsert req) + length (delete_ids req) in
       if \<not> (1 \<le> count \<and> count \<le> MAX_BATCH_OPERATIONS)
       then Inl (Invalid (''batch requires 1'' @ en_dash @ ''1000 operations''))
       else check_ids [] (map doc_id (upsert req) @ delete_ids req))"

definition engine_write :: "ext \<Rightarrow> limits_config \<Rightarrow> string \<Rightarrow> write_request \<Rightarrow> write_result act" where
  "engine_write X lim name req =
     act_bind (act_lift (check_request name req)) (\<lambda>_.
     act_bind snapshot (\<lambda>snap.
     act_bind (act_lift (prepare_write X lim name req snap)) (\<lambda>(st, b).
     act_bind (commit b) (\<lambda>sequence.
     act_ret \<lparr>upserted = length (upsert req), deleted = length (delete_ids req),
              res_sequence = sequence, res_revision = revision st\<rparr>))))"

subsection \<open>Deleting a namespace\<close>

text \<open>
  The intent (the namespace key removed, a marker put) is one batch; the tables are then
  erased in batches of 1000 keys, each table from a scan of its own, and the remaining
  single keys, the marker included, go last.
\<close>

definition erase_table :: "string \<Rightarrow> unit act" where
  "erase_table p d = commit_all (map (map Del) (chunks 1000 (map fst (scan_prefix p (kv d))))) d"

definition erase_namespace :: "string \<Rightarrow> unit act" where
  "erase_namespace name =
     act_bind (act_for erase_table
       [document_prefix name, vector_prefix name, change_prefix name, gen_prefix name])
     (\<lambda>_. act_bind (commit [Del (index_key name), Del (stats_key name),
                             Del (deletion_key name), Del (staging_key name)])
     (\<lambda>_. act_ret ()))"

definition delete_namespace :: "string \<Rightarrow> unit act" where
  "delete_namespace name =
     act_bind (act_lift (validate_id name)) (\<lambda>_.
     act_bind snapshot (\<lambda>_.
     act_bind (commit [Del (namespace_key name), Put (deletion_key name) ''delete'']) (\<lambda>_.
     erase_namespace name)))"

text \<open>Opening resumes every deletion whose marker is present, before serving requests.\<close>

fun resume_deletions :: "(string \<times> bytes) list \<Rightarrow> unit act" where
  "resume_deletions [] = act_ret ()"
| "resume_deletions ((k, _) # rows) =
     (if \<not> valid_utf8 (drop 2 k) then act_fail (Corrupt ''invalid deletion marker'')
      else act_bind (erase_namespace (drop 2 k)) (\<lambda>_. resume_deletions rows))"

definition resume_all_deletions :: "unit act" where
  "resume_all_deletions d = resume_deletions (scan_prefix ''z/'' (kv d)) d"

end
