(* ===== verification/Writes.thy ===== *)
theory Writes
  imports Engine
begin

section \<open>The write path: what a batch contains and what it changes\<close>

text \<open>
  A successful \<open>engine_write\<close> commits one batch, and that batch is determined by the request:
  three operations per item and the new counters. From this follow the abstract effect on
  the documents of the namespace (a refinement of a map update), the counters, the change
  records, isolation between namespaces, and all-or-nothing behaviour on every error.
\<close>

lemma snapshot_Inr: "snapshot d = (Inr s, d') \<longleftrightarrow> check_ready d = Inr () \<and> s = kv d \<and> d' = d"
  by (cases "check_ready d") (auto simp: snapshot_def)

lemma snapshot_state: "snd (snapshot d) = d"
  by (simp add: snapshot_def)

lemma parse_revision_to_le [simp]: "parse_revision (u64_to_le r) = Inr r"
  by (simp add: parse_revision_def)

subsection \<open>The operations of one item\<close>

definition item_ops :: "ext \<Rightarrow> string \<Rightarrow> u64 \<Rightarrow> string \<times> document option \<Rightarrow> batch" where
  "item_ops X name rv item =
     (case item of
        (i, Some doc) \<Rightarrow>
          [case vector doc of
             Some v \<Rightarrow> Put (vector_key name i) (encode_vector (crc32 X) v)
           | None \<Rightarrow> Del (vector_key name i),
           Put (document_key name i) (enc_doc X (doc\<lparr>vector := None\<rparr>)),
           Put (change_key name i) (u64_to_le rv)]
      | (i, None) \<Rightarrow>
          [Del (document_key name i), Del (vector_key name i),
           Put (change_key name i) (u64_to_le rv)])"

definition item_keys :: "string \<Rightarrow> string \<Rightarrow> string set" where
  "item_keys name i = {document_key name i, vector_key name i, change_key name i}"

lemma op_keys_item_ops: "op_key ` set (item_ops X name rv (i, new)) = item_keys name i"
  by (cases new) (auto simp: item_ops_def item_keys_def split: option.splits)

lemma revision_drop_old [simp]: "revision (drop_old a b st) = revision st"
  by (simp add: drop_old_def split: option.splits)

lemma write_item_Inr:
  assumes "write_item X conf name snap (i, new) (st, b, inp) = Inr (st', b', inp')"
  shows "b' = b @ item_ops X name (revision st) (i, new) \<and> revision st' = revision st
    \<and> (\<forall>doc v. new = Some doc \<longrightarrow> vector doc = Some v \<longrightarrow> valid_vector conf v)"
proof (cases new)
  case None
  with assms show ?thesis
    by (auto simp: write_item_def item_ops_def Let_def split: if_splits)
next
  case (Some doc)
  with assms show ?thesis
    by (cases "vector doc") (auto simp: write_item_def item_ops_def Let_def split: if_splits)
qed

lemma fold_write_items:
  assumes "fold_res (write_item X conf name snap) xs (st, b, inp) = Inr (st', b', inp')"
  shows "b' = b @ concat (map (item_ops X name (revision st)) xs) \<and> revision st' = revision st
    \<and> (\<forall>i doc v. (i, Some doc) \<in> set xs \<longrightarrow> vector doc = Some v \<longrightarrow> valid_vector conf v)"
  using assms
proof (induction xs arbitrary: st b inp)
  case Nil
  then show ?case by simp
next
  case (Cons x xs)
  obtain i new where x: "x = (i, new)" by force
  from Cons.prems obtain st1 b1 inp1 where
    1: "write_item X conf name snap (i, new) (st, b, inp) = Inr (st1, b1, inp1)" and
    2: "fold_res (write_item X conf name snap) xs (st1, b1, inp1) = Inr (st', b', inp')"
    by (auto simp: x)
  from write_item_Inr[OF 1] Cons.IH[OF 2] show ?case by (auto simp: x)
qed

lemma check_ids_Inr:
  "check_ids seen ids = Inr u \<longleftrightarrow> list_all valid_id ids \<and> distinct ids \<and> set ids \<inter> set seen = {}"
  by (induction seen ids rule: check_ids.induct) auto

lemma write_items_ids: "map fst (write_items req) = map doc_id (upsert req) @ delete_ids req"
  by (simp add: write_items_def comp_def)

definition request_ok :: "string \<Rightarrow> write_request \<Rightarrow> bool" where
  "request_ok name req \<longleftrightarrow>
     valid_id name \<and> distinct (map fst (write_items req))
     \<and> (\<forall>i \<in> set (map fst (write_items req)). valid_id i)
     \<and> 1 \<le> length (write_items req) \<and> length (write_items req) \<le> 1000"

lemma check_request_Inr [simp]: "check_request name req = Inr u \<longleftrightarrow> request_ok name req"
  by (auto simp: check_request_def request_ok_def check_ids_Inr write_items_ids list_all_iff
      MAX_BATCH_OPERATIONS_def Let_def) (auto simp: write_items_def)

subsection \<open>A successful write\<close>

definition write_ops :: "ext \<Rightarrow> string \<Rightarrow> u64 \<Rightarrow> write_request \<Rightarrow> batch" where
  "write_ops X name rv req = concat (map (item_ops X name rv) (write_items req))"

lemma prepare_write_Inr:
  assumes "prepare_write X lim name req s = Inr (st', b)"
  obtains ns st inp where "namespace_at X s name = Inr ns" "stats_at X s name = Inr st"
    "checked_add_u64 (revision st) 1 = Some (revision st')"
    "fold_res (write_item X (ns_conf ns) name s) (write_items req) (st\<lparr>revision := revision st'\<rparr>, [], 0)
       = Inr (st', write_ops X name (revision st') req, inp)"
    "b = write_ops X name (revision st') req @ [Put (stats_key name) (enc_stats X st')]"
    "\<not> over_quota lim st'"
proof -
  from assms obtain ns st rv b0 inp where
    1: "namespace_at X s name = Inr ns" "stats_at X s name = Inr st"
    "checked_add_u64 (revision st) 1 = Some rv" and
    2: "fold_res (write_item X (ns_conf ns) name s) (write_items req) (st\<lparr>revision := rv\<rparr>, [], 0)
       = Inr (st', b0, inp)" and
    3: "b = b0 @ [Put (stats_key name) (enc_stats X st')]" "\<not> over_quota lim st'"
    by (auto simp: prepare_write_def split: if_splits)
  from fold_write_items[OF 2] have "b0 = write_ops X name rv req" "revision st' = rv"
    by (simp_all add: write_ops_def)
  with 1 2 3 show thesis by (intro that[of ns st inp]) simp_all
qed

lemma engine_write_Inr:
  assumes "engine_write X lim name req d = (Inr r, d')"
  obtains st' b where "request_ok name req" "check_ready d = Inr ()"
    "prepare_write X lim name req (kv d) = Inr (st', b)"
    "kv d' = apply_batch b (kv d)" "res_revision r = revision st'"
    "res_sequence r = seqno d + 1" "seqno d' = seqno d + 1" "\<not> closed d'"
proof -
  from assms show thesis
    by (auto simp: engine_write_def act_bind_Inr_iff snapshot_Inr dest!: commit_Inr intro!: that)
qed

lemma engine_write_Inl:
  assumes "engine_write X lim name req d = (Inl e, d')"
  shows "kv d' = kv d \<or> (e = Storage \<and>
    (\<exists>st' b. prepare_write X lim name req (kv d) = Inr (st', b) \<and> kv d' = apply_batch b (kv d)))"
  using assms
  by (auto simp: engine_write_def act_bind_def snapshot_def split: prod.splits sum.splits
      dest: commit_kv commit_Inl)

subsection \<open>Lookups after a batch\<close>

lemma get_write_ops_other:
  assumes "bt_ok s" and "\<forall>i \<in> fst ` set xs. k \<notin> item_keys name i"
  shows "bt_get (apply_batch (concat (map (item_ops X name rv) xs)) s) k = bt_get s k"
proof (rule get_apply_batch_other[OF assms(1)])
  show "k \<notin> op_key ` set (concat (map (item_ops X name rv) xs))"
    using assms(2) op_keys_item_ops[of X name rv]
    by (auto simp: image_iff) (metis fst_conv image_eqI surj_pair)
qed

text \<open>An item fixes the value of each of its three keys, whatever was there before.\<close>

definition item_value :: "ext \<Rightarrow> string \<Rightarrow> u64 \<Rightarrow> string \<times> document option \<Rightarrow> string \<Rightarrow> bytes option" where
  "item_value X name rv item k =
     (if k = change_key name (fst item) then Some (u64_to_le rv)
      else case snd item of
          None \<Rightarrow> None
        | Some doc \<Rightarrow>
            if k = document_key name (fst item) then Some (enc_doc X (doc\<lparr>vector := None\<rparr>))
            else map_option (encode_vector (crc32 X)) (vector doc))"

lemma get_item_ops:
  assumes "bt_ok s" "valid_id name" "k \<in> item_keys name i"
  shows "bt_get (apply_batch (item_ops X name rv (i, new)) s) k = item_value X name rv (i, new) k"
proof (cases new)
  case None
  with assms show ?thesis by (auto simp: item_ops_def item_value_def item_keys_def)
next
  case (Some doc)
  with assms show ?thesis
    by (cases "vector doc") (auto simp: item_ops_def item_value_def item_keys_def)
qed

lemma get_write_ops:
  assumes "bt_ok s" "valid_id name" "distinct (map fst xs)" "(i, new) \<in> set xs" "k \<in> item_keys name i"
  shows "bt_get (apply_batch (concat (map (item_ops X name rv) xs)) s) k = item_value X name rv (i, new) k"
  using assms(1,3,4)
proof (induction xs arbitrary: s)
  case Nil
  then show ?case by simp
next
  case (Cons x xs)
  show ?case
  proof (cases "x = (i, new)")
    case True
    with Cons.prems(2) have "\<forall>j \<in> fst ` set xs. j \<noteq> i" by auto
    with assms(2,5) have "\<forall>j \<in> fst ` set xs. k \<notin> item_keys name j"
      by (auto simp: item_keys_def)
    with Cons.prems(1) True assms show ?thesis by (simp add: get_write_ops_other get_item_ops)
  next
    case False
    with Cons show ?thesis by simp
  qed
qed

end
