(* ===== verification/Counters.thy ===== *)
theory Counters
  imports Writes
begin

section \<open>Namespace counters, change records and the life cycle invariant\<close>

text \<open>
  The counters stored under \<open>s/<name>\<close> are, in u64 arithmetic, the number of documents, the
  bytes of the document and vector tables, and the number of change records. \<open>live_inv\<close> is
  what holds of a namespace that exists; \<open>lifecycle_inv\<close> says that a namespace is live,
  being deleted (its marker is present), or has left no key behind.
\<close>

definition doc_count :: "string \<Rightarrow> store \<Rightarrow> u64" where
  "doc_count n s = tally (\<lambda>_. 1) (document_prefix n) s"
definition byte_count :: "string \<Rightarrow> store \<Rightarrow> u64" where
  "byte_count n s = tally blen (document_prefix n) s + tally blen (vector_prefix n) s"
definition pending_count :: "string \<Rightarrow> store \<Rightarrow> u64" where
  "pending_count n s = tally (\<lambda>_. 1) (change_prefix n) s"

lemmas count_defs = doc_count_def byte_count_def pending_count_def

definition counters_ok :: "string \<Rightarrow> store \<Rightarrow> stats \<Rightarrow> bool" where
  "counters_ok n s st \<longleftrightarrow>
     documents st = doc_count n s \<and> stat_bytes st = byte_count n s
     \<and> pending_documents st = pending_count n s"

definition vectors_have_docs :: "string \<Rightarrow> store \<Rightarrow> bool" where
  "vectors_have_docs n s \<longleftrightarrow>
     (\<forall>i. bt_get s (vector_key n i) \<noteq> None \<longrightarrow> bt_get s (document_key n i) \<noteq> None)"

definition changes_ok :: "string \<Rightarrow> store \<Rightarrow> u64 \<Rightarrow> bool" where
  "changes_ok n s r \<longleftrightarrow>
     (\<forall>i v. bt_get s (change_key n i) = Some v \<longrightarrow> (\<exists>q. parse_revision v = Inr q \<and> q \<le> r))"

subsection \<open>Each item keeps the counters in step with the batch\<close>

lemma tally_item_ops:
  assumes "bt_ok s" "valid_id n"
  shows "tally f (document_prefix n) (apply_batch (item_ops X n rv (i, new)) s) =
      tally f (document_prefix n) s - weight f (bt_get s (document_key n i))
      + weight f (item_value X n rv (i, new) (document_key n i))"
    and "tally f (vector_prefix n) (apply_batch (item_ops X n rv (i, new)) s) =
      tally f (vector_prefix n) s - weight f (bt_get s (vector_key n i))
      + weight f (item_value X n rv (i, new) (vector_key n i))"
    and "tally f (change_prefix n) (apply_batch (item_ops X n rv (i, new)) s) =
      tally f (change_prefix n) s - weight f (bt_get s (change_key n i)) + f (u64_to_le rv)"
  using assms
  by (cases new; auto simp: item_ops_def item_value_def tally_put tally_del split: option.splits)+

lemma write_item_counters:
  assumes "write_item X conf n snap (i, new) (st, b, inp) = Inr (st', b', inp')"
    and s: "bt_ok s" "valid_id n" and "counters_ok n s st"
    and same: "\<forall>k \<in> item_keys n i. bt_get s k = bt_get snap k"
    and vecs: "bt_get snap (vector_key n i) \<noteq> None \<Longrightarrow> bt_get snap (document_key n i) \<noteq> None"
  shows "counters_ok n (apply_batch (item_ops X n (revision st) (i, new)) s) st'"
proof -
  have same': "bt_get s (document_key n i) = bt_get snap (document_key n i)"
    "bt_get s (vector_key n i) = bt_get snap (vector_key n i)"
    "bt_get s (change_key n i) = bt_get snap (change_key n i)"
    using same by (simp_all add: item_keys_def)
  have no_vec: "bt_get snap (document_key n i) = None \<Longrightarrow> bt_get snap (vector_key n i) = None"
    using vecs by blast
  show ?thesis
  proof (cases new)
    case None
    with assms(1,4) show ?thesis
      by (cases "bt_get snap (document_key n i)"; cases "bt_get snap (change_key n i)")
        (auto simp: write_item_def Let_def counters_ok_def count_defs tally_item_ops[OF s] same'
          item_value_def drop_old_def no_vec)
  next
    case (Some doc)
    with assms(1,4) show ?thesis
      by (cases "bt_get snap (document_key n i)"; cases "bt_get snap (change_key n i)"; cases "vector doc")
        (auto simp: write_item_def Let_def counters_ok_def count_defs tally_item_ops[OF s] same'
          item_value_def drop_old_def no_vec split: if_splits)
  qed
qed

lemma fold_write_items_counters:
  assumes "fold_res (write_item X conf n snap) xs (st, b, inp) = Inr (st', b', inp')"
    and "bt_ok s" "valid_id n" "counters_ok n s st" "vectors_have_docs n snap"
    and "distinct (map fst xs)" "\<forall>i \<in> fst ` set xs. \<forall>k \<in> item_keys n i. bt_get s k = bt_get snap k"
  shows "counters_ok n (apply_batch (concat (map (item_ops X n (revision st)) xs)) s) st'"
  using assms
proof (induction xs arbitrary: st b inp s)
  case Nil
  then show ?case by simp
next
  case (Cons x xs)
  obtain i new where x: "x = (i, new)" by force
  from Cons.prems(1) obtain st1 b1 inp1 where
    1: "write_item X conf n snap (i, new) (st, b, inp) = Inr (st1, b1, inp1)" and
    2: "fold_res (write_item X conf n snap) xs (st1, b1, inp1) = Inr (st', b', inp')"
    by (auto simp: x)
  let ?s = "apply_batch (item_ops X n (revision st) (i, new)) s"
  have "counters_ok n ?s st1"
    using Cons.prems x by (intro write_item_counters[OF 1]) (auto simp: vectors_have_docs_def)
  moreover have "\<forall>j \<in> fst ` set xs. \<forall>k \<in> item_keys n j. bt_get ?s k = bt_get snap k"
  proof (intro ballI)
    fix j k
    assume j: "j \<in> fst ` set xs" "k \<in> item_keys n j"
    with Cons.prems(6) x have "j \<noteq> i" by auto
    with j Cons.prems(3) have "k \<notin> item_keys n i" by (auto simp: item_keys_def)
    with Cons.prems(2) have "bt_get ?s k = bt_get s k"
      by (intro get_apply_batch_other) (simp_all add: op_keys_item_ops)
    with Cons.prems(7) j x show "bt_get ?s k = bt_get snap k" by auto
  qed
  ultimately have "counters_ok n (apply_batch (concat (map (item_ops X n (revision st1)) xs)) ?s) st'"
    using Cons.prems by (intro Cons.IH[OF 2]) simp_all
  with write_item_Inr[OF 1] x show ?case by simp
qed

subsection \<open>Change records and vectors\<close>

lemma item_value_change [simp]:
  "item_value X n rv (i, new) (change_key n i) = Some (u64_to_le rv)"
  by (simp add: item_value_def)

lemma write_ops_get:
  assumes "bt_ok s" "request_ok n req"
  shows "bt_get (apply_batch (write_ops X n rv req) s) (document_key n i) =
      (case map_of (write_items req) i of
         None \<Rightarrow> bt_get s (document_key n i)
       | Some new \<Rightarrow> item_value X n rv (i, new) (document_key n i))" (is ?D)
    and "bt_get (apply_batch (write_ops X n rv req) s) (vector_key n i) =
      (case map_of (write_items req) i of
         None \<Rightarrow> bt_get s (vector_key n i)
       | Some new \<Rightarrow> item_value X n rv (i, new) (vector_key n i))" (is ?V)
    and "bt_get (apply_batch (write_ops X n rv req) s) (change_key n i) =
      (case map_of (write_items req) i of
         None \<Rightarrow> bt_get s (change_key n i)
       | Some new \<Rightarrow> Some (u64_to_le rv))" (is ?C)
proof -
  from assms(2) have n: "valid_id n" and dist: "distinct (map fst (write_items req))"
    by (simp_all add: request_ok_def)
  have "?D \<and> ?V \<and> ?C"
  proof (cases "map_of (write_items req) i")
    case None
    then have i: "i \<notin> fst ` set (write_items req)" by (simp add: map_of_eq_None_iff)
    have "bt_get (apply_batch (write_ops X n rv req) s) k = bt_get s k" if k: "k \<in> item_keys n i" for k
      unfolding write_ops_def
    proof (rule get_write_ops_other[OF assms(1)], rule ballI)
      fix j
      assume "j \<in> fst ` set (write_items req)"
      with i have "j \<noteq> i" by blast
      with n k show "k \<notin> item_keys n j" by (auto simp: item_keys_def)
    qed
    with None show ?thesis by (simp add: item_keys_def)
  next
    case (Some new)
    then have "(i, new) \<in> set (write_items req)" by (rule map_of_SomeD)
    with assms(1) n dist have "bt_get (apply_batch (write_ops X n rv req) s) k = item_value X n rv (i, new) k"
      if "k \<in> item_keys n i" for k
      using that unfolding write_ops_def by (intro get_write_ops)
    with Some show ?thesis by (simp add: item_keys_def)
  qed
  then show ?D ?V ?C by simp_all
qed

lemma vectors_have_docs_write:
  assumes "bt_ok s" "request_ok n req" "vectors_have_docs n s"
  shows "vectors_have_docs n (apply_batch (write_ops X n rv req) s)"
  using assms
  by (auto simp: vectors_have_docs_def write_ops_get item_value_def request_ok_def split: option.splits)

lemma changes_ok_write:
  assumes "bt_ok s" "request_ok n req" "changes_ok n s r" "r \<le> rv"
  shows "changes_ok n (apply_batch (write_ops X n rv req) s) rv"
  unfolding changes_ok_def
proof (intro allI impI)
  fix i v
  assume "bt_get (apply_batch (write_ops X n rv req) s) (change_key n i) = Some v"
  then have v: "(case map_of (write_items req) i of None \<Rightarrow> bt_get s (change_key n i)
      | Some new \<Rightarrow> Some (u64_to_le rv)) = Some v"
    by (simp only: write_ops_get(3)[OF assms(1,2)])
  show "\<exists>q. parse_revision v = Inr q \<and> q \<le> rv"
  proof (cases "map_of (write_items req) i")
    case None
    with v assms(3) obtain q where q: "parse_revision v = Inr q" "q \<le> r"
      unfolding changes_ok_def by fastforce
    from q(2) assms(4) have "q \<le> rv" by (rule order.trans)
    with q(1) show ?thesis by blast
  next
    case (Some new)
    with v have "v = u64_to_le rv" by simp
    then show ?thesis by simp
  qed
qed

lemma write_ops_keys:
  assumes "x \<in> set (write_ops X n rv req)"
  shows "\<exists>i. op_key x \<in> item_keys n i"
proof -
  from assms obtain item where "item \<in> set (write_items req)" "x \<in> set (item_ops X n rv item)"
    by (auto simp: write_ops_def)
  then have "op_key x \<in> op_key ` set (item_ops X n rv (fst item, snd item))" by simp
  then show ?thesis by (auto simp only: op_keys_item_ops)
qed

subsection \<open>The invariant of a live namespace\<close>

definition live_inv :: "ext \<Rightarrow> string \<Rightarrow> store \<Rightarrow> bool" where
  "live_inv X n s \<longleftrightarrow>
     (\<exists>ns. namespace_at X s n = Inr ns \<and> ns_name ns = n \<and> valid_config (ns_conf ns))
     \<and> (\<exists>st. stats_at X s n = Inr st \<and> counters_ok n s st \<and> changes_ok n s (revision st))
     \<and> vectors_have_docs n s"

text \<open>The keys of \<open>n\<close> decide its invariant.\<close>

lemma owned_prefix:
  "prefix (document_prefix n) k \<Longrightarrow> owned_by n k" "prefix (vector_prefix n) k \<Longrightarrow> owned_by n k"
  "prefix (change_prefix n) k \<Longrightarrow> owned_by n k" "prefix (gen_prefix n) k \<Longrightarrow> owned_by n k"
  by (simp_all add: owned_by_def)

definition agree_on :: "string \<Rightarrow> store \<Rightarrow> store \<Rightarrow> bool" where
  "agree_on n s t \<longleftrightarrow> (\<forall>k. owned_by n k \<longrightarrow> bt_get s k = bt_get t k)"

lemma agree_on_scan:
  assumes "agree_on n s t" "bt_ok s" "bt_ok t"
  shows "scan_prefix (document_prefix n) s = scan_prefix (document_prefix n) t"
    "scan_prefix (vector_prefix n) s = scan_prefix (vector_prefix n) t"
    "scan_prefix (change_prefix n) s = scan_prefix (change_prefix n) t"
    "scan_prefix (gen_prefix n) s = scan_prefix (gen_prefix n) t"
  using assms by (auto simp: agree_on_def intro!: scan_prefix_cong dest: owned_prefix)

lemma agree_on_get:
  assumes "agree_on n s t"
  shows "bt_get s (document_key n i) = bt_get t (document_key n i)"
    "bt_get s (vector_key n i) = bt_get t (vector_key n i)"
    "bt_get s (change_key n i) = bt_get t (change_key n i)"
    "bt_get s (namespace_key n) = bt_get t (namespace_key n)"
    "bt_get s (stats_key n) = bt_get t (stats_key n)"
    "bt_get s (index_key n) = bt_get t (index_key n)"
    "bt_get s (staging_key n) = bt_get t (staging_key n)"
    "bt_get s (deletion_key n) = bt_get t (deletion_key n)"
  using assms by (simp_all add: agree_on_def)

lemma agree_on_at:
  assumes "agree_on n s t"
  shows "namespace_at X s n = namespace_at X t n" "stats_at X s n = stats_at X t n"
    "document_at X s n i = document_at X t n i"
proof -
  note get = agree_on_get[OF assms]
  show "namespace_at X s n = namespace_at X t n" "stats_at X s n = stats_at X t n"
    by (simp_all add: namespace_at_def stats_at_def get)
  have "attributes_at X s n i = attributes_at X t n i" "vector_at X s n i = vector_at X t n i"
    by (simp_all add: attributes_at_def vector_at_def get)
  then show "document_at X s n i = document_at X t n i"
    unfolding document_at_def by (simp only:)
qed

lemma live_inv_agree:
  assumes "agree_on n s t" "bt_ok s" "bt_ok t" "live_inv X n s"
  shows "live_inv X n t"
  using assms(4) agree_on_at[OF assms(1)] agree_on_get[OF assms(1)] agree_on_scan[OF assms(1-3)]
  by (simp add: live_inv_def counters_ok_def count_defs tally_def vectors_have_docs_def changes_ok_def)

lemma agree_on_batch:
  assumes "bt_ok s" "valid_id n" "valid_id m" "n \<noteq> m" "\<forall>x \<in> set b. owned_by n (op_key x)"
  shows "agree_on m s (apply_batch b s)"
  unfolding agree_on_def
proof (intro allI impI)
  fix k
  assume "owned_by m k"
  with assms have "k \<notin> op_key ` set b" using owned_by_disjoint by blast
  with assms(1) show "bt_get s k = bt_get (apply_batch b s) k" by (simp add: get_apply_batch_other)
qed

definition write_commit :: "ext \<Rightarrow> string \<Rightarrow> stats \<Rightarrow> write_request \<Rightarrow> batch" where
  "write_commit X n st req = write_ops X n (revision st) req @ [Put (stats_key n) (enc_stats X st)]"

lemma write_commit_owned: "\<forall>x \<in> set (write_commit X n st req). owned_by n (op_key x)"
  using write_ops_keys by (fastforce simp: write_commit_def item_keys_def)

lemma write_commit_get:
  assumes "bt_ok s" "request_ok n req"
  shows "bt_get (apply_batch (write_commit X n st req) s) k =
    (if k = stats_key n then Some (enc_stats X st)
     else bt_get (apply_batch (write_ops X n (revision st) req) s) k)"
  using assms by (simp add: write_commit_def)

lemma checked_add_one: "checked_add_u64 r 1 = Some q \<Longrightarrow> q = r + 1 \<and> r < q \<and> unat q = unat r + 1"
  by (auto simp: checked_add_u64_def word_less_nat_alt unat_word_ariths split: if_splits)

lemma live_inv_write:
  assumes "live_inv X n s" "bt_ok s" "request_ok n req" "json_codec X"
    and prep: "prepare_write X lim n req s = Inr (st', b)"
  shows "b = write_commit X n st' req \<and> live_inv X n (apply_batch b s)
    \<and> counters_ok n (apply_batch b s) st'"
proof -
  from assms(1) obtain ns st where live: "namespace_at X s n = Inr ns" "ns_name ns = n"
    "valid_config (ns_conf ns)" "stats_at X s n = Inr st" "counters_ok n s st"
    "changes_ok n s (revision st)" "vectors_have_docs n s"
    by (auto simp: live_inv_def)
  from prep obtain inp where rv: "checked_add_u64 (revision st) 1 = Some (revision st')"
    and fold: "fold_res (write_item X (ns_conf ns) n s) (write_items req) (st\<lparr>revision := revision st'\<rparr>, [], 0)
       = Inr (st', write_ops X n (revision st') req, inp)"
    and b: "b = write_commit X n st' req"
    using live by (elim prepare_write_Inr) (auto simp: write_commit_def)
  let ?s = "apply_batch (write_ops X n (revision st') req) s"
  have n: "valid_id n" "distinct (map fst (write_items req))"
    using assms(3) by (simp_all add: request_ok_def)
  have ctr: "counters_ok n ?s st'"
    using fold_write_items_counters[OF fold assms(2) n(1) _ live(7) n(2)] live(5)
    by (simp add: counters_ok_def write_ops_def)
  moreover have vd: "vectors_have_docs n ?s"
    using assms(2,3) live(7) by (rule vectors_have_docs_write)
  moreover have "changes_ok n ?s (revision st')"
    using checked_add_one[OF rv] by (intro changes_ok_write[OF assms(2,3) live(6)] less_imp_le) blast
  moreover have "bt_get (apply_batch b s) (namespace_key n) = bt_get s (namespace_key n)"
  proof -
    have "bt_get ?s (namespace_key n) = bt_get s (namespace_key n)"
      using assms(2) write_ops_keys[of _ X n "revision st'" req]
      by (intro get_apply_batch_other) (fastforce simp: item_keys_def)+
    then show ?thesis using assms(2,3) by (simp add: b write_commit_get)
  qed
  moreover have "tally f p (apply_batch b s) = tally f p ?s"
    if "\<not> prefix p (stats_key n)" for f p
    using that assms(2) by (simp add: b write_commit_def tally_put)
  ultimately show ?thesis
    using b live(1-3) assms(2-4)
    by (auto simp: live_inv_def namespace_at_def stats_at_def write_commit_get counters_ok_def
        count_defs changes_ok_def vectors_have_docs_def)
qed

end
