(* ===== verification/Sample.thy ===== *)
theory Sample
  imports Codec
begin

section \<open>One concrete instance of the library functions\<close>

text \<open>
  The theorems about stored records hold for every \<open>ext\<close> that satisfies \<open>json_codec\<close>. This
  theory gives one: length-prefixed encodings built from the codecs of \<open>Wire\<close>, a byte sum
  for the checksum and plain hexadecimal for the digest. The closed examples beside the
  properties are evaluated on it.
\<close>

subsection \<open>Numbers, strings, lists and pairs\<close>

fun unary :: "nat \<Rightarrow> bytes" where
  "unary 0 = ''0''"
| "unary (Suc n) = CHR ''1'' # unary n"

fun read_unary :: "bytes \<Rightarrow> unit + (nat \<times> bytes)" where
  "read_unary [] = Inl ()"
| "read_unary (c # cs) =
     (if c = CHR ''1'' then rbind (read_unary cs) (\<lambda>(n, r). Inr (Suc n, r)) else Inr (0, cs))"

interpretation unary: wire_codec unary read_unary "\<lambda>_. True"
proof unfold_locales
  fix n rest
  show "read_unary (unary n @ rest) = Inr (n, rest)" by (induction n) auto
qed

definition enc_str :: "string \<Rightarrow> bytes" where "enc_str s = unary (length s) @ s"
definition read_str :: "bytes \<Rightarrow> unit + (string \<times> bytes)" where
  "read_str bs = rbind (read_unary bs) (\<lambda>(n, r). take_exact () n r)"

interpretation str: wire_codec enc_str read_str "\<lambda>_. True"
  by unfold_locales (simp add: enc_str_def read_str_def unary.dec_enc)

definition enc_list :: "('a \<Rightarrow> bytes) \<Rightarrow> 'a list \<Rightarrow> bytes" where
  "enc_list e xs = unary (length xs) @ concat (map e xs)"
definition read_list :: "(bytes \<Rightarrow> unit + ('a \<times> bytes)) \<Rightarrow> bytes \<Rightarrow> unit + ('a list \<times> bytes)" where
  "read_list d bs = rbind (read_unary bs) (\<lambda>(n, r). parse_n d n r)"

definition enc_pair :: "('a \<Rightarrow> bytes) \<Rightarrow> ('b \<Rightarrow> bytes) \<Rightarrow> 'a \<times> 'b \<Rightarrow> bytes" where
  "enc_pair f g p = f (fst p) @ g (snd p)"
definition read_pair ::
  "(bytes \<Rightarrow> unit + ('a \<times> bytes)) \<Rightarrow> (bytes \<Rightarrow> unit + ('b \<times> bytes)) \<Rightarrow> bytes \<Rightarrow> unit + (('a \<times> 'b) \<times> bytes)"
where
  "read_pair d1 d2 bs = rbind (d1 bs) (\<lambda>(a, r). rbind (d2 r) (\<lambda>(b, r'). Inr ((a, b), r')))"

lemma read_list_enc [simp]:
  "(\<And>a r. a \<in> set as \<Longrightarrow> d (e a @ r) = Inr (a, r)) \<Longrightarrow> read_list d (enc_list e as @ rest) = Inr (as, rest)"
proof -
  assume law: "\<And>a r. a \<in> set as \<Longrightarrow> d (e a @ r) = Inr (a, r)"
  then have "wire_codec e d (\<lambda>a. a \<in> set as)" by unfold_locales
  from wire_codec.parse_n_concat[OF this, of as rest] show ?thesis
    by (simp add: read_list_def enc_list_def unary.dec_enc)
qed

lemma read_pair_enc [simp]:
  "d1 (e1 (fst p) @ e2 (snd p) @ rest) = Inr (fst p, e2 (snd p) @ rest) \<Longrightarrow>
    d2 (e2 (snd p) @ rest) = Inr (snd p, rest) \<Longrightarrow>
    read_pair d1 d2 (enc_pair e1 e2 p @ rest) = Inr (p, rest)"
  by (simp add: read_pair_def enc_pair_def)

definition whole_opt :: "(bytes \<Rightarrow> unit + ('a \<times> bytes)) \<Rightarrow> bytes \<Rightarrow> 'a option" where
  "whole_opt d bs = (case d bs of Inr (a, []) \<Rightarrow> Some a | _ \<Rightarrow> None)"

definition mapped :: "('a \<Rightarrow> 'b) \<Rightarrow> (bytes \<Rightarrow> unit + ('a \<times> bytes)) \<Rightarrow> bytes \<Rightarrow> unit + ('b \<times> bytes)" where
  "mapped f d bs = rbind (d bs) (\<lambda>(a, r). Inr (f a, r))"

lemma whole_optI: "(\<And>rest. d (e @ rest) = Inr (a, rest)) \<Longrightarrow> whole_opt d e = Some a"
  using append_Nil2[of e] by (metis (mono_tags, lifting) whole_opt_def list.simps(4) old.prod.case old.sum.simps(6))

lemma mapped_enc: "d (e @ rest) = Inr (a, rest) \<Longrightarrow> mapped f d (e @ rest) = Inr (f a, rest)"
  by (simp add: mapped_def)

subsection \<open>The records\<close>

abbreviation r64 :: "bytes \<Rightarrow> unit + (u64 \<times> bytes)" where "r64 \<equiv> read_u64 ()"
abbreviation r32 :: "bytes \<Rightarrow> unit + (u32 \<times> bytes)" where "r32 \<equiv> read_u32 ()"

definition metric_code :: "metric \<Rightarrow> nat" where
  "metric_code m = (case m of Cosine \<Rightarrow> 0 | Dot \<Rightarrow> 1 | SquaredEuclidean \<Rightarrow> 2)"
definition code_metric :: "nat \<Rightarrow> metric" where
  "code_metric n = (if n = 0 then Cosine else if n = 1 then Dot else SquaredEuclidean)"

lemma code_metric_code [simp]: "code_metric (metric_code m) = m"
  by (cases m) (simp_all add: metric_code_def code_metric_def)

definition dim_code :: "nat option \<Rightarrow> nat" where
  "dim_code d = (case d of None \<Rightarrow> 0 | Some n \<Rightarrow> Suc n)"
definition code_dim :: "nat \<Rightarrow> nat option" where
  "code_dim n = (case n of 0 \<Rightarrow> None | Suc k \<Rightarrow> Some k)"

lemma code_dim_code [simp]: "code_dim (dim_code d) = d"
  by (cases d) (simp_all add: dim_code_def code_dim_def)

definition s_enc_ns :: "namespace \<Rightarrow> bytes" where
  "s_enc_ns a = enc_pair enc_str (enc_pair unary (enc_pair unary (enc_list enc_str)))
     (ns_name a, dim_code (dimensions (ns_conf a)), metric_code (metric (ns_conf a)), text_fields (ns_conf a))"
definition s_read_ns :: "bytes \<Rightarrow> unit + (namespace \<times> bytes)" where
  "s_read_ns = mapped (\<lambda>(n, d, m, t). \<lparr>ns_name = n,
       ns_conf = \<lparr>dimensions = code_dim d, metric = code_metric m, text_fields = t\<rparr>\<rparr>)
     (read_pair read_str (read_pair read_unary (read_pair read_unary (read_list read_str))))"

definition s_enc_stats :: "stats \<Rightarrow> bytes" where
  "s_enc_stats a = enc_pair u64_to_le (enc_pair u64_to_le (enc_pair u64_to_le u64_to_le))
     (revision a, documents a, stat_bytes a, pending_documents a)"
definition s_read_stats :: "bytes \<Rightarrow> unit + (stats \<times> bytes)" where
  "s_read_stats = mapped (\<lambda>(r, d, b, p). \<lparr>revision = r, documents = d, stat_bytes = b, pending_documents = p\<rparr>)
     (read_pair r64 (read_pair r64 (read_pair r64 r64)))"

definition s_enc_postings :: "posting list \<Rightarrow> bytes" where
  "s_enc_postings ps = enc_list (enc_pair enc_str (enc_pair u32_to_le u32_to_le))
     (map (\<lambda>p. (posting_id p, posting_frequency p, posting_length p)) ps)"
definition s_read_postings :: "bytes \<Rightarrow> unit + (posting list \<times> bytes)" where
  "s_read_postings = mapped (map (\<lambda>(i, f, l). \<lparr>posting_id = i, posting_frequency = f, posting_length = l\<rparr>))
     (read_list (read_pair read_str (read_pair r32 r32)))"

definition s_enc_terms :: "(string, terms) btree \<Rightarrow> bytes" where
  "s_enc_terms m = enc_list (enc_pair enc_str (enc_pair u32_to_le (enc_list (enc_pair enc_str u32_to_le))))
     (map (\<lambda>(k, t). (k, terms_length t, frequencies t)) m)"
definition s_read_terms :: "bytes \<Rightarrow> unit + ((string, terms) btree \<times> bytes)" where
  "s_read_terms = mapped (map (\<lambda>(k, l, f). (k, \<lparr>terms_length = l, frequencies = f\<rparr>)))
     (read_list (read_pair read_str (read_pair r32 (read_list (read_pair read_str r32)))))"

definition s_enc_index :: "index_status \<Rightarrow> bytes" where
  "s_enc_index a = enc_pair enc_str (enc_pair u64_to_le (enc_pair unary (enc_pair unary
       (enc_pair (enc_list (enc_list u32_to_le)) (enc_pair (enc_list unary)
          (enc_list (enc_pair enc_str (enc_pair u64_to_le u64_to_le))))))))
     (generation a, idx_revision a, idx_documents a, idx_vectors a, centroids a, cluster_blocks a,
      map (\<lambda>(k, c). (k, corpus_documents c, corpus_tokens c)) (idx_text a))"
definition s_read_index :: "bytes \<Rightarrow> unit + (index_status \<times> bytes)" where
  "s_read_index = mapped (\<lambda>(g, r, d, v, c, b, t).
       \<lparr>generation = g, idx_revision = r, idx_documents = d, idx_vectors = v, centroids = c,
        cluster_blocks = b,
        idx_text = map (\<lambda>(k, n, l). (k, \<lparr>corpus_documents = n, corpus_tokens = l\<rparr>)) t\<rparr>)
     (read_pair read_str (read_pair r64 (read_pair read_unary (read_pair read_unary
       (read_pair (read_list (read_list r32)) (read_pair (read_list read_unary)
          (read_list (read_pair read_str (read_pair r64 r64)))))))))"

text \<open>Attribute values: scalars are encoded in full, arrays and objects by a tag only.\<close>

fun s_enc_json :: "json \<Rightarrow> bytes" where
  "s_enc_json JNull = ''n''"
| "s_enc_json (JBool b) = (if b then ''t'' else ''f'')"
| "s_enc_json (JNumber (PosInt n)) = CHR ''p'' # u64_to_le n"
| "s_enc_json (JNumber (NegInt n)) = CHR ''m'' # u64_to_le n"
| "s_enc_json (JNumber (Float n)) = CHR ''d'' # u64_to_le n"
| "s_enc_json (JString s) = CHR ''s'' # enc_str s"
| "s_enc_json _ = ''x''"

fun s_read_json :: "bytes \<Rightarrow> unit + (json \<times> bytes)" where
  "s_read_json (c # r) =
     (if c = CHR ''t'' then Inr (JBool True, r) else if c = CHR ''f'' then Inr (JBool False, r)
      else if c = CHR ''p'' then mapped (\<lambda>n. JNumber (PosInt n)) r64 r
      else if c = CHR ''m'' then mapped (\<lambda>n. JNumber (NegInt n)) r64 r
      else if c = CHR ''d'' then mapped (\<lambda>n. JNumber (Float n)) r64 r
      else if c = CHR ''s'' then mapped JString read_str r
      else Inr (JNull, r))"
| "s_read_json [] = Inl ()"

definition s_enc_doc :: "document \<Rightarrow> bytes" where
  "s_enc_doc a = enc_pair enc_str (enc_pair (enc_list (enc_list u32_to_le)) (enc_list (enc_pair enc_str s_enc_json)))
     (doc_id a, (case vector a of None \<Rightarrow> [] | Some v \<Rightarrow> [v]), attributes a)"
definition s_read_doc :: "bytes \<Rightarrow> unit + (document \<times> bytes)" where
  "s_read_doc = mapped (\<lambda>(i, v, a). \<lparr>doc_id = i, vector = (case v of [] \<Rightarrow> None | x # _ \<Rightarrow> Some x), attributes = a\<rparr>)
     (read_pair read_str (read_pair (read_list (read_list r32)) (read_list (read_pair read_str s_read_json))))"

definition sample_ext :: ext where
  "sample_ext = \<lparr>enc_ns = s_enc_ns, dec_ns = whole_opt s_read_ns,
     enc_stats = s_enc_stats, dec_stats = whole_opt s_read_stats,
     enc_doc = s_enc_doc, dec_doc = whole_opt s_read_doc,
     enc_index = s_enc_index, dec_index = whole_opt s_read_index,
     enc_ids = enc_list enc_str, dec_ids = whole_opt (read_list read_str),
     enc_postings = s_enc_postings, dec_postings = whole_opt s_read_postings,
     enc_terms = s_enc_terms, dec_terms = whole_opt s_read_terms,
     enc_json = s_enc_json,
     crc32 = (\<lambda>bs. of_nat (sum_list (map of_char bs))),
     sha256_hex = (\<lambda>bs. concat (map (\<lambda>c. hex_padded 2 (of_char c)) bs)),
     split_words = (\<lambda>s. filter (\<lambda>w. w \<noteq> []) (split_on (\<lambda>c. c = CHR '' '') s)),
     to_lowercase = (\<lambda>s. s), ln64 = (\<lambda>x. x)\<rparr>"

lemma sample_sel [simp]:
  "enc_ns sample_ext = s_enc_ns" "dec_ns sample_ext = whole_opt s_read_ns"
  "enc_stats sample_ext = s_enc_stats" "dec_stats sample_ext = whole_opt s_read_stats"
  "enc_doc sample_ext = s_enc_doc" "dec_doc sample_ext = whole_opt s_read_doc"
  "enc_json sample_ext = s_enc_json" "to_lowercase sample_ext w = w"
  by (simp_all add: sample_ext_def)

lemma posting_eta [simp]: "\<lparr>posting_id = posting_id p, posting_frequency = posting_frequency p,
    posting_length = posting_length p\<rparr> = p"
  by simp

lemma terms_eta [simp]: "map (\<lambda>x. (fst x, \<lparr>terms_length = terms_length (snd x),
    frequencies = frequencies (snd x)\<rparr>)) m = m"
  by (rule map_idI) (auto intro: prod_eqI)

lemma corpus_eta [simp]: "map (\<lambda>x. (fst x, \<lparr>corpus_documents = corpus_documents (snd x),
    corpus_tokens = corpus_tokens (snd x)\<rparr>)) m = m"
  by (rule map_idI) (auto intro: prod_eqI)

lemma sample_json_codec: "json_codec sample_ext"
  unfolding json_codec_def sample_ext_def
  by (auto intro!: whole_optI
      simp: s_read_ns_def s_enc_ns_def s_read_stats_def s_enc_stats_def s_read_postings_def
        s_enc_postings_def s_read_terms_def s_enc_terms_def mapped_def read_pair_def enc_pair_def
        unary.dec_enc str.dec_enc u64.dec_enc u32.dec_enc case_prod_unfold comp_def map_idI)

lemma sample_index_codec: "whole_opt s_read_index (s_enc_index a) = Some a"
  by (auto intro!: whole_optI
      simp: s_read_index_def s_enc_index_def mapped_def read_pair_def enc_pair_def
        unary.dec_enc str.dec_enc u64.dec_enc u32.dec_enc case_prod_unfold comp_def map_idI)


lemmas sample_codecs [simp] = json_codecD(1,2)[OF sample_json_codec, unfolded sample_sel]

lemma sample_doc_codec:
  assumes "\<And>k v r. (k, v) \<in> set (attributes doc) \<Longrightarrow> s_read_json (s_enc_json v @ r) = Inr (v, r)"
  shows "whole_opt s_read_doc (s_enc_doc doc) = Some doc"
proof (rule whole_optI)
  fix rest
  have "read_list (read_pair read_str s_read_json) (enc_list (enc_pair enc_str s_enc_json) (attributes doc) @ rest)
      = Inr (attributes doc, rest)"
    by (rule read_list_enc) (auto intro!: read_pair_enc simp: str.dec_enc assms)
  then show "s_read_doc (s_enc_doc doc @ rest) = Inr (doc, rest)"
    by (simp add: s_read_doc_def s_enc_doc_def mapped_def read_pair_def enc_pair_def str.dec_enc u32.dec_enc
        split: option.splits)
qed

end
