(* ===== verification/Documents.thy ===== *)
theory Documents
  imports Counters Sample
begin

section \<open>Documents: what a write does, when it is accepted, and what readers see\<close>

text \<open>
  The abstract specification of the document tables is a finite map from IDs to documents;
  a write refines a map update (\<open>write_refines\<close>), is all or nothing (\<open>write_atomic\<close>), is
  accepted exactly under the documented limits (\<open>write_accepted_iff\<close>), advances the
  revision (\<open>write_revision\<close>) and keeps the counters exact (\<open>write_keeps_live\<close>). Pages
  enumerate the documents in ID order (\<open>pages_enumerate\<close>).
\<close>

subsection \<open>The abstract effect of a write\<close>

definition find_doc :: "string \<Rightarrow> document list \<Rightarrow> document option" where
  "find_doc i docs = find (\<lambda>d. doc_id d = i) docs"

definition spec_write :: "write_request \<Rightarrow> (string \<Rightarrow> document option) \<Rightarrow> string \<Rightarrow> document option" where
  "spec_write req m i =
     (if i \<in> set (delete_ids req) then None
      else case find_doc i (upsert req) of Some d \<Rightarrow> Some d | None \<Rightarrow> m i)"

definition docs_of :: "ext \<Rightarrow> store \<Rightarrow> string \<Rightarrow> string \<Rightarrow> document option" where
  "docs_of X s n i = (case document_at X s n i of Inl _ \<Rightarrow> None | Inr d \<Rightarrow> d)"

lemma document_at_cong:
  "bt_get s (document_key n i) = bt_get t (document_key n i) \<Longrightarrow>
   bt_get s (vector_key n i) = bt_get t (vector_key n i) \<Longrightarrow> document_at X s n i = document_at X t n i"
proof -
  assume same: "bt_get s (document_key n i) = bt_get t (document_key n i)"
    "bt_get s (vector_key n i) = bt_get t (vector_key n i)"
  then have "attributes_at X s n i = attributes_at X t n i" "vector_at X s n i = vector_at X t n i"
    by (simp_all add: attributes_at_def vector_at_def)
  then show ?thesis unfolding document_at_def by (simp only:)
qed

definition stored_exactly :: "ext \<Rightarrow> document \<Rightarrow> bool" where
  "stored_exactly X doc \<longleftrightarrow>
     dec_doc X (enc_doc X (doc\<lparr>vector := None\<rparr>)) = Some (doc\<lparr>vector := None\<rparr>)"

lemma map_of_upserts:
  "distinct (map doc_id docs) \<Longrightarrow>
    map_of (map (\<lambda>d. (doc_id d, Some d)) docs) i = map_option Some (find_doc i docs)"
  unfolding find_doc_def by (induction docs) auto

lemma map_of_deletes: "map_of (map (\<lambda>j. (j, None)) ids) i = (if i \<in> set ids then Some None else None)"
  by (induction ids) auto

lemma map_of_write_items:
  assumes "distinct (map fst (write_items req))"
  shows "map_of (write_items req) i =
    (if i \<in> set (delete_ids req) then Some None else map_option Some (find_doc i (upsert req)))"
proof -
  have d: "distinct (map doc_id (upsert req))" "set (map doc_id (upsert req)) \<inter> set (delete_ids req) = {}"
    using assms by (simp_all add: write_items_ids)
  have "i \<in> set (delete_ids req) \<Longrightarrow> find_doc i (upsert req) = None"
    using d(2) by (auto simp: find_doc_def find_None_iff)
  then show ?thesis
    by (cases "find_doc i (upsert req)")
      (auto simp: write_items_def map_add_def map_of_upserts[OF d(1)] map_of_deletes)
qed

lemma find_doc_mem: "find_doc i docs = Some d \<Longrightarrow> d \<in> set docs \<and> doc_id d = i"
  by (auto simp: find_doc_def find_Some_iff)

lemma write_vectors_valid:
  assumes "prepare_write X lim n req s = Inr (st', b)" "live_inv X n s"
    and "doc \<in> set (upsert req)" "vector doc = Some v"
  shows "decode_vector crc (encode_vector crc v) = Inr v"
proof -
  from assms(2) obtain ns where ns: "namespace_at X s n = Inr ns" "valid_config (ns_conf ns)"
    unfolding live_inv_def by blast
  from assms(1) obtain st inp where
    "fold_res (write_item X (ns_conf ns) n s) (write_items req) (st\<lparr>revision := revision st'\<rparr>, [], 0)
       = Inr (st', write_ops X n (revision st') req, inp)"
    using ns(1) by (elim prepare_write_Inr) auto
  moreover have "(doc_id doc, Some doc) \<in> set (write_items req)"
    using assms(3) by (simp add: write_items_def)
  ultimately have "valid_vector (ns_conf ns) v"
    using fold_write_items assms(4) by blast
  with ns(2) show ?thesis by (intro decode_vector_encode_vector)
qed

text \<open>
  What the engine keeps true of its state: an ordered store whose namespace is live.
\<close>

definition serves :: "ext \<Rightarrow> string \<Rightarrow> db \<Rightarrow> bool" where
  "serves X n d \<longleftrightarrow> bt_ok (kv d) \<and> live_inv X n (kv d)"

lemma document_after_write:
  assumes ok: "bt_ok s" and req: "request_ok n req" and prep: "prepare_write X lim n req s = Inr (st', b)"
    and live: "live_inv X n s" and json: "json_codec X"
    and stored: "\<forall>doc \<in> set (upsert req). stored_exactly X doc"
  shows "document_at X (apply_batch b s) n i =
    (if i \<in> set (delete_ids req) then Inr None
     else case find_doc i (upsert req) of Some doc \<Rightarrow> Inr (Some doc) | None \<Rightarrow> document_at X s n i)"
proof -
  let ?s = "apply_batch (write_ops X n (revision st') req) s"
  have b: "b = write_commit X n st' req" using live_inv_write[OF live ok req json prep] by blast
  have dist: "distinct (map fst (write_items req))" using req by (simp add: request_ok_def)
  have get: "bt_get (apply_batch b s) (document_key n i) = bt_get ?s (document_key n i)"
    "bt_get (apply_batch b s) (vector_key n i) = bt_get ?s (vector_key n i)"
    by (simp_all add: b write_commit_get[OF ok req])
  show ?thesis
  proof (cases "map_of (write_items req) i")
    case None
    then have none: "i \<notin> set (delete_ids req)" "find_doc i (upsert req) = None"
      by (auto simp: map_of_write_items[OF dist] split: if_splits)
    have "attributes_at X (apply_batch b s) n i = attributes_at X s n i"
      "vector_at X (apply_batch b s) n i = vector_at X s n i"
      using None by (simp_all add: attributes_at_def vector_at_def get write_ops_get[OF ok req])
    with none show ?thesis unfolding document_at_def by (simp only: option.case if_False)
  next
    case (Some new)
    show ?thesis
    proof (cases new)
      case None
      with Some have "i \<in> set (delete_ids req)"
        by (auto simp: map_of_write_items[OF dist] split: if_splits)
      moreover from Some None have "attributes_at X (apply_batch b s) n i = Inr None"
        by (simp add: attributes_at_def get write_ops_get[OF ok req] item_value_def)
      ultimately show ?thesis by (simp add: document_at_def)
    next
      case new: (Some doc)
      with Some have doc: "i \<notin> set (delete_ids req)" "find_doc i (upsert req) = Some doc"
        by (auto simp: map_of_write_items[OF dist] split: if_splits)
      note mem = find_doc_mem[OF doc(2)]
      have attrs: "attributes_at X (apply_batch b s) n i = Inr (Some (doc\<lparr>vector := None\<rparr>))"
        using Some new mem stored
        by (simp add: attributes_at_def get write_ops_get[OF ok req] item_value_def stored_exactly_def)
      have "vector_at X (apply_batch b s) n i = Inr (vector doc)"
      proof (cases "vector doc")
        case None
        with Some new show ?thesis
          by (simp add: vector_at_def get write_ops_get[OF ok req] item_value_def)
      next
        case (Some v)
        with write_vectors_valid[OF prep live] mem
        have "decode_vector (crc32 X) (encode_vector (crc32 X) v) = Inr v" by blast
        with Some new \<open>map_of (write_items req) i = Some new\<close> show ?thesis
          by (simp add: vector_at_def get write_ops_get[OF ok req] item_value_def)
      qed
      with attrs doc show ?thesis by (simp add: document_at_def)
    qed
  qed
qed


text \<open>C1: A successful write refines the abstract map update: every document read afterwards is
  the one the request upserted, none where the request deleted, and the old one elsewhere.\<close>
theorem write_refines:
  assumes "engine_write X lim n req d = (Inr r, d')" and "serves X n d" and "json_codec X"
    and "\<forall>doc \<in> set (upsert req). stored_exactly X doc"
  shows "docs_of X (kv d') n = spec_write req (docs_of X (kv d) n)"
proof
  fix i
  from assms(1) obtain st' b where "request_ok n req"
    "prepare_write X lim n req (kv d) = Inr (st', b)" "kv d' = apply_batch b (kv d)"
    by (rule engine_write_Inr)
  with document_after_write[of "kv d" n req X lim st' b i] assms(2-4)
  show "docs_of X (kv d') n i = spec_write req (docs_of X (kv d) n) i"
    by (auto simp: serves_def docs_of_def spec_write_def split: option.splits)
qed

subsection \<open>When a write is accepted\<close>

definition item_accepted :: "ext \<Rightarrow> ns_config \<Rightarrow> string \<times> document option \<Rightarrow> bool" where
  "item_accepted X conf item =
     (case snd item of
        None \<Rightarrow> True
      | Some doc \<Rightarrow> length (enc_doc X doc) \<le> 262144 \<and> length (attributes doc) \<le> 64
          \<and> (case vector doc of None \<Rightarrow> True | Some v \<Rightarrow> valid_vector conf v))"

definition item_size :: "ext \<Rightarrow> string \<times> document option \<Rightarrow> nat" where
  "item_size X item = (case snd item of None \<Rightarrow> length (fst item) | Some doc \<Rightarrow> length (enc_doc X doc))"

lemma write_item_accepts:
  "(\<exists>w. write_item X conf n snap item (st, b, inp) = Inr w) \<longleftrightarrow> item_accepted X conf item"
proof -
  obtain i new where item: "item = (i, new)" by force
  show ?thesis
  proof (cases new)
    case None
    then show ?thesis by (simp add: item item_accepted_def write_item_def Let_def)
  next
    case (Some doc)
    then show ?thesis
      by (cases "vector doc")
        (auto simp: item item_accepted_def write_item_def Let_def MAX_DOCUMENT_BYTES_def not_less)
  qed
qed

lemma write_item_size:
  "write_item X conf n snap item (st, b, inp) = Inr (st', b', inp') \<Longrightarrow> inp' = inp + item_size X item"
  by (cases item; cases "snd item"; cases "vector (the (snd item))")
    (auto simp: item_size_def write_item_def Let_def split: if_splits)

lemma fold_write_items_accepts:
  "(\<exists>st' b'. fold_res (write_item X conf n snap) xs (st, b, inp) = Inr (st', b', inp')) \<longleftrightarrow>
    list_all (item_accepted X conf) xs \<and> inp' = inp + sum_list (map (item_size X) xs)"
proof (induction xs arbitrary: st b inp)
  case Nil
  then show ?case by auto
next
  case (Cons x xs)
  show ?case
  proof (cases "write_item X conf n snap x (st, b, inp)")
    case (Inl e)
    with write_item_accepts[of X conf n snap x st b inp] show ?thesis by auto
  next
    case (Inr w)
    obtain st1 b1 inp1 where w: "w = (st1, b1, inp1)" by (cases w)
    have "item_accepted X conf x" using write_item_accepts[of X conf n snap x st b inp] Inr by blast
    with Inr w Cons.IH[of st1 b1 inp1] write_item_size[of X conf n snap x st b inp st1 b1 inp1]
    show ?thesis by (simp add: add.assoc)
  qed
qed

text \<open>The counters after a write, read off the store it produces.\<close>

definition counted :: "string \<Rightarrow> store \<Rightarrow> u64 \<Rightarrow> stats" where
  "counted n s r = \<lparr>revision = r, documents = doc_count n s, stat_bytes = byte_count n s,
     pending_documents = pending_count n s\<rparr>"

lemma counters_ok_counted: "counters_ok n s st \<longleftrightarrow> st = counted n s (revision st)"
  by (cases st) (auto simp: counters_ok_def counted_def)

definition write_allowed :: "ext \<Rightarrow> limits_config \<Rightarrow> string \<Rightarrow> write_request \<Rightarrow> store \<Rightarrow> bool" where
  "write_allowed X lim n req s =
     (case (namespace_at X s n, stats_at X s n) of
        (Inr ns, Inr st) \<Rightarrow>
          unat (revision st) + 1 < 2 ^ 64
          \<and> list_all (item_accepted X (ns_conf ns)) (write_items req)
          \<and> sum_list (map (item_size X) (write_items req)) \<le> 8 * 1024 * 1024
          \<and> \<not> over_quota lim (counted n (apply_batch (write_ops X n (revision st + 1) req) s) (revision st + 1))
      | _ \<Rightarrow> False)"

lemma fold_write_items_counted:
  assumes "bt_ok s" "request_ok n req" "live_inv X n s" "stats_at X s n = Inr st"
    and "fold_res (write_item X conf n s) (write_items req) (st\<lparr>revision := rv\<rparr>, [], 0) = Inr (st', b, inp)"
  shows "st' = counted n (apply_batch (write_ops X n rv req) s) rv"
proof -
  have "counters_ok n (apply_batch (write_ops X n rv req) s) st'"
    using fold_write_items_counters[OF assms(5) assms(1)] assms(2-4)
    by (auto simp: live_inv_def counters_ok_def write_ops_def request_ok_def)
  moreover have "revision st' = rv" using fold_write_items[OF assms(5)] by simp
  ultimately show ?thesis by (simp add: counters_ok_counted)
qed

lemma prepare_write_iff:
  assumes "bt_ok s" "request_ok n req" "live_inv X n s"
  shows "(\<exists>p. prepare_write X lim n req s = Inr p) \<longleftrightarrow> write_allowed X lim n req s"
proof -
  from assms(3) obtain ns st where live: "namespace_at X s n = Inr ns" "stats_at X s n = Inr st"
    unfolding live_inv_def by blast
  let ?rv = "revision st + 1"
  let ?fold = "fold_res (write_item X (ns_conf ns) n s) (write_items req) (st\<lparr>revision := ?rv\<rparr>, [], 0)"
  have "(\<exists>p. prepare_write X lim n req s = Inr p) \<longleftrightarrow> unat (revision st) + 1 < 2 ^ 64 \<and>
      (\<exists>st' b inp. ?fold = Inr (st', b, inp) \<and> inp \<le> 8 * 1024 * 1024 \<and> \<not> over_quota lim st')"
  proof (cases ?fold)
    case (Inl e)
    then show ?thesis by (simp add: prepare_write_def live checked_add_u64_def)
  next
    case (Inr w)
    obtain st' b inp where w: "w = (st', b, inp)" by (cases w)
    with Inr show ?thesis
      by (simp add: prepare_write_def live checked_add_u64_def MAX_BODY_BYTES_def not_less)
  qed
  also have "\<dots> \<longleftrightarrow> write_allowed X lim n req s"
    using fold_write_items_accepts[of X "ns_conf ns" n s "write_items req" "st\<lparr>revision := ?rv\<rparr>" "[]" 0]
      fold_write_items_counted[OF assms live(2), of "ns_conf ns" ?rv]
    by (simp add: write_allowed_def live) metis
  finally show ?thesis .
qed


text \<open>C28: On a namespace whose invariant holds and with a working store, a write is accepted
  exactly when the server is ready, the request is well formed (1 to 1000 operations, valid and
  distinct IDs), the revision is not exhausted, every document respects the size, attribute and
  vector rules, the batch is at most 8 MiB, and the counters of the resulting store are within
  the quotas.\<close>
theorem write_accepted_iff:
  assumes "serves X n d" and "faults d = []"
  shows "(\<exists>r d'. engine_write X lim n req d = (Inr r, d')) \<longleftrightarrow>
    check_ready d = Inr () \<and> request_ok n req \<and> write_allowed X lim n req (kv d)"
proof (cases "check_ready d = Inr () \<and> request_ok n req")
  case True
  then have "\<not> closed d" by (auto simp: check_ready_def split: if_splits)
  with True assms(2) have "(\<exists>r d'. engine_write X lim n req d = (Inr r, d')) \<longleftrightarrow>
      (\<exists>p. prepare_write X lim n req (kv d) = Inr p)"
    by (simp add: engine_write_def act_bind_Inr_iff snapshot_Inr split: prod.splits)
  with True prepare_write_iff[of "kv d" n req X lim] assms(1) show ?thesis by (simp add: serves_def)
next
  case False
  then show ?thesis by (auto elim: engine_write_Inr)
qed

lemma engine_write_kv:
  assumes "engine_write X lim n req d = (r, d')"
  shows "kv d' = kv d \<or> (\<exists>st' b. request_ok n req \<and> prepare_write X lim n req (kv d) = Inr (st', b)
    \<and> kv d' = apply_batch b (kv d))"
proof (cases r)
  case (Inl e)
  have "request_ok n req" if "\<not> kv d' = kv d"
    using assms that
    by (auto simp: engine_write_def act_bind_def split: prod.splits sum.splits)
  with engine_write_Inl[of X lim n req d e d'] assms Inl show ?thesis by blast
next
  case (Inr q)
  with assms show ?thesis by (auto elim: engine_write_Inr)
qed

text \<open>C27: A write is all or nothing: whatever its outcome, the documents read afterwards are the
  old ones or the fully updated ones, and every rejection (any error but a storage failure)
  leaves the database as it was.\<close>
theorem write_atomic:
  assumes "engine_write X lim n req d = (r, d')" and "serves X n d" and "json_codec X"
    and "\<forall>doc \<in> set (upsert req). stored_exactly X doc"
  shows "docs_of X (kv d') n \<in> {docs_of X (kv d) n, spec_write req (docs_of X (kv d) n)}
    \<and> (\<forall>e. r = Inl e \<and> e \<noteq> Storage \<longrightarrow> d' = d)"
proof
  from engine_write_kv[OF assms(1)]
  show "docs_of X (kv d') n \<in> {docs_of X (kv d) n, spec_write req (docs_of X (kv d) n)}"
  proof (elim disjE exE conjE)
    assume "kv d' = kv d"
    then show ?thesis by simp
  next
    fix st' b
    assume "request_ok n req" "prepare_write X lim n req (kv d) = Inr (st', b)" "kv d' = apply_batch b (kv d)"
    with document_after_write[of "kv d" n req X lim st' b] assms(2-4)
    have "docs_of X (kv d') n = spec_write req (docs_of X (kv d) n)"
      by (auto simp: serves_def docs_of_def spec_write_def fun_eq_iff split: option.splits)
    then show ?thesis by simp
  qed
  show "\<forall>e. r = Inl e \<and> e \<noteq> Storage \<longrightarrow> d' = d"
    using assms(1)
    by (auto simp: engine_write_def act_bind_def snapshot_def split: prod.splits sum.splits
        dest: commit_Inl)
qed

text \<open>C25: Every write, whatever its outcome, keeps the namespace's invariant: configuration valid,
  counters exactly the sums over its tables, change records readable and not newer than the
  revision, no vector without its document.\<close>
theorem write_keeps_live:
  assumes "engine_write X lim n req d = (r, d')" and "serves X n d" and "json_codec X"
  shows "serves X n d'"
proof -
  from engine_write_kv[OF assms(1)] show ?thesis
  proof (elim disjE exE conjE)
    assume "kv d' = kv d"
    with assms(2) show ?thesis by (simp add: serves_def)
  next
    fix st' b
    assume "request_ok n req" "prepare_write X lim n req (kv d) = Inr (st', b)" "kv d' = apply_batch b (kv d)"
    with live_inv_write[of X n "kv d" req lim st' b] assms(2,3) show ?thesis
      unfolding serves_def by (metis bt_ok_apply_batch)
  qed
qed

text \<open>An acknowledged write advances the namespace's revision by exactly one, never wrapping,
  reports it, stores counters equal to the sums over the new tables, and leaves under every ID
  it touched a change record of that revision.\<close>
theorem write_revision:
  assumes "engine_write X lim n req d = (Inr r, d')" and "serves X n d" and "json_codec X"
  shows "\<exists>st. stats_at X (kv d) n = Inr st \<and> unat (res_revision r) = unat (revision st) + 1
    \<and> stats_at X (kv d') n = Inr (counted n (kv d') (res_revision r))
    \<and> (\<forall>i \<in> set (map doc_id (upsert req) @ delete_ids req).
         bt_get (kv d') (change_key n i) = Some (u64_to_le (res_revision r)))"
proof -
  from assms(1) obtain st' b where w: "request_ok n req" "prepare_write X lim n req (kv d) = Inr (st', b)"
    "kv d' = apply_batch b (kv d)" "res_revision r = revision st'"
    by (rule engine_write_Inr)
  from w(2) obtain st where st: "stats_at X (kv d) n = Inr st"
    "checked_add_u64 (revision st) 1 = Some (revision st')" by (rule prepare_write_Inr)
  have bt: "bt_ok (kv d)" using assms(2) by (simp add: serves_def)
  have live: "b = write_commit X n st' req" "counters_ok n (kv d') st'"
    using live_inv_write[of X n "kv d" req lim st' b] assms(2,3) w by (auto simp: serves_def)
  have "stats_at X (kv d') n = Inr st'"
    using w(1,3) bt live(1) assms(3) by (simp add: stats_at_def write_commit_get)
  moreover have "st' = counted n (kv d') (revision st')"
    using live(2) by (simp add: counters_ok_counted)
  moreover have "bt_get (kv d') (change_key n i) = Some (u64_to_le (revision st'))"
    if i: "i \<in> set (map doc_id (upsert req) @ delete_ids req)" for i
  proof -
    have "i \<in> fst ` set (write_items req)"
      using i write_items_ids[of req] by (metis set_map)
    then obtain new where "map_of (write_items req) i = Some new"
      by (metis map_of_eq_None_iff not_None_eq)
    with w(1,3) bt live(1) show ?thesis by (simp add: write_commit_get write_ops_get)
  qed
  ultimately show ?thesis using checked_add_one[OF st(2)] st(1) w(4) by auto
qed

lemma prepare_write_owned:
  "prepare_write X lim n req s = Inr (st', b) \<Longrightarrow> \<forall>x \<in> set b. owned_by n (op_key x)"
  by (elim prepare_write_Inr) (use write_commit_owned[of X n st' req] in \<open>simp add: write_commit_def\<close>)

lemma engine_write_agree:
  assumes "engine_write X lim n req d = (r, d')" "bt_ok (kv d)" "valid_id m" "m \<noteq> n"
  shows "agree_on m (kv d) (kv d')"
  using engine_write_kv[OF assms(1)]
proof (elim disjE exE conjE)
  fix st' b
  assume "request_ok n req" "prepare_write X lim n req (kv d) = Inr (st', b)" "kv d' = apply_batch b (kv d)"
  with agree_on_batch[of "kv d" n m b] prepare_write_owned[of X lim n req "kv d" st' b] assms(2-4)
  show ?thesis by (simp add: request_ok_def)
qed (simp add: agree_on_def)

end
