(* ===== verification/Deletion.thy ===== *)
theory Deletion
  imports Documents
begin

section \<open>Creating and deleting namespaces: intents, interruption and resumption\<close>

text \<open>
  Deleting commits its intent (name removed, marker \<open>z/<name>\<close> put), erases the tables in
  batches and removes the marker last. Every prefix of that sequence of commits is a
  possible crash point: \<open>erase_outcome\<close> describes the store after any of them, and the
  properties say what reopening makes of it.
\<close>

subsection \<open>Stores that differ by erased keys\<close>

definition erased :: "(string \<Rightarrow> bool) \<Rightarrow> store \<Rightarrow> store \<Rightarrow> bool" where
  "erased P s t \<longleftrightarrow> (\<exists>ks. t = apply_batch (map Del ks) s \<and> (\<forall>k \<in> set ks. P k))"

lemma erased_refl [simp]: "erased P s s"
  unfolding erased_def by (rule exI[of _ "[]"]) simp

lemma erased_trans: "erased P s t \<Longrightarrow> erased P t u \<Longrightarrow> erased P s u"
  unfolding erased_def by (metis Un_iff apply_batch_append map_append set_append)

lemma erased_mono: "erased P s t \<Longrightarrow> (\<And>k. P k \<Longrightarrow> Q k) \<Longrightarrow> erased Q s t"
  unfolding erased_def by blast

lemma erased_get: "erased P s t \<Longrightarrow> bt_ok s \<Longrightarrow> bt_get t k = bt_get s k \<or> (P k \<and> bt_get t k = None)"
  by (auto simp: erased_def get_apply_dels)

lemma erased_ok: "erased P s t \<Longrightarrow> bt_ok s \<Longrightarrow> bt_ok t"
  by (auto simp: erased_def)

lemma keeps_erased: "keeps (erased P) m \<Longrightarrow> m d = (r, d') \<Longrightarrow> erased P (kv d) (kv d')"
  by (simp add: keeps_def)

lemma transp_erased: "transp (erased P)"
  by (rule transpI) (rule erased_trans)

lemma keeps_commit_dels: "\<forall>k \<in> set ks. P k \<Longrightarrow> keeps (erased P) (commit (map Del ks))"
  by (rule keeps_commit) (auto simp: reflp_def erased_def)

lemma keeps_commit_all_dels:
  "\<forall>k \<in> set (concat css). P k \<Longrightarrow> keeps (erased P) (commit_all (map (map Del) css))"
proof (induction css)
  case Nil
  then show ?case by (simp add: keeps_def)
next
  case (Cons ks css)
  then have "keeps (erased P) (commit (map Del ks))" "keeps (erased P) (commit_all (map (map Del) css))"
    by (simp_all add: keeps_commit_dels)
  then show ?case by (simp add: keeps_bind[OF transp_erased])
qed

lemma keeps_erase_table: "(\<And>k. prefix p k \<Longrightarrow> P k) \<Longrightarrow> keeps (erased P) (erase_table p)"
proof -
  assume P: "\<And>k. prefix p k \<Longrightarrow> P k"
  show ?thesis
    unfolding keeps_def
  proof (intro allI impI)
    fix d r d'
    assume "erase_table p d = (r, d')"
    moreover have "\<forall>k \<in> set (concat (chunks 1000 (map fst (scan_prefix p (kv d))))). P k"
      using P by (auto simp: concat_chunks scan_prefix_def simp del: set_concat)
    from keeps_commit_all_dels[OF this] calculation show "erased P (kv d) (kv d')"
      by (simp add: erase_table_def keeps_def)
  qed
qed

lemma keeps_act_for: "(\<And>x. x \<in> set xs \<Longrightarrow> keeps (erased P) (f x)) \<Longrightarrow> keeps (erased P) (act_for f xs)"
  by (induction xs) (auto simp: keeps_def[of _ "act_ret ()"] intro!: keeps_bind[OF transp_erased])

subsection \<open>A completed erasure\<close>

lemma commit_all_Inr:
  "commit_all bs d = (Inr u, d') \<Longrightarrow> kv d' = apply_batch (concat bs) (kv d)"
proof (induction bs arbitrary: d)
  case Nil
  then show ?case by simp
next
  case (Cons b bs)
  then show ?case by (auto simp: act_bind_Inr_iff dest!: commit_Inr)
qed

lemma erase_table_Inr:
  assumes "erase_table p d = (Inr u, d')" "bt_ok (kv d)" "prefix p k"
  shows "bt_get (kv d') k = None"
proof -
  have "concat (map (map Del) (chunks 1000 ks)) = map Del ks" for ks :: "string list"
    by (metis concat_chunks map_concat zero_less_numeral)
  with assms(1) have "kv d' = apply_batch (map Del (map fst (scan_prefix p (kv d)))) (kv d)"
    by (auto simp: erase_table_def dest!: commit_all_Inr)
  with assms(2,3) show ?thesis by (auto simp: get_apply_dels scan_prefix_keys simp del: map_map)
qed

lemma act_for_erase_Inr:
  assumes "act_for erase_table ps d = (Inr u, d')" "bt_ok (kv d)" "p \<in> set ps" "prefix p k"
  shows "bt_get (kv d') k = None"
  using assms
proof (induction ps arbitrary: d)
  case Nil
  then show ?case by simp
next
  case (Cons q ps)
  then obtain v e where e: "erase_table q d = (Inr v, e)" "act_for erase_table ps e = (Inr u, d')"
    by (auto simp: act_bind_Inr_iff)
  have k1: "keeps (erased (\<lambda>_. True)) (erase_table q)" by (rule keeps_erase_table) simp
  have k2: "keeps (erased (\<lambda>_. True)) (act_for erase_table ps)"
    by (intro keeps_act_for keeps_erase_table) simp
  have ok: "bt_ok (kv e)" using keeps_erased[OF k1 e(1)] Cons.prems(2) by (rule erased_ok)
  show ?case
  proof (cases "p = q")
    case True
    with e(1) Cons.prems have "bt_get (kv e) k = None" by (simp add: erase_table_Inr)
    with erased_get[OF keeps_erased[OF k2 e(2)] ok, of k] show ?thesis by simp
  next
    case False
    with Cons e(2) ok show ?thesis by simp
  qed
qed

definition table_key :: "string \<Rightarrow> string \<Rightarrow> bool" where
  "table_key n k \<longleftrightarrow> prefix (document_prefix n) k \<or> prefix (vector_prefix n) k
     \<or> prefix (change_prefix n) k \<or> prefix (gen_prefix n) k"

text \<open>No trace of a namespace but, possibly, its name.\<close>

definition bare :: "string \<Rightarrow> store \<Rightarrow> bool" where
  "bare n s \<longleftrightarrow> (\<forall>k. owned_by n k \<and> k \<noteq> namespace_key n \<longrightarrow> bt_get s k = None)"

definition clean :: "string \<Rightarrow> store \<Rightarrow> bool" where
  "clean n s \<longleftrightarrow> (\<forall>k. owned_by n k \<longrightarrow> bt_get s k = None)"

lemma clean_bare: "clean n s \<longleftrightarrow> bare n s \<and> bt_get s (namespace_key n) = None"
  by (auto simp: clean_def bare_def)

lemma table_key_singles:
  "\<not> table_key n (namespace_key m)" "\<not> table_key n (deletion_key m)"
  by (simp_all add: table_key_def)

lemma owned_cases:
  "owned_by n k \<longleftrightarrow> table_key n k \<or>
    k \<in> {namespace_key n, stats_key n, index_key n, staging_key n, deletion_key n}"
  by (simp add: owned_by_def table_key_def)

abbreviation tables :: "string \<Rightarrow> string list" where
  "tables n \<equiv> [document_prefix n, vector_prefix n, change_prefix n, gen_prefix n]"

lemma keeps_erase_tables: "keeps (erased (table_key n)) (act_for erase_table (tables n))"
  by (intro keeps_act_for keeps_erase_table) (auto simp: table_key_def)

lemma erase_tables_Inr:
  "act_for erase_table (tables n) d = (Inr u, d') \<Longrightarrow> bt_ok (kv d) \<Longrightarrow> table_key n k \<Longrightarrow>
    bt_get (kv d') k = None"
  unfolding table_key_def by (elim disjE) (erule (1) act_for_erase_Inr; simp)+

definition last_erase :: "string \<Rightarrow> batch" where
  "last_erase n = map Del [index_key n, stats_key n, deletion_key n, staging_key n]"

lemma erase_outcome:
  assumes "erase_namespace n d = (r, d')" and ok: "bt_ok (kv d)"
  shows "erased (\<lambda>k. owned_by n k \<and> k \<noteq> namespace_key n) (kv d) (kv d')
    \<and> (bt_get (kv d') (deletion_key n) = bt_get (kv d) (deletion_key n) \<or> bare n (kv d'))
    \<and> (r = Inr () \<longrightarrow> bare n (kv d'))"
proof -
  let ?P = "\<lambda>k. owned_by n k \<and> k \<noteq> namespace_key n"
  have unfold: "erase_namespace n = act_bind (act_for erase_table (tables n))
      (\<lambda>_. act_bind (commit (last_erase n)) (\<lambda>_. act_ret ()))"
    by (simp add: erase_namespace_def last_erase_def)
  have tab: "erased (table_key n) (kv d) (kv e)" if "act_for erase_table (tables n) d = (q, e)" for q e
    by (rule keeps_erased[OF keeps_erase_tables that])
  have weak: "erased ?P s t" if "erased (table_key n) s t" for s t
    using that by (rule erased_mono) (auto simp: owned_cases table_key_singles)
  from act_bind_eq_cases[OF assms(1)[unfolded unfold]] show ?thesis
  proof (elim disjE exE conjE)
    fix e
    assume "act_for erase_table (tables n) d = (Inl e, d')" "r = Inl e"
    then have t: "erased (table_key n) (kv d) (kv d')" by (simp add: tab)
    with erased_get[OF t ok, of "deletion_key n"] weak \<open>r = Inl e\<close> show ?thesis
      by (auto simp: table_key_singles)
  next
    fix u e
    assume t: "act_for erase_table (tables n) d = (Inr u, e)"
      and rest: "act_bind (commit (last_erase n)) (\<lambda>_. act_ret ()) e = (r, d')"
    have te: "erased (table_key n) (kv d) (kv e)" and oke: "bt_ok (kv e)"
      using tab[OF t] ok by (auto intro: erased_ok)
    have last: "erased ?P (kv e) (apply_batch (last_erase n) (kv e))"
      unfolding erased_def last_erase_def
    by (rule exI, rule conjI[OF refl]) (auto simp: owned_cases key_defs)
    have bare: "bare n (apply_batch (last_erase n) (kv e))"
      using erase_tables_Inr[OF t ok] oke
      by (auto simp: bare_def owned_cases last_erase_def get_apply_dels simp del: list.map)
    from rest obtain q where c: "commit (last_erase n) e = (q, d')" "r = (case q of Inl x \<Rightarrow> Inl x | Inr _ \<Rightarrow> Inr ())"
      by (auto simp: act_bind_def split: prod.splits sum.splits)
    from commit_kv[OF c(1)] show ?thesis
    proof
      assume kv: "kv d' = kv e"
      have "q \<noteq> Inr x" if "\<not> bare n (kv e)" for x
        using c(1) that commit_Inr[of "last_erase n" e x d'] kv bare by auto
      with kv c(2) erased_get[OF te ok, of "deletion_key n"] weak[OF te] show ?thesis
        by (cases q; cases "bare n (kv e)") (auto simp: table_key_singles)
    next
      assume "kv d' = apply_batch (last_erase n) (kv e)"
      with bare erased_trans[OF weak[OF te] last] show ?thesis by simp
    qed
  qed
qed


lemma erased_agree:
  assumes "erased (owned_by n) s t" "bt_ok s" "valid_id n" "valid_id m" "m \<noteq> n"
  shows "agree_on m s t"
  unfolding agree_on_def
proof (intro allI impI)
  fix k
  assume "owned_by m k"
  with assms(3-5) have "\<not> owned_by n k" using owned_by_disjoint by metis
  with erased_get[OF assms(1,2), of k] show "bt_get s k = bt_get t k" by auto
qed

subsection \<open>Deleting\<close>

definition intent :: "string \<Rightarrow> batch" where
  "intent n = [Del (namespace_key n), Put (deletion_key n) ''delete'']"

lemma validate_id_cases:
  obtains "valid_id n" "validate_id n = Inr ()" | e where "\<not> valid_id n" "validate_id n = Inl e"
  by (metis old.sum.exhaust unit.exhaust validate_id_Inr)

lemma delete_outcome:
  assumes "delete_namespace n d = (r, d')" and ok: "bt_ok (kv d)"
  shows "kv d' = kv d \<and> r \<noteq> Inr () \<or>
    (valid_id n \<and> erased (\<lambda>k. owned_by n k \<and> k \<noteq> namespace_key n) (apply_batch (intent n) (kv d)) (kv d')
     \<and> bt_get (kv d') (namespace_key n) = None
     \<and> (bt_get (kv d') (deletion_key n) = Some ''delete'' \<or> clean n (kv d'))
     \<and> (r = Inr () \<longrightarrow> clean n (kv d')))"
proof -
  let ?P = "\<lambda>k. owned_by n k \<and> k \<noteq> namespace_key n" and ?s = "apply_batch (intent n) (kv d)"
  have unfold: "delete_namespace n = act_bind (act_lift (validate_id n)) (\<lambda>_.
      act_bind snapshot (\<lambda>_. act_bind (commit (intent n)) (\<lambda>_. erase_namespace n)))"
    by (simp add: delete_namespace_def intent_def)
  have oks: "bt_ok ?s" using ok by simp
  have gets: "bt_get ?s (namespace_key n) = None" "bt_get ?s (deletion_key n) = Some ''delete''"
    using ok by (simp_all add: intent_def)
  consider (none) "kv d' = kv d" "r \<noteq> Inr ()"
    | (marked) "valid_id n" "kv d' = ?s" "r \<noteq> Inr ()"
    | (erase) e where "valid_id n" "kv e = ?s" "erase_namespace n e = (r, d')"
    using assms(1) unfolding unfold
    by (cases rule: validate_id_cases[of n])
      (auto simp: act_bind_def snapshot_def split: prod.splits sum.splits dest: commit_kv commit_Inr)
  then show ?thesis
  proof cases
    case marked
    with gets show ?thesis by simp
  next
    case erase
    from erase_outcome[OF erase(3)] oks erase(2)
    have out: "erased ?P ?s (kv d')" "bt_get (kv d') (deletion_key n) = Some ''delete'' \<or> bare n (kv d')"
      "r = Inr () \<longrightarrow> bare n (kv d')"
      using gets(2) by auto
    from erased_get[OF out(1) oks, of "namespace_key n"] gets(1) have "bt_get (kv d') (namespace_key n) = None"
      by simp
    with out erase(1) show ?thesis by (simp add: clean_bare)
  qed simp
qed

text \<open>A successful delete leaves no key of the namespace in any family: no name, document,
  vector, change record, index generation, counter or marker.\<close>
theorem delete_leaves_nothing:
  assumes "delete_namespace n d = (Inr u, d')" and "bt_ok (kv d)"
  shows "clean n (kv d')"
  using delete_outcome[OF assms] by auto

subsection \<open>Reopening\<close>

lemma resume_outcome:
  assumes "resume_deletions rows d = (r, d')" and "bt_ok (kv d)"
    and "\<forall>k \<in> fst ` set rows. prefix ''z/'' k \<and> valid_id (drop 2 k)"
    and "valid_id m"
  shows "bt_ok (kv d')
    \<and> (deletion_key m \<notin> fst ` set rows \<longrightarrow> agree_on m (kv d) (kv d'))
    \<and> erased (\<lambda>k. \<exists>n. valid_id n \<and> owned_by n k \<and> k \<noteq> namespace_key n) (kv d) (kv d')
    \<and> (r = Inr () \<and> deletion_key m \<in> fst ` set rows \<longrightarrow> bare m (kv d'))
    \<and> (bt_get (kv d') (deletion_key m) = bt_get (kv d) (deletion_key m) \<or> bare m (kv d'))"
  using assms(1-3)
proof (induction rows arbitrary: d)
  case Nil
  then show ?case by (auto simp: agree_on_def)
next
  case (Cons x rows)
  let ?P = "\<lambda>k. \<exists>n. valid_id n \<and> owned_by n k \<and> k \<noteq> namespace_key n"
  obtain k v where x: "x = (k, v)" by force
  from Cons.prems(3) x obtain nm where k: "valid_id nm" "k = deletion_key nm"
    by (auto simp: deletion_key_def prefix_def)
  have [simp]: "drop 2 (deletion_key nm) = nm" by (simp add: deletion_key_def)
  from Cons.prems(1) have "act_bind (erase_namespace nm) (\<lambda>_. resume_deletions rows) d = (r, d')"
    using k by (simp add: x valid_id_utf8)
  then obtain q e where e: "erase_namespace nm d = (q, e)"
    and rest: "(\<exists>x. q = Inl x \<and> r = Inl x \<and> d' = e) \<or> (q = Inr () \<and> resume_deletions rows e = (r, d'))"
    by (elim act_bind_eq_cases[THEN disjE] exE conjE) (auto simp: act_bind_def)
  note out = erase_outcome[OF e Cons.prems(2)]
  have oke: "bt_ok (kv e)" using out Cons.prems(2) by (auto intro: erased_ok)
  have er: "erased ?P (kv d) (kv e)" using out k(1) by (auto intro: erased_mono)
  have agree: "agree_on m (kv d) (kv e)" if "m \<noteq> nm"
    by (rule erased_agree[OF _ Cons.prems(2) k(1) assms(4) that])
      (use out in \<open>auto intro: erased_mono\<close>)
  have mk: "bt_get (kv e) (deletion_key m) = bt_get (kv d) (deletion_key m) \<or> bare m (kv e)"
    using out agree_on_get(8)[OF agree] by (cases "m = nm") auto
  from rest show ?case
  proof
    assume "\<exists>x. q = Inl x \<and> r = Inl x \<and> d' = e"
    moreover from agree x k(2)
    have "deletion_key m \<notin> fst ` set (x # rows) \<longrightarrow> agree_on m (kv d) (kv e)" by auto
    ultimately show ?thesis using oke er mk by auto
  next
    assume r: "q = Inr () \<and> resume_deletions rows e = (r, d')"
    with Cons.prems(3) have IH: "bt_ok (kv d')"
      "deletion_key m \<notin> fst ` set rows \<longrightarrow> agree_on m (kv e) (kv d')"
      "erased ?P (kv e) (kv d')"
      "r = Inr () \<and> deletion_key m \<in> fst ` set rows \<longrightarrow> bare m (kv d')"
      "bt_get (kv d') (deletion_key m) = bt_get (kv e) (deletion_key m) \<or> bare m (kv d')"
      using Cons.IH[of e] oke by auto
    have stays: "bare m (kv d')" if "bare m (kv e)"
      using that erased_get[OF IH(3) oke] unfolding bare_def by (metis option.distinct(1))
    have "agree_on m (kv d) (kv d')" if "deletion_key m \<notin> fst ` set (x # rows)"
    proof -
      from that x k(2) have "m \<noteq> nm" by auto
      with agree IH(2) that show ?thesis by (simp add: agree_on_def)
    qed
    moreover have "bare m (kv d')" if "r = Inr ()" "deletion_key m \<in> fst ` set (x # rows)"
    proof (cases "m = nm")
      case True
      with out r stays show ?thesis by blast
    next
      case False
      with that(2) x k(2) have "deletion_key m \<in> fst ` set rows" by auto
      with IH(4) that(1) show ?thesis by blast
    qed
    moreover have "bt_get (kv d') (deletion_key m) = bt_get (kv d) (deletion_key m) \<or> bare m (kv d')"
      using IH(5) mk stays by auto
    ultimately show ?thesis using IH(1,3) er by (blast intro: erased_trans)
  qed
qed


definition markers_ok :: "store \<Rightarrow> bool" where
  "markers_ok s \<longleftrightarrow> list_all (\<lambda>(k, _). valid_id (drop 2 k)) (scan_prefix ''z/'' s)"

lemma markers_ok_iff:
  "bt_ok s \<Longrightarrow> markers_ok s \<longleftrightarrow> (\<forall>k. prefix ''z/'' k \<and> bt_get s k \<noteq> None \<longrightarrow> valid_id (drop 2 k))"
proof -
  assume ok: "bt_ok s"
  have "markers_ok s \<longleftrightarrow> (\<forall>k \<in> fst ` set (scan_prefix ''z/'' s). valid_id (drop 2 k))"
    by (simp add: markers_ok_def list_all_iff case_prod_unfold)
  also have "\<dots> \<longleftrightarrow> (\<forall>k. prefix ''z/'' k \<and> bt_get s k \<noteq> None \<longrightarrow> valid_id (drop 2 k))"
    by (simp only: Ball_def scan_prefix_keys[OF ok])
  finally show ?thesis .
qed

lemma deletion_key_marker [simp]: "prefix ''z/'' (deletion_key n)" "drop 2 (deletion_key n) = n"
  by (simp_all add: deletion_key_def)

lemma marker_in_scan:
  "bt_ok s \<Longrightarrow> deletion_key m \<in> fst ` set (scan_prefix ''z/'' s) \<longleftrightarrow> bt_get s (deletion_key m) \<noteq> None"
  by (subst scan_prefix_keys) simp_all

text \<open>What opening does to the store that a stopped process left: every marked namespace is
  emptied, every other one is untouched.\<close>

lemma resume_all_outcome:
  assumes "resume_all_deletions d = (r, d')" "bt_ok (kv d)" "markers_ok (kv d)" "valid_id m"
  shows "bt_ok (kv d')"
    and "bt_get (kv d) (deletion_key m) = None \<Longrightarrow> agree_on m (kv d) (kv d')"
    and "erased (\<lambda>k. \<exists>n. valid_id n \<and> owned_by n k \<and> k \<noteq> namespace_key n) (kv d) (kv d')"
    and "r = Inr () \<Longrightarrow> bt_get (kv d) (deletion_key m) \<noteq> None \<Longrightarrow> bare m (kv d')"
    and "bt_get (kv d') (deletion_key m) = bt_get (kv d) (deletion_key m) \<or> bare m (kv d')"
proof -
  have "\<forall>k \<in> fst ` set (scan_prefix ''z/'' (kv d)). prefix ''z/'' k \<and> valid_id (drop 2 k)"
    using assms(2,3) by (auto simp: markers_ok_def list_all_iff scan_prefix_iff)
  from resume_outcome[OF assms(1)[unfolded resume_all_deletions_def] assms(2) this assms(4)]
  show "bt_ok (kv d')"
    "bt_get (kv d) (deletion_key m) = None \<Longrightarrow> agree_on m (kv d) (kv d')"
    "erased (\<lambda>k. \<exists>n. valid_id n \<and> owned_by n k \<and> k \<noteq> namespace_key n) (kv d) (kv d')"
    "r = Inr () \<Longrightarrow> bt_get (kv d) (deletion_key m) \<noteq> None \<Longrightarrow> bare m (kv d')"
    "bt_get (kv d') (deletion_key m) = bt_get (kv d) (deletion_key m) \<or> bare m (kv d')"
    by (simp_all add: marker_in_scan[OF assms(2)])
qed

definition reopen :: "fault list \<Rightarrow> unit act" where
  "reopen fs d = resume_all_deletions (d\<lparr>closed := False, faults := fs\<rparr>)"

lemma namespace_not_erased:
  "erased (\<lambda>k. \<exists>n. valid_id n \<and> owned_by n k \<and> k \<noteq> namespace_key n) s t \<Longrightarrow> bt_ok s \<Longrightarrow> valid_id m \<Longrightarrow>
    bt_get t (namespace_key m) = bt_get s (namespace_key m)"
  by (drule (1) erased_get[of _ _ _ "namespace_key m"])
    (metis (mono_tags, lifting) owned_by_disjoint owned_by_own(4))

lemma delete_step:
  assumes "delete_namespace n d = (r, d')" and "bt_ok (kv d)"
  shows "kv d' = kv d \<or>
    (valid_id n \<and> erased (\<lambda>k. owned_by n k \<and> k \<noteq> namespace_key n) (apply_batch (intent n) (kv d)) (kv d'))"
  using delete_outcome[OF assms] by blast

lemma delete_agree:
  assumes "delete_namespace n d = (r, d')" "bt_ok (kv d)" "valid_id m" "m \<noteq> n"
  shows "agree_on m (kv d) (kv d')"
  using delete_step[OF assms(1,2)]
proof (elim disjE conjE)
  let ?s = "apply_batch (intent n) (kv d)"
  assume er: "erased (\<lambda>k. owned_by n k \<and> k \<noteq> namespace_key n) ?s (kv d')" and n: "valid_id n"
  have "agree_on m (kv d) ?s"
    by (rule agree_on_batch[OF assms(2) n]) (use assms(3,4) in \<open>auto simp: intent_def\<close>)
  moreover have "agree_on m ?s (kv d')"
    by (rule erased_agree[OF _ _ n]) (use assms er in \<open>auto intro: erased_mono\<close>)
  ultimately show ?thesis by (simp add: agree_on_def)
qed (simp add: agree_on_def)

lemma delete_markers_ok:
  assumes "delete_namespace n d = (r, d')" "bt_ok (kv d)" "markers_ok (kv d)"
  shows "bt_ok (kv d') \<and> markers_ok (kv d')"
  using delete_step[OF assms(1,2)]
proof (elim disjE conjE)
  let ?P = "\<lambda>k. owned_by n k \<and> k \<noteq> namespace_key n"
  assume n: "valid_id n" and er: "erased ?P (apply_batch (intent n) (kv d)) (kv d')"
  have ok: "bt_ok (apply_batch (intent n) (kv d))" using assms(2) by simp
  have "valid_id (drop 2 k)" if "prefix ''z/'' k" "bt_get (kv d') k \<noteq> None" for k
  proof (cases "k = deletion_key n")
    case False
    with erased_get[OF er ok, of k] that(2) have "bt_get (apply_batch (intent n) (kv d)) k \<noteq> None" by auto
    with False assms(2) have "bt_get (kv d) k \<noteq> None" by (auto simp: intent_def split: if_splits)
    with assms(2,3) that(1) show ?thesis by (simp add: markers_ok_iff)
  qed (use n in simp)
  moreover have "bt_ok (kv d')" using er ok by (rule erased_ok)
  ultimately show ?thesis by (simp add: markers_ok_iff)
qed (use assms in simp_all)

text \<open>C2: A delete that is interrupted anywhere, by a failed commit or a crash, never leaves a
  half-deleted namespace behind: after the next successful open it is either entirely gone or,
  when the intent never became durable, entirely as it was. Other namespaces without a marker
  are unchanged.\<close>
theorem interrupted_delete_resumes:
  assumes "delete_namespace n d = (r, d1)" and "reopen fs d1 = (Inr (), d2)"
    and "bt_ok (kv d)" and "markers_ok (kv d)" and "valid_id n"
    and "bt_get (kv d) (deletion_key n) = None"
  shows "(clean n (kv d2) \<or> agree_on n (kv d) (kv d2))
    \<and> (\<forall>m. valid_id m \<and> m \<noteq> n \<and> bt_get (kv d) (deletion_key m) = None \<longrightarrow> agree_on m (kv d) (kv d2))"
proof (intro conjI allI impI)
  have ok1: "bt_ok (kv d1)" "markers_ok (kv d1)"
    using delete_markers_ok[OF assms(1,3,4)] by simp_all
  note res = resume_all_outcome[OF assms(2)[unfolded reopen_def], simplified, OF ok1]
  show "clean n (kv d2) \<or> agree_on n (kv d) (kv d2)"
    using delete_outcome[OF assms(1,3)]
  proof (elim disjE conjE)
    assume "kv d1 = kv d"
    with res(2)[OF assms(5)] assms(6) show ?thesis by simp
  next
    assume "bt_get (kv d1) (deletion_key n) = Some ''delete''" "bt_get (kv d1) (namespace_key n) = None"
    with res(4)[OF assms(5)] namespace_not_erased[OF res(3)[OF assms(5)] ok1(1) assms(5)]
    show ?thesis by (simp add: clean_bare)
  next
    assume cl: "clean n (kv d1)"
    then have "bt_get (kv d1) (deletion_key n) = None" by (simp add: clean_def)
    with res(2)[OF assms(5)] cl show ?thesis by (simp add: clean_def agree_on_def)
  qed
  fix m
  assume m: "valid_id m \<and> m \<noteq> n \<and> bt_get (kv d) (deletion_key m) = None"
  then have "agree_on m (kv d) (kv d1)" using delete_agree[OF assms(1,3)] by blast
  moreover from this m have "bt_get (kv d1) (deletion_key m) = None" by (simp add: agree_on_def)
  ultimately show "agree_on m (kv d) (kv d2)" using res(2)[of m] m by (simp add: agree_on_def)
qed


subsection \<open>Creating\<close>

lemma scan_prefix_Nil: "bt_ok s \<Longrightarrow> (\<And>k. prefix p k \<Longrightarrow> bt_get s k = None) \<Longrightarrow> scan_prefix p s = []"
  by (rule bt_ok_ext) (simp_all add: bt_get_scan_prefix)

lemma bare_scans:
  assumes "bare n s" "bt_ok s"
  shows "scan_prefix (document_prefix n) s = []" "scan_prefix (vector_prefix n) s = []"
    "scan_prefix (change_prefix n) s = []" "scan_prefix (gen_prefix n) s = []"
proof -
  have none: "bt_get s k = None" if "table_key n k" for k
    using assms(1) that table_key_singles(1)[of n n] by (auto simp: bare_def owned_cases)
  show "scan_prefix (document_prefix n) s = []" "scan_prefix (vector_prefix n) s = []"
    "scan_prefix (change_prefix n) s = []" "scan_prefix (gen_prefix n) s = []"
    by (rule scan_prefix_Nil[OF assms(2)], rule none, simp add: table_key_def)+
qed

lemma bare_gets:
  assumes "bare n s"
  shows "bt_get s (document_key n i) = None" "bt_get s (vector_key n i) = None"
    "bt_get s (change_key n i) = None" "bt_get s (stats_key n) = None" "bt_get s (index_key n) = None"
    "bt_get s (deletion_key n) = None" "bt_get s (staging_key n) = None"
  using assms by (simp_all add: bare_def)

lemma bare_live:
  assumes "bare n s" "bt_ok s" "namespace_at X s n = Inr ns" "ns_name ns = n" "valid_config (ns_conf ns)"
  shows "live_inv X n s \<and> docs_of X s n = (\<lambda>_. None)"
  using assms(3-5) bare_gets[OF assms(1)] bare_scans[OF assms(1,2)]
  by (auto simp: live_inv_def stats_at_def default_stats_def counters_ok_def count_defs tally_def
      changes_ok_def vectors_have_docs_def docs_of_def document_at_def attributes_at_def)

lemma create_outcome:
  assumes "create_namespace X n c d = (r, d')"
  shows "kv d' = kv d \<or> (valid_id n \<and> valid_config c \<and> bt_get (kv d) (namespace_key n) = None
    \<and> kv d' = apply_batch [Put (namespace_key n) (enc_ns X \<lparr>ns_name = n, ns_conf = c\<rparr>)] (kv d))"
proof -
  obtain e where "validate_id n = Inr () \<and> valid_id n \<or> validate_id n = Inl e" by (cases rule: validate_id_cases[of n]) auto
  moreover obtain f where "validate_config c = Inr () \<and> valid_config c \<or> validate_config c = Inl f"
    by (cases "validate_config c") auto
  ultimately show ?thesis
    using assms
    by (auto simp: create_namespace_def act_bind_def snapshot_def Let_def simp del: apply_batch_simps
        split: prod.splits sum.splits option.splits dest: commit_kv)
qed

lemma create_Inr:
  assumes "create_namespace X n c d = (Inr ns, d')" "json_codec X" "bt_ok (kv d)"
  shows "valid_id n" "valid_config c" "ns_conf ns = c" "\<not> closed d'"
    "namespace_at X (kv d') n = Inr ns"
    "bt_get (kv d) (namespace_key n) = None \<Longrightarrow> ns_name ns = n"
    "bt_get (kv d) (namespace_key n) \<noteq> None \<Longrightarrow> d' = d"
    "k \<noteq> namespace_key n \<Longrightarrow> bt_get (kv d') k = bt_get (kv d) k"
proof -
  have val: "valid_id n" "valid_config c" "check_ready d = Inr ()"
    using assms(1) by (auto simp: create_namespace_def act_bind_Inr_iff snapshot_Inr)
  note simps = create_namespace_def act_bind_Inr_iff snapshot_Inr val namespace_at_def Let_def
  show "valid_id n" "valid_config c" by (rule val)+
  have "\<not> closed d" using val(3) by (simp add: check_ready_def split: if_splits)
  then show "ns_conf ns = c" "\<not> closed d'" "namespace_at X (kv d') n = Inr ns"
    "bt_get (kv d) (namespace_key n) = None \<Longrightarrow> ns_name ns = n"
    "bt_get (kv d) (namespace_key n) \<noteq> None \<Longrightarrow> d' = d"
    "k \<noteq> namespace_key n \<Longrightarrow> bt_get (kv d') k = bt_get (kv d) k"
    using assms by (auto simp: simps split: option.splits if_splits dest!: commit_Inr)
qed

text \<open>Creating a namespace that left no trace makes it live, empty and with zero counters, under
  the given configuration; creating it again with the same configuration returns it and changes
  nothing, and with another configuration is a conflict.\<close>
theorem create_namespace_spec:
  assumes "create_namespace X n c d = (Inr ns, d')" and "clean n (kv d)" and "bt_ok (kv d)"
    and "json_codec X" and "bt_get (kv d) FORMAT_KEY = Some FORMAT"
  shows "ns = \<lparr>ns_name = n, ns_conf = c\<rparr> \<and> serves X n d' \<and> docs_of X (kv d') n = (\<lambda>_. None)
    \<and> stats_at X (kv d') n = Inr default_stats
    \<and> create_namespace X n c' d' =
        (if validate_config c' \<noteq> Inr () then Inl (projl (validate_config c'))
         else if c' = c then Inr ns else Inl (Conflict ''namespace configuration is immutable''), d')"
proof -
  note cr = create_Inr[OF assms(1,4,3)]
  have none: "bt_get (kv d) (namespace_key n) = None" using assms(2) by (simp add: clean_def)
  from create_outcome[OF assms(1)] have ok: "bt_ok (kv d')" using assms(3) by auto
  have ns: "ns = \<lparr>ns_name = n, ns_conf = c\<rparr>" using cr(3) cr(6)[OF none] by simp
  have bare: "bare n (kv d')" using cr(8) assms(2) by (auto simp: bare_def clean_def)
  have open': "\<not> closed d'" "bt_get (kv d') FORMAT_KEY = Some FORMAT"
    using cr(4) cr(8)[of FORMAT_KEY] assms(5) by simp_all
  from cr(5) obtain v where v: "bt_get (kv d') (namespace_key n) = Some v" "dec_ns X v = Some ns"
    by (auto simp: namespace_at_def)
  have again: "create_namespace X n c' d' =
      (if validate_config c' \<noteq> Inr () then Inl (projl (validate_config c'))
       else if c' = c then Inr ns else Inl (Conflict ''namespace configuration is immutable''), d')"
  proof (cases "validate_config c'")
    case (Inl e)
    then show ?thesis by (simp add: create_namespace_def act_bind_def cr(1))
  next
    case (Inr u)
    then show ?thesis
      using v open' ns by (simp add: create_namespace_def act_bind_def snapshot_def check_ready_def cr(1,2))
  qed
  show ?thesis
    using bare_live[OF bare ok cr(5)] cr(2) ns ok again bare_gets(4)[OF bare]
    by (auto simp: serves_def stats_at_def)
qed

text \<open>C39: Known defect: when the erasure of a delete fails and the server keeps running, its marker
  stays, creation does not look at it, and the next open erases every document acknowledged in
  the re-created namespace.\<close>
theorem recreated_after_failed_delete_is_erased:
  assumes "delete_namespace n d = (Inl e, d1)" and "bt_get (kv d1) (deletion_key n) \<noteq> None"
    and "create_namespace X n c d1 = (Inr ns, d2)" and "engine_write X lim n req d2 = (Inr w, d3)"
    and "reopen fs d3 = (Inr (), d4)" and "bt_ok (kv d)" and "markers_ok (kv d)"
    and "json_codec X"
  shows "docs_of X (kv d4) n i = None"
proof -
  have ok1: "bt_ok (kv d1)" "markers_ok (kv d1)" using delete_markers_ok[OF assms(1,6,7)] by simp_all
  note cr = create_Inr[OF assms(3,8) ok1(1)]
  from create_outcome[OF assms(3)] ok1 have ok2: "bt_ok (kv d2)" by auto
  obtain st' b where w: "prepare_write X lim n req (kv d2) = Inr (st', b)" "kv d3 = apply_batch b (kv d2)"
    using assms(4) by (rule engine_write_Inr)
  have ok3: "bt_ok (kv d3)" using ok2 w by simp
  have keep: "bt_get (kv d3) k = bt_get (kv d1) k" if "prefix ''z/'' k" for k
  proof -
    have "k \<notin> op_key ` set b"
      using w(1) write_ops_keys[of _ X n "revision st'" req] that
      by (elim prepare_write_Inr) (fastforce simp: item_keys_def key_defs)
    moreover have "k \<noteq> namespace_key n" using that by (auto simp: key_defs)
    ultimately show ?thesis using cr(8)[of k] w(2) ok2 by (simp add: get_apply_batch_other)
  qed
  have m3: "markers_ok (kv d3)" using ok1(2) keep
    unfolding markers_ok_iff[OF ok3] markers_ok_iff[OF ok1(1)] by metis
  note res = resume_all_outcome(4)[OF assms(5)[unfolded reopen_def], simplified, OF ok3 m3]
  have "bare n (kv d4)" using res[OF cr(1)] keep[of "deletion_key n"] assms(2) by simp
  from bare_gets(1)[OF this] show ?thesis by (simp add: docs_of_def document_at_def attributes_at_def)
qed


subsection \<open>With working storage everything completes\<close>

definition reliable :: "db \<Rightarrow> bool" where
  "reliable d \<longleftrightarrow> \<not> closed d \<and> faults d = []"

definition completes :: "'a act \<Rightarrow> bool" where
  "completes m \<longleftrightarrow> (\<forall>d. reliable d \<longrightarrow> (\<exists>a d'. m d = (Inr a, d') \<and> reliable d'))"

lemma completes_ret [simp]: "completes (act_ret a)"
  by (simp add: completes_def)

lemma completes_commit [simp]: "completes (commit b)"
  by (simp add: completes_def reliable_def)

lemma completes_bind: "completes m \<Longrightarrow> (\<And>a. completes (f a)) \<Longrightarrow> completes (act_bind m f)"
  unfolding completes_def by (fastforce simp: act_bind_Inr_iff)

lemma completes_commit_all: "completes (commit_all bs)"
  by (induction bs) (auto intro: completes_bind simp del: act_simps)

lemma completes_erase_table: "completes (erase_table p)"
  using completes_commit_all unfolding completes_def erase_table_def by blast

lemma completes_act_for: "(\<And>x. completes (f x)) \<Longrightarrow> completes (act_for f xs)"
  by (induction xs) (auto intro: completes_bind simp del: act_simps)

lemma completes_erase: "completes (erase_namespace n)"
  unfolding erase_namespace_def
  by (intro completes_bind completes_act_for completes_erase_table completes_commit completes_ret)

lemma completes_resume:
  "\<forall>k \<in> fst ` set rows. valid_id (drop 2 k) \<Longrightarrow> completes (resume_deletions rows)"
  by (induction rows rule: resume_deletions.induct)
    (auto simp: valid_id_utf8 intro!: completes_bind completes_erase simp del: act_simps)

text \<open>C38: With working storage, deleting a valid name always completes (also for a namespace that
  does not exist), and so does the resumption of every deletion at open.\<close>
theorem delete_completes:
  assumes "reliable d" and "check_ready d = Inr ()" and "valid_id n" and "markers_ok (kv d)"
  shows "(\<exists>d'. delete_namespace n d = (Inr (), d') \<and> reliable d') \<and> (\<exists>d'. reopen [] d = (Inr (), d') \<and> reliable d')"
proof
  have "completes (act_bind (commit (intent n)) (\<lambda>_. erase_namespace n))"
    by (intro completes_bind completes_commit completes_erase)
  with assms(1) obtain d' where d': "act_bind (commit (intent n)) (\<lambda>_. erase_namespace n) d = (Inr (), d')" "reliable d'"
    unfolding completes_def by auto
  have "delete_namespace n d = act_bind (commit (intent n)) (\<lambda>_. erase_namespace n) d"
    using assms(2,3) by (simp add: delete_namespace_def intent_def act_bind_def snapshot_def)
  with d' show "\<exists>d'. delete_namespace n d = (Inr (), d') \<and> reliable d'" by simp
  have "completes (resume_deletions (scan_prefix ''z/'' (kv d)))"
    by (rule completes_resume) (use assms(4) in \<open>auto simp: markers_ok_def list_all_iff\<close>)
  moreover have "reliable (d\<lparr>closed := False, faults := []\<rparr>)" by (simp add: reliable_def)
  ultimately obtain e where "resume_deletions (scan_prefix ''z/'' (kv d)) (d\<lparr>closed := False, faults := []\<rparr>) = (Inr (), e)"
    "reliable e" unfolding completes_def by auto
  then show "\<exists>d'. reopen [] d = (Inr (), d') \<and> reliable d'"
    by (auto simp: reopen_def resume_all_deletions_def)
qed

end
