(* ===== verification/Pages.thy ===== *)
theory Pages
  imports Documents
begin

section \<open>Pagination: following the cursors visits every document once, in order\<close>

text \<open>
  \<open>list_documents\<close> returns at most \<open>limit\<close> rows after the cursor and, when more follow, the last
  ID as the next cursor. \<open>walk\<close> is the client's loop over the cursors; on an unchanged
  database it returns every document exactly once in ID order, whatever the page size.
\<close>

subsection \<open>One page\<close>

lemma collect_page_decodes:
  assumes "\<forall>x \<in> set rows. dec (snd x) = Some (g x)" and "length acc \<le> limit"
  shows "collect_page dec ident limit acc rows =
    (let found = acc @ map g (take (limit - length acc) rows) in
     Inr \<lparr>items = found,
          next_cursor = (if limit - length acc < length rows \<and> found \<noteq> []
                         then Some (ident (last found)) else None)\<rparr>)"
  using assms
proof (induction rows arbitrary: acc)
  case Nil
  then show ?case by simp
next
  case (Cons x rows)
  obtain k v where x: "x = (k, v)" by force
  show ?case
  proof (cases "length acc = limit")
    case True
    with x show ?thesis by (simp add: Let_def)
  next
    case False
    then obtain m where m: "limit - length acc = Suc m" using Cons.prems(2) by (metis diff_is_0_eq le_antisym not0_implies_Suc)
    moreover from m have "limit - length (acc @ [g x]) = m" by simp
    ultimately show ?thesis using Cons x False by (simp add: Let_def)
  qed
qed

subsection \<open>Rows of the document table\<close>

text \<open>Every stored document decodes, under its own ID, and so does its vector.\<close>

definition row_fine :: "ext \<Rightarrow> string \<Rightarrow> store \<Rightarrow> string \<times> bytes \<Rightarrow> bool" where
  "row_fine X n s row =
     (case dec_doc X (snd row) of
        None \<Rightarrow> False
      | Some doc \<Rightarrow> fst row = document_key n (doc_id doc) \<and> valid_id (doc_id doc)
          \<and> (case vector_at X s n (doc_id doc) of Inl _ \<Rightarrow> False | Inr _ \<Rightarrow> True))"

definition docs_fine :: "ext \<Rightarrow> string \<Rightarrow> store \<Rightarrow> bool" where
  "docs_fine X n s \<longleftrightarrow> list_all (row_fine X n s) (scan_prefix (document_prefix n) s)"

definition row_doc :: "ext \<Rightarrow> string \<Rightarrow> store \<Rightarrow> string \<times> bytes \<Rightarrow> document" where
  "row_doc X n s row =
     (let doc = the (dec_doc X (snd row)) in doc\<lparr>vector := projr (vector_at X s n (doc_id doc))\<rparr>)"

lemma row_fine_doc:
  assumes "row_fine X n s (k, v)"
  obtains doc w where "dec_doc X v = Some doc" "k = document_key n (doc_id doc)" "valid_id (doc_id doc)"
    "vector_at X s n (doc_id doc) = Inr w" "row_doc X n s (k, v) = doc\<lparr>vector := w\<rparr>"
  using assms by (auto simp: row_fine_def row_doc_def split: option.splits sum.splits)

text \<open>The listing of a namespace: its rows in key order, decoded.\<close>

definition listing :: "ext \<Rightarrow> string \<Rightarrow> store \<Rightarrow> document list" where
  "listing X n s = map (row_doc X n s) (scan_prefix (document_prefix n) s)"

lemma listing_ids:
  assumes "docs_fine X n s"
  shows "map (\<lambda>x. drop (length (document_prefix n)) (fst x)) (scan_prefix (document_prefix n) s)
    = map doc_id (listing X n s)"
proof -
  have "drop (length (document_prefix n)) (fst x) = doc_id (row_doc X n s x)"
    if "x \<in> set (scan_prefix (document_prefix n) s)" for x
  proof -
    obtain k v where x: "x = (k, v)" by force
    with that assms have "row_fine X n s (k, v)" by (auto simp: docs_fine_def list_all_iff)
    then show ?thesis by (elim row_fine_doc) (simp add: x document_prefix_key)
  qed
  then show ?thesis by (simp add: listing_def)
qed

lemma listing_sorted:
  assumes "docs_fine X n s" "bt_ok s"
  shows "sorted_wrt (<) (map doc_id (listing X n s))"
proof -
  let ?p = "document_prefix n" and ?rows = "scan_prefix (document_prefix n) s"
  have "sorted_wrt (\<lambda>x y. fst x < fst y) ?rows"
    using assms(2) bt_ok_scan_prefix[of s ?p] by (simp add: bt_ok_def sorted_wrt_map)
  moreover have "drop (length ?p) (fst x) < drop (length ?p) (fst y)"
    if "x \<in> set ?rows" "y \<in> set ?rows" "fst x < fst y" for x y
  proof -
    from that(1,2) obtain i j where "fst x = ?p @ i" "fst y = ?p @ j"
      by (auto simp: scan_prefix_def prefix_def)
    with that(3) show ?thesis by (simp add: list_less_append_same)
  qed
  ultimately have "sorted_wrt (\<lambda>x y. drop (length ?p) (fst x) < drop (length ?p) (fst y)) ?rows"
    by (rule sorted_wrt_mono_rel[rotated])
  then show ?thesis by (simp add: sorted_wrt_map flip: listing_ids[OF assms(1)])
qed

lemma listing_docs:
  assumes "docs_fine X n s" "bt_ok s"
  shows "doc \<in> set (listing X n s) \<longleftrightarrow> docs_of X s n (doc_id doc) = Some doc"
proof
  assume "doc \<in> set (listing X n s)"
  then obtain k v where kv: "(k, v) \<in> set (scan_prefix (document_prefix n) s)" "doc = row_doc X n s (k, v)"
    by (auto simp: listing_def)
  with assms(1) have "row_fine X n s (k, v)" by (auto simp: docs_fine_def list_all_iff)
  with kv show "docs_of X s n (doc_id doc) = Some doc"
    by (elim row_fine_doc)
      (simp add: docs_of_def document_at_def attributes_at_def scan_prefix_iff[OF assms(2)])
next
  assume a: "docs_of X s n (doc_id doc) = Some doc"
  then obtain v where v: "bt_get s (document_key n (doc_id doc)) = Some v"
    by (auto simp: docs_of_def document_at_def attributes_at_def split: sum.splits option.splits)
  then have mem: "(document_key n (doc_id doc), v) \<in> set (scan_prefix (document_prefix n) s)"
    by (simp add: scan_prefix_iff[OF assms(2)] document_prefix_key)
  with assms(1) have "row_fine X n s (document_key n (doc_id doc), v)"
    by (auto simp: docs_fine_def list_all_iff)
  then obtain d w where d: "dec_doc X v = Some d" "doc_id doc = doc_id d"
    "vector_at X s n (doc_id d) = Inr w" "row_doc X n s (document_key n (doc_id doc), v) = d\<lparr>vector := w\<rparr>"
    by (elim row_fine_doc) (auto simp: document_prefix_key)
  with a v have "doc = d\<lparr>vector := w\<rparr>"
    by (simp add: docs_of_def document_at_def attributes_at_def)
  with mem d(4) show "doc \<in> set (listing X n s)" unfolding listing_def by force
qed


subsection \<open>A page of documents\<close>

definition after_cursor :: "string option \<Rightarrow> document list \<Rightarrow> document list" where
  "after_cursor a docs = filter (\<lambda>doc. case a of None \<Rightarrow> True | Some x \<Rightarrow> x < doc_id doc) docs"

definition page_of :: "nat \<Rightarrow> document list \<Rightarrow> document page" where
  "page_of limit docs = \<lparr>items = take limit docs,
     next_cursor = (if limit < length docs then Some (doc_id (docs ! (limit - 1))) else None)\<rparr>"

lemma row_fine_id:
  "row_fine X n s x \<Longrightarrow> drop (length (document_prefix n)) (fst x) = doc_id (row_doc X n s x)"
  by (cases x) (auto elim!: row_fine_doc simp: document_prefix_key)

lemma page_rows_listing:
  assumes "docs_fine X n s"
  shows "map (row_doc X n s) (page_rows s (document_prefix n) req) = after_cursor (page_after req) (listing X n s)"
    and "list_all (row_fine X n s) (page_rows s (document_prefix n) req)"
proof -
  have fine: "\<forall>x \<in> set (scan_prefix (document_prefix n) s). row_fine X n s x"
    using assms by (simp add: docs_fine_def list_all_iff)
  then have ids: "drop (length (document_prefix n)) (fst x) = doc_id (row_doc X n s x)"
    if "x \<in> set (scan_prefix (document_prefix n) s)" for x using that row_fine_id by blast
  have "filter (\<lambda>(k, _). case page_after req of None \<Rightarrow> True
        | Some x \<Rightarrow> x < drop (length (document_prefix n)) k) (scan_prefix (document_prefix n) s)
      = filter (\<lambda>r. case page_after req of None \<Rightarrow> True | Some x \<Rightarrow> x < doc_id (row_doc X n s r))
          (scan_prefix (document_prefix n) s)"
    unfolding case_prod_unfold by (intro filter_cong refl) (simp only: ids)
  then show "map (row_doc X n s) (page_rows s (document_prefix n) req) = after_cursor (page_after req) (listing X n s)"
    by (simp add: page_rows_def scan_after_def after_cursor_def listing_def filter_map comp_def)
  show "list_all (row_fine X n s) (page_rows s (document_prefix n) req)"
    using fine by (auto simp: page_rows_def scan_after_def list_all_iff)
qed

lemma page_request_valid: "validate_page req = Inr u \<Longrightarrow> 1 \<le> page_limit req"
  by (simp add: validate_page_def split: if_splits)

lemma last_take_nth: "0 < n \<Longrightarrow> n \<le> length xs \<Longrightarrow> last (take n xs) = xs ! (n - 1)"
  by (subst last_conv_nth) (auto simp: min_def)

lemma list_documents_page:
  assumes "validate_page req = Inr ()" "check_ready d = Inr ()" "namespace_at X (kv d) n = Inr ns"
    and "docs_fine X n (kv d)"
  shows "list_documents X n req d =
    (Inr (page_of (page_limit req) (after_cursor (page_after req) (listing X n (kv d)))), d)"
proof -
  let ?rows = "page_rows (kv d) (document_prefix n) req" and ?g = "\<lambda>x :: string \<times> bytes. the (dec_doc X (snd x))"
  let ?f = "\<lambda>doc. doc\<lparr>vector := projr (vector_at X (kv d) n (doc_id doc))\<rparr>"
  note rows = page_rows_listing[OF assms(4), of req]
  have dec: "\<forall>x \<in> set ?rows. dec_doc X (snd x) = Some (?g x)"
    using rows(2) by (auto simp: list_all_iff row_fine_def split: option.splits)
  have vec: "\<exists>w. vector_at X (kv d) n (doc_id (?g x)) = Inr w"
    if "x \<in> set ?rows" for x
  proof -
    from that rows(2) have "row_fine X n (kv d) (fst x, snd x)" by (simp add: list_all_iff)
    then show ?thesis by (elim row_fine_doc) simp
  qed
  have "collect_res (\<lambda>doc. rbind (vector_at X (kv d) n (doc_id doc)) (\<lambda>v. Inr (doc\<lparr>vector := v\<rparr>)))
      (map ?g (take (page_limit req) ?rows)) = Inr (map ?f (map ?g (take (page_limit req) ?rows)))"
  proof (rule collect_res_map)
    fix doc
    assume "doc \<in> set (map ?g (take (page_limit req) ?rows))"
    then obtain x where "x \<in> set ?rows" "doc = ?g x" by (auto dest: in_set_takeD)
    with vec[of x] obtain w where "vector_at X (kv d) n (doc_id doc) = Inr w" by blast
    then show "rbind (vector_at X (kv d) n (doc_id doc)) (\<lambda>v. Inr (doc\<lparr>vector := v\<rparr>)) = Inr (?f doc)"
      by simp
  qed
  moreover have "map ?f (map ?g (take (page_limit req) ?rows)) = take (page_limit req) (map (row_doc X n (kv d)) ?rows)"
    by (simp add: take_map row_doc_def comp_def Let_def)
  moreover have "doc_id (?g x) = doc_id (row_doc X n (kv d) x)" for x
    by (simp add: row_doc_def Let_def)
  then have "doc_id (last (map ?g (take (page_limit req) ?rows))) =
      doc_id (map (row_doc X n (kv d)) ?rows ! (page_limit req - 1))"
    if "page_limit req < length ?rows"
    using that page_request_valid[OF assms(1)] by (simp add: last_take_nth flip: take_map)
  ultimately show ?thesis
    using page_request_valid[OF assms(1)] assms(1-3)
    by (auto simp: list_documents_def act_bind_def snapshot_def add_vectors_def page_of_def Let_def
        collect_page_decodes[OF dec] simp flip: rows(1))
qed

subsection \<open>The client's loop\<close>

fun walk :: "ext \<Rightarrow> string \<Rightarrow> nat \<Rightarrow> nat \<Rightarrow> string option \<Rightarrow> db \<Rightarrow> document list option" where
  "walk X n limit fuel after d =
     (case list_documents X n \<lparr>page_limit = limit, page_after = after\<rparr> d of
        (Inl _, _) \<Rightarrow> None
      | (Inr p, _) \<Rightarrow>
          (case next_cursor p of
             None \<Rightarrow> Some (items p)
           | Some c \<Rightarrow> (case fuel of 0 \<Rightarrow> None
               | Suc k \<Rightarrow> map_option (append (items p)) (walk X n limit k (Some c) d))))"

declare walk.simps [simp del]

lemma after_cursor_split:
  assumes "sorted_wrt (<) (map doc_id docs)" "docs = xs @ y # ys"
  shows "after_cursor (Some (doc_id y)) docs = ys"
proof -
  have "doc_id y < doc_id z" if "z \<in> set ys" for z using assms that by (simp add: sorted_wrt_append)
  moreover have "\<not> doc_id y < doc_id z" if "z \<in> set xs" for z
    using assms that by (auto simp: sorted_wrt_append dest: order.asym)
  ultimately show ?thesis by (simp add: after_cursor_def assms(2) filter_empty_conv)
qed

lemma walk_suffix:
  assumes "1 \<le> limit" "limit \<le> 1000" "check_ready d = Inr ()" "namespace_at X (kv d) n = Inr ns"
    and "docs_fine X n (kv d)" "bt_ok (kv d)"
    and "listing X n (kv d) = done @ rest" "after_cursor after (listing X n (kv d)) = rest"
    and "case after of None \<Rightarrow> True | Some a \<Rightarrow> valid_id a" "length rest \<le> fuel"
  shows "walk X n limit fuel after d = Some rest"
  using assms(7-)
proof (induction fuel arbitrary: "done" rest after)
  case 0
  have "validate_page \<lparr>page_limit = limit, page_after = after\<rparr> = Inr ()"
    using 0(3) assms(1,2) by (auto simp: validate_page_def MAX_PAGE_SIZE_def split: option.splits)
  from list_documents_page[OF this assms(3-5)] 0 show ?case
    by (subst walk.simps) (simp add: page_of_def)
next
  case (Suc fuel)
  have "validate_page \<lparr>page_limit = limit, page_after = after\<rparr> = Inr ()"
    using Suc(4) assms(1,2) by (auto simp: validate_page_def MAX_PAGE_SIZE_def split: option.splits)
  note page = list_documents_page[OF this assms(3-5)]
  show ?case
  proof (cases "limit < length rest")
    case False
    with page Suc.prems show ?thesis by (subst walk.simps) (simp add: page_of_def)
  next
    case True
    let ?y = "rest ! (limit - 1)"
    have split: "rest = take (limit - 1) rest @ ?y # drop limit rest"
      using True assms(1) id_take_nth_drop[of "limit - 1" rest] by simp
    have list: "listing X n (kv d) = (done @ take (limit - 1) rest) @ ?y # drop limit rest"
      using Suc.prems(1) split by simp
    have next_rest: "after_cursor (Some (doc_id ?y)) (listing X n (kv d)) = drop limit rest"
      using listing_sorted[OF assms(5,6)] list by (rule after_cursor_split)
    have "?y \<in> set (listing X n (kv d))" by (subst list) simp
    then have "valid_id (doc_id ?y)"
      using assms(5) by (auto simp: listing_def docs_fine_def list_all_iff elim!: row_fine_doc)
    with Suc.IH[of "(done @ take (limit - 1) rest) @ [?y]" "drop limit rest" "Some (doc_id ?y)"]
    have "walk X n limit fuel (Some (doc_id ?y)) d = Some (drop limit rest)"
      using list next_rest Suc.prems(4) assms(1) True by simp
    with page Suc.prems True show ?thesis by (subst walk.simps) (simp add: page_of_def)
  qed
qed

text \<open>C31: Following the cursors of the document listing enumerates every document of the namespace
  exactly once, in increasing order of ID, for every page size, and needs no more pages than
  there are documents.\<close>
theorem pages_enumerate:
  assumes "1 \<le> limit" and "limit \<le> 1000" and "check_ready d = Inr ()" and "serves X n d"
    and "docs_fine X n (kv d)"
  shows "\<exists>docs. walk X n limit (length (scan_prefix (document_prefix n) (kv d))) None d = Some docs
    \<and> sorted_wrt (<) (map doc_id docs)
    \<and> (\<forall>doc. doc \<in> set docs \<longleftrightarrow> docs_of X (kv d) n (doc_id doc) = Some doc)"
proof -
  from assms(4) obtain ns where ns: "namespace_at X (kv d) n = Inr ns" and ok: "bt_ok (kv d)"
    by (auto simp: serves_def live_inv_def)
  have "walk X n limit (length (scan_prefix (document_prefix n) (kv d))) None d = Some (listing X n (kv d))"
    using walk_suffix[OF assms(1-3) ns assms(5) ok, of "[]" "listing X n (kv d)" None]
    by (simp add: after_cursor_def listing_def)
  with listing_sorted[OF assms(5) ok] listing_docs[OF assms(5) ok] show ?thesis by blast
qed


subsection \<open>Writes keep the table readable\<close>

lemma docs_fine_iff:
  assumes "bt_ok s"
  shows "docs_fine X n s \<longleftrightarrow> (\<forall>i v. bt_get s (document_key n i) = Some v \<longrightarrow> row_fine X n s (document_key n i, v))"
proof
  assume a: "\<forall>i v. bt_get s (document_key n i) = Some v \<longrightarrow> row_fine X n s (document_key n i, v)"
  have "row_fine X n s (k, v)" if "(k, v) \<in> set (scan_prefix (document_prefix n) s)" for k v
  proof -
    from that have "prefix (document_prefix n) k" "bt_get s k = Some v" by (simp_all add: scan_prefix_iff[OF assms])
    moreover from this(1) obtain i where "k = document_key n i" by (auto simp: prefix_def document_prefix_key)
    ultimately show ?thesis using a by blast
  qed
  then show "docs_fine X n s" by (auto simp: docs_fine_def list_all_iff)
next
  assume a: "docs_fine X n s"
  show "\<forall>i v. bt_get s (document_key n i) = Some v \<longrightarrow> row_fine X n s (document_key n i, v)"
  proof (intro allI impI)
    fix i v
    assume "bt_get s (document_key n i) = Some v"
    then have "(document_key n i, v) \<in> set (scan_prefix (document_prefix n) s)"
      by (simp add: scan_prefix_iff[OF assms] document_prefix_key)
    with a show "row_fine X n s (document_key n i, v)" by (auto simp: docs_fine_def list_all_iff)
  qed
qed

lemma write_row_fine:
  assumes ok: "bt_ok s" and req: "request_ok n req" and prep: "prepare_write X lim n req s = Inr (st', b)"
    and live: "live_inv X n s" and json: "json_codec X" and fine: "docs_fine X n s"
    and stored: "\<forall>doc \<in> set (upsert req). stored_exactly X doc"
    and v: "bt_get (apply_batch b s) (document_key n i) = Some v"
  shows "row_fine X n (apply_batch b s) (document_key n i, v)"
proof -
  have b: "b = write_commit X n st' req" using live_inv_write[OF live ok req json prep] by blast
  have n: "valid_id n" "distinct (map fst (write_items req))" using req by (simp_all add: request_ok_def)
  note get = write_commit_get[OF ok req] write_ops_get[OF ok req]
  show ?thesis
  proof (cases "map_of (write_items req) i")
    case None
    then have same: "bt_get (apply_batch b s) (document_key n i) = bt_get s (document_key n i)"
      "vector_at X (apply_batch b s) n i = vector_at X s n i"
      by (simp_all add: vector_at_def b get)
    with v fine have "row_fine X n s (document_key n i, v)" by (simp add: docs_fine_iff[OF ok])
    then show ?thesis
      by (elim row_fine_doc) (use n(1) same(2) in \<open>auto simp: row_fine_def\<close>)
  next
    case (Some new)
    with v obtain doc where doc: "new = Some doc" "v = enc_doc X (doc\<lparr>vector := None\<rparr>)"
      by (cases new) (auto simp: b get item_value_def)
    with Some have f: "find_doc i (upsert req) = Some doc" "i \<notin> set (delete_ids req)"
      by (auto simp: map_of_write_items[OF n(2)] split: if_splits)
    note mem = find_doc_mem[OF f(1)]
    from Some have "(i, new) \<in> set (write_items req)" by (rule map_of_SomeD)
    with req have "valid_id i" by (force simp: request_ok_def)
    moreover have "dec_doc X v = Some (doc\<lparr>vector := None\<rparr>)"
      using stored mem doc(2) by (simp add: stored_exactly_def)
    moreover have "\<exists>w. vector_at X (apply_batch b s) n i = Inr w"
    proof (cases "vector doc")
      case None
      with Some doc show ?thesis by (simp add: vector_at_def b get item_value_def)
    next
      case v: (Some x)
      with write_vectors_valid[OF prep live] mem
      have "decode_vector (crc32 X) (encode_vector (crc32 X) x) = Inr x" by blast
      with v Some doc show ?thesis by (simp add: vector_at_def b get item_value_def)
    qed
    ultimately show ?thesis using mem by (auto simp: row_fine_def)
  qed
qed

text \<open>C40: Writes keep every stored document readable: after any outcome each row of the document
  table still decodes to a document with its own valid ID, and its vector passes its checksum.\<close>
theorem write_keeps_readable:
  assumes "engine_write X lim n req d = (r, d')" and "serves X n d" and "docs_fine X n (kv d)"
    and "json_codec X" and "\<forall>doc \<in> set (upsert req). stored_exactly X doc"
  shows "docs_fine X n (kv d')"
  using engine_write_kv[OF assms(1)]
proof (elim disjE exE conjE)
  fix st' b
  assume w: "request_ok n req" "prepare_write X lim n req (kv d) = Inr (st', b)" "kv d' = apply_batch b (kv d)"
  have ok: "bt_ok (kv d)" "bt_ok (kv d')" using assms(2) w(3) by (simp_all add: serves_def)
  have "live_inv X n (kv d)" using assms(2) by (simp add: serves_def)
  from write_row_fine[OF ok(1) w(1,2) this assms(4,3,5)] show ?thesis
    unfolding docs_fine_iff[OF ok(2)] unfolding w(3) by blast
qed (use assms(3) in simp)

end
