(* ===== verification/Rebuild.thy ===== *)
theory Rebuild
  imports Deletion Pages Index
begin

section \<open>Rebuilding an index and retiring the old one (engine.rs)\<close>

text \<open>
  A rebuild reads one snapshot, stages the new generation in batches of about 1 MiB, and
  publishes it by one put of \<open>i/<name>\<close>; it then retires the keys of every other generation
  and drops the change records that the new index covers. The index mutex is held
  throughout, so rebuilds, cleanups and deletes exclude one another, but writes to the
  same namespace happen in between: only single commits are atomic. The whole procedure is
  \<open>build_index_inner\<close>; \<open>job_step\<close> cuts the same procedure at its commits, and
  \<open>run_job_build\<close> shows that running the steps without interruption is that procedure.
\<close>

subsection \<open>Reading the input\<close>

definition build_row ::
  "ext \<Rightarrow> store \<Rightarrow> string \<Rightarrow> nat \<Rightarrow> string \<times> bytes \<Rightarrow> document list \<times> nat \<Rightarrow> (document list \<times> nat) result"
where
  "build_row X s name budget rw acc =
     (let (docs, used) = acc in
      rbind (ok_or Encoding (dec_doc X (snd rw))) (\<lambda>doc.
      rbind (vector_at X s name (doc_id doc)) (\<lambda>ov.
        let used' = used + length (snd rw) + (case ov of None \<Rightarrow> 0 | Some v \<Rightarrow> length v * 4) + 256 in
        if budget div 8 < used'
        then Inl (Limit ''index input exceeds build memory budget; raise index.max_build_bytes or partition data'')
        else Inr (docs @ [doc\<lparr>vector := ov\<rparr>], used'))))"

definition build_input :: "ext \<Rightarrow> store \<Rightarrow> string \<Rightarrow> nat \<Rightarrow> document list result" where
  "build_input X s name budget =
     rbind (fold_res (build_row X s name budget) (scan_prefix (document_prefix name) s) ([], 0))
       (\<lambda>(docs, _). Inr docs)"

definition plan_build ::
  "ext \<Rightarrow> string \<Rightarrow> index_config \<Rightarrow> string \<Rightarrow> store \<Rightarrow> (index_status \<times> (string \<times> bytes) list) result"
where
  "plan_build X gen conf name s =
     rbind (namespace_at X s name) (\<lambda>ns.
     rbind (stats_at X s name) (\<lambda>st.
     rbind (build_input X s name (max_build_bytes conf)) (\<lambda>docs.
     build X gen name (ns_conf ns) (revision st) docs conf)))"

subsection \<open>Staging\<close>

fun stage_batches :: "nat \<Rightarrow> batch \<Rightarrow> (string \<times> bytes) list \<Rightarrow> batch list" where
  "stage_batches used b [] = (if 0 < used then [b] else [])"
| "stage_batches used b ((k, v) # es) =
     (let used' = used + length k + length v; b' = b @ [Put k v] in
      if 1024 * 1024 \<le> used' then b' # stage_batches 0 [] es else stage_batches used' b' es)"

definition mark_staging :: "string \<Rightarrow> batch" where
  "mark_staging name = [Put (staging_key name) ''cleanup'']"

definition publish :: "ext \<Rightarrow> string \<Rightarrow> index_status \<Rightarrow> batch" where
  "publish X name status = [Put (index_key name) (enc_index X status)]"

definition unmark_staging :: "string \<Rightarrow> batch" where
  "unmark_staging name = [Del (staging_key name)]"

subsection \<open>Cleaning up\<close>

definition retired_keys :: "string \<Rightarrow> index_status \<Rightarrow> store \<Rightarrow> string list" where
  "retired_keys name active s =
     filter (\<lambda>k. \<not> prefix (gen_root name (generation active)) k) (map fst (scan_prefix (gen_prefix name) s))"

definition retire_batches :: "string \<Rightarrow> index_status \<Rightarrow> store \<Rightarrow> batch list" where
  "retire_batches name active s = map (map Del) (chunks 1000 (retired_keys name active s))"

definition covered_changes :: "string \<Rightarrow> index_status \<Rightarrow> store \<Rightarrow> string list result" where
  "covered_changes name active s =
     fold_res (\<lambda>(k, v) keys. rbind (parse_revision v) (\<lambda>r.
         Inr (if r \<le> idx_revision active then keys @ [k] else keys)))
       (scan_prefix (change_prefix name) s) []"

text \<open>One chunk of change records: decided again on the current store, under the commit mutex.\<close>

definition drop_change :: "store \<Rightarrow> u64 \<Rightarrow> string \<Rightarrow> stats \<times> batch \<Rightarrow> (stats \<times> batch) result" where
  "drop_change s watermark key acc =
     (let (st, b) = acc in
      case bt_get s key of
        None \<Rightarrow> Inr (st, b)
      | Some v \<Rightarrow> rbind (parse_revision v) (\<lambda>r.
          if r \<le> watermark
          then Inr (st\<lparr>pending_documents := pending_documents st - 1\<rparr>, b @ [Del key])
          else Inr (st, b)))"

definition drop_plan :: "ext \<Rightarrow> string \<Rightarrow> index_status \<Rightarrow> string list \<Rightarrow> store \<Rightarrow> (stats \<times> batch) result" where
  "drop_plan X name active keys s =
     rbind (stats_at X s name) (\<lambda>st.
     rbind (fold_res (drop_change s (idx_revision active)) keys (st, [])) (\<lambda>(st', b).
     Inr (st', b @ [Put (stats_key name) (enc_stats X st')])))"

definition drop_chunk :: "ext \<Rightarrow> string \<Rightarrow> index_status \<Rightarrow> string list \<Rightarrow> unit act" where
  "drop_chunk X name active keys =
     act_bind (act_read (drop_plan X name active keys)) (\<lambda>(st, b).
     act_bind (commit b) (\<lambda>_. act_ret ()))"

definition cleanup_inner :: "ext \<Rightarrow> string \<Rightarrow> index_status \<Rightarrow> unit act" where
  "cleanup_inner X name active =
     act_bind snapshot (\<lambda>s.
     act_bind (commit_all (retire_batches name active s)) (\<lambda>_.
     act_bind (act_lift (covered_changes name active s)) (\<lambda>keys.
     act_for (drop_chunk X name active) (chunks 1000 keys))))"

subsection \<open>The procedures\<close>

definition build_index_inner :: "ext \<Rightarrow> string \<Rightarrow> index_config \<Rightarrow> string \<Rightarrow> index_status act" where
  "build_index_inner X gen conf name =
     act_bind snapshot (\<lambda>s.
     act_bind (act_lift (plan_build X gen conf name s)) (\<lambda>(status, entries).
     act_bind (commit (mark_staging name)) (\<lambda>_.
     act_bind (commit_all (stage_batches 0 [] entries)) (\<lambda>_.
     act_bind (commit (publish X name status)) (\<lambda>_.
     act_bind (cleanup_inner X name status) (\<lambda>_.
     act_bind (commit (unmark_staging name)) (\<lambda>_. act_ret status)))))))"

definition rebuild_index :: "ext \<Rightarrow> string \<Rightarrow> index_config \<Rightarrow> string \<Rightarrow> index_status act" where
  "rebuild_index X gen conf name =
     act_bind (act_lift (validate_id name)) (\<lambda>_. build_index_inner X gen conf name)"

definition active_index :: "ext \<Rightarrow> store \<Rightarrow> string \<Rightarrow> index_status result" where
  "active_index X s name =
     rbind (index_at X s name) (\<lambda>i. Inr (case i of None \<Rightarrow> default_index | Some st \<Rightarrow> st))"

definition resume_index_cleanup :: "ext \<Rightarrow> string \<Rightarrow> unit act" where
  "resume_index_cleanup X name =
     act_bind (act_read (\<lambda>s. Inr (bt_get s (staging_key name)))) (\<lambda>marker.
       case marker of
         None \<Rightarrow> act_ret ()
       | Some _ \<Rightarrow>
           act_bind snapshot (\<lambda>s.
           act_bind (act_lift (active_index X s name)) (\<lambda>active.
           act_bind (cleanup_inner X name active) (\<lambda>_.
           act_bind (commit (unmark_staging name)) (\<lambda>_. act_ret ())))))"

text \<open>
  One visit of the background indexer to a namespace: a rebuild when changes are pending,
  otherwise a cleanup that an earlier run left; failures are logged and dropped.
\<close>

definition act_ignore :: "'a act \<Rightarrow> unit act" where
  "act_ignore m d = (Inr (), snd (m d))"

definition indexer_visit :: "ext \<Rightarrow> string \<Rightarrow> index_config \<Rightarrow> string \<Rightarrow> unit act" where
  "indexer_visit X gen conf name d =
     (let (r, d1) = get_stats X name d in
      case r of
        Inr st \<Rightarrow> if 0 < pending_documents st then act_ignore (rebuild_index X gen conf name) d1
                  else act_ignore (resume_index_cleanup X name) d1
      | Inl _ \<Rightarrow> act_ignore (resume_index_cleanup X name) d1)"

text \<open>
  One tick of the timer: every page of namespaces in turn, until the cursor ends or a page
  cannot be read. \<open>gens\<close> gives each namespace the identifier drawn for its generation; the
  fuel bounds the number of pages.
\<close>

fun indexer_pass :: "ext \<Rightarrow> (string \<Rightarrow> string) \<Rightarrow> index_config \<Rightarrow> nat \<Rightarrow> page_request \<Rightarrow> unit act" where
  "indexer_pass X gens conf 0 page d = (Inr (), d)"
| "indexer_pass X gens conf (Suc fuel) page d =
     (let (r, d1) = namespaces X page d in
      case r of
        Inl _ \<Rightarrow> (Inr (), d1)
      | Inr found \<Rightarrow>
          (let (_, d2) = act_for (\<lambda>ns. indexer_visit X (gens (ns_name ns)) conf (ns_name ns)) (items found) d1 in
           case next_cursor found of
             None \<Rightarrow> (Inr (), d2)
           | Some cursor \<Rightarrow> indexer_pass X gens conf fuel (page\<lparr>page_after := Some cursor\<rparr>) d2))"

subsection \<open>The same procedures, cut at their commits\<close>

text \<open>
  The program counter of the task that holds the index mutex. \<open>Staging\<close> lists the batches
  still to write before the publication; \<open>Retiring\<close> carries the snapshot of the cleanup.
\<close>

datatype job =
    Staging index_status "batch list"
  | Cleaning index_status
  | Retiring index_status store "batch list"
  | Dropping index_status "string list list"

definition begin_build :: "ext \<Rightarrow> string \<Rightarrow> index_config \<Rightarrow> string \<Rightarrow> job act" where
  "begin_build X gen conf name =
     act_bind snapshot (\<lambda>s.
     act_bind (act_lift (plan_build X gen conf name s)) (\<lambda>(status, entries).
     act_ret (Staging status (mark_staging name # stage_batches 0 [] entries))))"

definition begin_cleanup :: "ext \<Rightarrow> string \<Rightarrow> job option act" where
  "begin_cleanup X name =
     act_bind (act_read (\<lambda>s. Inr (bt_get s (staging_key name)))) (\<lambda>marker.
       case marker of
         None \<Rightarrow> act_ret None
       | Some _ \<Rightarrow> act_bind snapshot (\<lambda>s. act_bind (act_lift (active_index X s name)) (\<lambda>active.
           act_ret (Some (Cleaning active)))))"

fun job_step :: "ext \<Rightarrow> string \<Rightarrow> job \<Rightarrow> job option act" where
  "job_step X name (Staging status (b # bs)) =
     act_bind (commit b) (\<lambda>_. act_ret (Some (Staging status bs)))"
| "job_step X name (Staging status []) =
     act_bind (commit (publish X name status)) (\<lambda>_. act_ret (Some (Cleaning status)))"
| "job_step X name (Cleaning active) =
     act_bind snapshot (\<lambda>s. act_ret (Some (Retiring active s (retire_batches name active s))))"
| "job_step X name (Retiring active s (b # bs)) =
     act_bind (commit b) (\<lambda>_. act_ret (Some (Retiring active s bs)))"
| "job_step X name (Retiring active s []) =
     act_bind (act_lift (covered_changes name active s)) (\<lambda>keys.
     act_ret (Some (Dropping active (chunks 1000 keys))))"
| "job_step X name (Dropping active (c # cs)) =
     act_bind (drop_chunk X name active c) (\<lambda>_. act_ret (Some (Dropping active cs)))"
| "job_step X name (Dropping active []) =
     act_bind (commit (unmark_staging name)) (\<lambda>_. act_ret None)"

text \<open>Running a job alone, with fuel for its number of steps.\<close>

fun run_job :: "ext \<Rightarrow> string \<Rightarrow> nat \<Rightarrow> job \<Rightarrow> unit act" where
  "run_job X name 0 j = act_fail Worker"
| "run_job X name (Suc fuel) j =
     act_bind (job_step X name j) (\<lambda>next.
       case next of None \<Rightarrow> act_ret () | Some j' \<Rightarrow> run_job X name fuel j')"

lemma act_bind_ret [simp]: "act_bind (act_ret a) f = f a"
  by (rule ext) (simp add: act_bind_def)

lemma act_bind_assoc [simp]: "act_bind (act_bind m f) g = act_bind m (\<lambda>a. act_bind (f a) g)"
  by (rule ext) (simp add: act_bind_def split: prod.splits sum.splits)

definition finishes :: "ext \<Rightarrow> string \<Rightarrow> job \<Rightarrow> unit act \<Rightarrow> bool" where
  "finishes X name j m \<longleftrightarrow> (\<forall>d. \<exists>F. \<forall>fuel. F \<le> fuel \<longrightarrow> run_job X name fuel j d = m d)"

lemma finishes_step:
  assumes "job_step X name j = act_bind m (\<lambda>a. act_ret (Some (g a)))"
    and "\<And>a. finishes X name (g a) (f a)"
  shows "finishes X name j (act_bind m f)"
  unfolding finishes_def
proof
  fix d
  show "\<exists>F. \<forall>fuel. F \<le> fuel \<longrightarrow> run_job X name fuel j d = act_bind m f d"
  proof (cases "m d")
    case (Pair r d')
    show ?thesis
    proof (cases r)
      case (Inl e)
      have "run_job X name fuel j d = act_bind m f d" if "1 \<le> fuel" for fuel
        using that Pair Inl by (cases fuel) (simp_all add: assms(1), simp add: act_bind_def)
      then show ?thesis by blast
    next
      case (Inr a)
      from assms(2)[of a] obtain F where F: "\<forall>fuel. F \<le> fuel \<longrightarrow> run_job X name fuel (g a) d' = f a d'"
        unfolding finishes_def by blast
      have "run_job X name fuel j d = act_bind m f d" if "Suc F \<le> fuel" for fuel
        using that Pair Inr F by (cases fuel) (simp_all add: assms(1), simp add: act_bind_def)
      then show ?thesis by blast
    qed
  qed
qed

lemma finishes_dropping:
  "finishes X name (Dropping active cs)
    (act_bind (act_for (drop_chunk X name active) cs)
      (\<lambda>_. act_bind (commit (unmark_staging name)) (\<lambda>_. act_ret ())))"
proof (induction cs)
  case Nil
  have "run_job X name fuel (Dropping active []) d =
      act_bind (commit (unmark_staging name)) (\<lambda>_. act_ret ()) d" if "1 \<le> fuel" for fuel d
    using that by (cases fuel) (simp_all del: act_simps)
  then show ?case unfolding finishes_def by (auto simp del: act_simps)
next
  case (Cons c cs)
  then show ?case
    by (simp del: act_simps) (rule finishes_step[where g = "\<lambda>_. Dropping active cs"]; simp del: act_simps)
qed

lemma finishes_retiring:
  "finishes X name (Retiring active s bs)
    (act_bind (commit_all bs) (\<lambda>_. act_bind (act_lift (covered_changes name active s)) (\<lambda>keys.
      act_bind (act_for (drop_chunk X name active) (chunks 1000 keys))
        (\<lambda>_. act_bind (commit (unmark_staging name)) (\<lambda>_. act_ret ())))))"
proof (induction bs)
  case Nil
  show ?case
    by (simp del: act_simps)
      (rule finishes_step[where g = "\<lambda>keys. Dropping active (chunks 1000 keys)"];
        simp add: finishes_dropping del: act_simps)
next
  case (Cons b bs)
  then show ?case
    by (simp del: act_simps) (rule finishes_step[where g = "\<lambda>_. Retiring active s bs"]; simp del: act_simps)
qed

lemma finishes_cleaning:
  "finishes X name (Cleaning active)
    (act_bind (cleanup_inner X name active)
      (\<lambda>_. act_bind (commit (unmark_staging name)) (\<lambda>_. act_ret ())))"
  unfolding cleanup_inner_def act_bind_assoc
  by (rule finishes_step[where g = "\<lambda>s. Retiring active s (retire_batches name active s)"])
    (simp_all add: finishes_retiring del: act_simps)

lemma finishes_staging:
  "finishes X name (Staging status bs)
    (act_bind (commit_all bs) (\<lambda>_. act_bind (commit (publish X name status)) (\<lambda>_.
      act_bind (cleanup_inner X name status)
        (\<lambda>_. act_bind (commit (unmark_staging name)) (\<lambda>_. act_ret ())))))"
proof (induction bs)
  case Nil
  show ?case
    by (simp del: act_simps) (rule finishes_step[where g = "\<lambda>_. Cleaning status"];
        simp add: finishes_cleaning del: act_simps)
next
  case (Cons b bs)
  then show ?case
    by (simp del: act_simps) (rule finishes_step[where g = "\<lambda>_. Staging status bs"]; simp del: act_simps)
qed

lemma act_bind_fuel:
  assumes "\<And>a. finishes X name (g a) (f a)"
  shows "\<exists>F. \<forall>fuel. F \<le> fuel \<longrightarrow> act_bind m (\<lambda>a. run_job X name fuel (g a)) d = act_bind m f d"
proof (cases "m d")
  case (Pair r d')
  show ?thesis
  proof (cases r)
    case (Inl e)
    with Pair show ?thesis by (simp add: act_bind_def)
  next
    case (Inr a)
    with Pair assms[of a] show ?thesis unfolding finishes_def act_bind_def by auto
  qed
qed

lemma build_in_steps:
  "\<exists>F. \<forall>fuel. F \<le> fuel \<longrightarrow> act_bind (begin_build X gen conf name) (run_job X name fuel) d =
       act_bind (build_index_inner X gen conf name) (\<lambda>_. act_ret ()) d"
proof -
  let ?m = "act_bind snapshot (\<lambda>s. act_lift (plan_build X gen conf name s))"
  let ?g = "\<lambda>(status, entries). Staging status (mark_staging name # stage_batches 0 [] entries)"
  let ?f = "\<lambda>(status, entries). act_bind (commit_all (mark_staging name # stage_batches 0 [] entries)) (\<lambda>_.
      act_bind (commit (publish X name status)) (\<lambda>_. act_bind (cleanup_inner X name status)
        (\<lambda>_. act_bind (commit (unmark_staging name)) (\<lambda>_. act_ret ()))))"
  have "finishes X name (?g a) (?f a)" for a
    by (cases a) (simp only: prod.case finishes_staging)
  from act_bind_fuel[of X name ?g ?f ?m d, OF this] show ?thesis
    by (simp add: begin_build_def build_index_inner_def case_prod_unfold del: act_simps)
qed

lemma cleanup_in_steps:
  "\<exists>F. \<forall>fuel. F \<le> fuel \<longrightarrow> act_bind (begin_cleanup X name)
         (\<lambda>j. case j of None \<Rightarrow> act_ret () | Some j' \<Rightarrow> run_job X name fuel j') d =
       resume_index_cleanup X name d"
proof -
  let ?clean = "\<lambda>active. act_bind (cleanup_inner X name active) (\<lambda>_. act_bind (commit (unmark_staging name)) (\<lambda>_. act_ret ()))"
  let ?c = "act_bind snapshot (\<lambda>s. act_lift (active_index X s name))"
  from act_bind_fuel[of X name Cleaning ?clean ?c d, OF finishes_cleaning] show ?thesis
    by (cases "bt_get (kv d) (staging_key name)")
      (simp_all add: begin_cleanup_def resume_index_cleanup_def act_bind_def[of "act_read _"] del: act_simps(1,2,3))
qed


end
