(* ===== verification/Consistency.thy ===== *)
theory Consistency
  imports Rebuild Built
begin

section \<open>What an index owes to the documents\<close>

text \<open>
  A published index answers for an earlier store \<open>snap\<close>, at the revision it records. It is
  right about the current store because of two facts: its generation holds exactly the
  entries that \<open>build\<close> made from \<open>snap\<close>, and every ID whose rows changed since has a change
  record newer than the index (\<open>covers\<close>), so queries overlay it. \<open>index_ok\<close> states both;
  \<open>job_inv\<close> states how far a running rebuild has come. This theory proves that writes and
  every step of a rebuild keep them; \<open>System\<close> composes the steps.
\<close>

definition puts :: "(string \<times> bytes) list \<Rightarrow> batch" where
  "puts es = map (\<lambda>(k, v). Put k v) es"

definition covers :: "string \<Rightarrow> store \<Rightarrow> u64 \<Rightarrow> store \<Rightarrow> bool" where
  "covers n snap r s \<longleftrightarrow>
     (\<forall>i. (\<exists>v q. bt_get s (change_key n i) = Some v \<and> parse_revision v = Inr q \<and> r < q)
        \<or> (bt_get s (document_key n i) = bt_get snap (document_key n i)
           \<and> bt_get s (vector_key n i) = bt_get snap (vector_key n i)))"

definition change_ids_ok :: "string \<Rightarrow> store \<Rightarrow> bool" where
  "change_ids_ok n s \<longleftrightarrow> (\<forall>i. bt_get s (change_key n i) \<noteq> None \<longrightarrow> valid_id i)"

text \<open>Every stored vector has the dimension and the metric's properties of its namespace.\<close>

definition vectors_fit :: "ext \<Rightarrow> string \<Rightarrow> store \<Rightarrow> bool" where
  "vectors_fit X n s \<longleftrightarrow>
     (\<forall>ns i v. namespace_at X s n = Inr ns \<longrightarrow> vector_at X s n i = Inr (Some v) \<longrightarrow> valid_vector (ns_conf ns) v)"

definition good :: "ext \<Rightarrow> string \<Rightarrow> store \<Rightarrow> bool" where
  "good X n s \<longleftrightarrow> live_inv X n s \<and> docs_fine X n s \<and> change_ids_ok n s \<and> vectors_fit X n s"

lemma vectors_fit_cong:
  assumes "bt_get t (namespace_key n) = bt_get s (namespace_key n)"
    and "\<And>i. bt_get t (vector_key n i) = bt_get s (vector_key n i)"
  shows "vectors_fit X n t \<longleftrightarrow> vectors_fit X n s"
  using assms by (simp add: vectors_fit_def namespace_at_def vector_at_def)

definition gen_ok :: "string \<Rightarrow> bool" where
  "gen_ok g \<longleftrightarrow> g \<noteq> [] \<and> slash \<notin> set g"

text \<open>\<open>status\<close> and \<open>entries\<close> are what a build of \<open>snap\<close> makes.\<close>

definition built :: "ext \<Rightarrow> string \<Rightarrow> index_status \<Rightarrow> (string \<times> bytes) list \<Rightarrow> store \<Rightarrow> bool" where
  "built X n status entries snap \<longleftrightarrow>
     bt_ok snap \<and> good X n snap \<and> gen_ok (generation status)
     \<and> dec_index X (enc_index X status) = Some status
     \<and> (\<exists>conf. 1 \<le> clusters conf \<and> plan_build X (generation status) conf n snap = Inr (status, entries))"

definition not_newer :: "ext \<Rightarrow> string \<Rightarrow> index_status \<Rightarrow> store \<Rightarrow> bool" where
  "not_newer X n status s \<longleftrightarrow> (\<exists>st. stats_at X s n = Inr st \<and> idx_revision status \<le> revision st)"

text \<open>
  \<open>staged ops\<close>: the operations \<open>ops\<close>, applied to an empty store, give the rows under the
  root of the generation.
\<close>

definition staged :: "string \<Rightarrow> index_status \<Rightarrow> batch \<Rightarrow> store \<Rightarrow> bool" where
  "staged n status ops s \<longleftrightarrow>
     (\<forall>k. prefix (gen_root n (generation status)) k \<longrightarrow> bt_get s k = bt_get (apply_batch ops []) k)"

definition answers_for :: "ext \<Rightarrow> string \<Rightarrow> index_status \<Rightarrow> (string \<times> bytes) list \<Rightarrow> store \<Rightarrow> store \<Rightarrow> bool" where
  "answers_for X n status entries snap s \<longleftrightarrow>
     built X n status entries snap \<and> covers n snap (idx_revision status) s \<and> not_newer X n status s"

definition index_ok :: "ext \<Rightarrow> string \<Rightarrow> store \<Rightarrow> bool" where
  "index_ok X n s \<longleftrightarrow>
     (\<forall>v. bt_get s (index_key n) = Some v \<longrightarrow>
       (\<exists>status entries snap. v = enc_index X status \<and> answers_for X n status entries snap s
          \<and> staged n status (puts entries) s))"

definition current :: "ext \<Rightarrow> string \<Rightarrow> store \<Rightarrow> index_status \<Rightarrow> bool" where
  "current X n s active \<longleftrightarrow>
     (case bt_get s (index_key n) of
        None \<Rightarrow> active = default_index
      | Some v \<Rightarrow> dec_index X v = Some active)"

definition other_generation :: "ext \<Rightarrow> string \<Rightarrow> index_status \<Rightarrow> store \<Rightarrow> bool" where
  "other_generation X n status s \<longleftrightarrow>
     (\<forall>v old. bt_get s (index_key n) = Some v \<longrightarrow> dec_index X v = Some old \<longrightarrow>
        generation old \<noteq> generation status)"

definition retire_op :: "string \<Rightarrow> index_status \<Rightarrow> batch_op \<Rightarrow> bool" where
  "retire_op n active x \<longleftrightarrow>
     (\<exists>k. x = Del k \<and> prefix (gen_prefix n) k \<and> \<not> prefix (gen_root n (generation active)) k)"

fun job_inv :: "ext \<Rightarrow> string \<Rightarrow> store \<Rightarrow> job \<Rightarrow> bool" where
  "job_inv X n s (Staging status bs) \<longleftrightarrow>
     (\<exists>entries snap todo. answers_for X n status entries snap s \<and> other_generation X n status s
        \<and> todo @ concat bs = mark_staging n @ puts entries \<and> staged n status todo s)"
| "job_inv X n s (Cleaning active) \<longleftrightarrow> current X n s active"
| "job_inv X n s (Retiring active snap bs) \<longleftrightarrow>
     current X n s active \<and> bt_ok snap \<and> (\<forall>b \<in> set bs. \<forall>x \<in> set b. retire_op n active x)"
| "job_inv X n s (Dropping active cs) \<longleftrightarrow>
     current X n s active \<and> distinct (concat cs) \<and> (\<forall>c \<in> set cs. \<forall>k \<in> set c. prefix (change_prefix n) k)"

subsection \<open>Only the namespace's own keys matter\<close>

lemma agree_on_vector_at: "agree_on n s t \<Longrightarrow> vector_at X s n i = vector_at X t n i"
  by (simp add: vector_at_def agree_on_get)

lemma good_agree: "agree_on n s t \<Longrightarrow> bt_ok s \<Longrightarrow> bt_ok t \<Longrightarrow> good X n s \<Longrightarrow> good X n t"
proof -
  assume a: "agree_on n s t" "bt_ok s" "bt_ok t" "good X n s"
  have "row_fine X n t = row_fine X n s"
    by (rule ext) (simp add: row_fine_def agree_on_vector_at[OF a(1)] split: option.split)
  with a agree_on_scan(1)[OF a(1-3)] live_inv_agree[OF a(1-3)] show ?thesis
    using vectors_fit_cong[of t n s X] agree_on_get[OF a(1)]
    by (simp add: good_def docs_fine_def change_ids_ok_def)
qed

lemma covers_agree: "agree_on n s t \<Longrightarrow> covers n snap r s \<Longrightarrow> covers n snap r t"
  by (simp add: covers_def agree_on_get)

lemma gen_root_owned: "prefix (gen_root n g) k \<Longrightarrow> owned_by n k"
proof -
  assume "prefix (gen_root n g) k"
  moreover have "prefix (gen_prefix n) (gen_root n g)" by (simp add: key_defs)
  ultimately have "prefix (gen_prefix n) k" by (metis prefix_order.trans)
  then show ?thesis by (rule owned_prefix)
qed

lemma staged_agree: "agree_on n s t \<Longrightarrow> staged n status ops s \<Longrightarrow> staged n status ops t"
  unfolding staged_def agree_on_def using gen_root_owned by metis

lemma answers_for_agree:
  "agree_on n s t \<Longrightarrow> answers_for X n status entries snap s \<Longrightarrow> answers_for X n status entries snap t"
  by (simp add: answers_for_def covers_agree not_newer_def agree_on_at)

lemma index_ok_agree: "agree_on n s t \<Longrightarrow> index_ok X n s \<Longrightarrow> index_ok X n t"
  unfolding index_ok_def using answers_for_agree staged_agree agree_on_get(6)[of n s t] by metis

lemma current_agree: "agree_on n s t \<Longrightarrow> current X n t active \<longleftrightarrow> current X n s active"
  by (simp add: current_def agree_on_get)

lemma job_inv_agree: "agree_on n s t \<Longrightarrow> job_inv X n s j \<Longrightarrow> job_inv X n t j"
proof (cases j)
  case (Staging status bs)
  assume a: "agree_on n s t" "job_inv X n s j"
  then have "other_generation X n status s \<longleftrightarrow> other_generation X n status t"
    by (simp add: other_generation_def agree_on_get)
  with a Staging show ?thesis using answers_for_agree staged_agree by (simp, blast)
qed (simp_all add: current_agree)

subsection \<open>Writes\<close>

lemma vectors_fit_write:
  assumes "bt_ok s" "request_ok n req" "prepare_write X lim n req s = Inr (st', b)" "live_inv X n s" "vectors_fit X n s"
  shows "vectors_fit X n (apply_batch b s)"
proof -
  from assms(4) obtain ns where ns: "namespace_at X s n = Inr ns" "valid_config (ns_conf ns)"
    by (auto simp: live_inv_def)
  from assms(3) have b: "b = write_ops X n (revision st') req @ [Put (stats_key n) (enc_stats X st')]"
    by (rule prepare_write_Inr)
  from assms(3) obtain st inp where
    "fold_res (write_item X (ns_conf ns) n s) (write_items req) (st\<lparr>revision := revision st'\<rparr>, [], 0)
       = Inr (st', write_ops X n (revision st') req, inp)"
    using ns(1) by (elim prepare_write_Inr) auto
  from fold_write_items[OF this]
  have fit: "valid_vector (ns_conf ns) v" if "(i, Some doc) \<in> set (write_items req)" "vector doc = Some v" for i doc v
    using that by blast
  have name: "bt_get (apply_batch b s) (namespace_key n) = bt_get s (namespace_key n)"
    using assms(1) write_ops_keys[of _ X n "revision st'" req]
    by (intro get_apply_batch_other) (fastforce simp: b item_keys_def)+
  have "valid_vector (ns_conf ns) v" if "vector_at X (apply_batch b s) n i = Inr (Some v)" for i v
  proof (cases "map_of (write_items req) i")
    case None
    then have "bt_get (apply_batch b s) (vector_key n i) = bt_get s (vector_key n i)"
      using assms(1) by (simp add: b write_ops_get(2)[OF assms(1,2)])
    then have "vector_at X s n i = Inr (Some v)" using that by (simp add: vector_at_def)
    with assms(5) ns(1) show ?thesis by (simp add: vectors_fit_def)
  next
    case (Some new)
    then have "bt_get (apply_batch b s) (vector_key n i) = item_value X n (revision st') (i, new) (vector_key n i)"
      using assms(1) by (simp add: b write_ops_get(2)[OF assms(1,2)])
    with that obtain doc w where doc: "new = Some doc" "vector doc = Some w"
      "decode_vector (crc32 X) (encode_vector (crc32 X) w) = Inr v"
      using assms(2) by (auto simp: vector_at_def item_value_def request_ok_def split: option.splits)
    have "valid_vector (ns_conf ns) w" using fit map_of_SomeD[OF Some] doc by blast
    with decode_vector_encode_vector[OF this ns(2)] doc(3) show ?thesis by simp
  qed
  with ns(1) name show ?thesis by (auto simp: vectors_fit_def namespace_at_def)
qed

lemma good_write:
  assumes "good X n s" "bt_ok s" "request_ok n req" "json_codec X"
    and "prepare_write X lim n req s = Inr (st', b)" "\<forall>doc \<in> set (upsert req). stored_exactly X doc"
  shows "good X n (apply_batch b s)"
proof -
  have live: "live_inv X n s" "docs_fine X n s" "change_ids_ok n s" "vectors_fit X n s"
    using assms(1) by (simp_all add: good_def)
  from assms(5) have b: "b = write_ops X n (revision st') req @ [Put (stats_key n) (enc_stats X st')]"
    by (rule prepare_write_Inr)
  have "valid_id i" if "map_of (write_items req) i = Some new" for i new
    using map_of_SomeD[OF that] assms(3) by (force simp: request_ok_def)
  then have "change_ids_ok n (apply_batch b s)"
    using live(3) assms(2) by (auto simp: change_ids_ok_def b write_ops_get(3)[OF assms(2,3)] split: option.splits)
  moreover have "docs_fine X n (apply_batch b s)"
    using write_row_fine[OF assms(2,3,5) live(1) assms(4) live(2) assms(6)] assms(2)
    by (simp add: docs_fine_iff)
  moreover have "live_inv X n (apply_batch b s)" using live_inv_write[OF live(1) assms(2-5)] by blast
  moreover have "vectors_fit X n (apply_batch b s)"
    using vectors_fit_write[OF assms(2,3,5) live(1,4)] by simp
  ultimately show ?thesis unfolding good_def by blast
qed

lemma write_get_other:
  assumes "bt_ok s" "request_ok n req" "prepare_write X lim n req s = Inr (st', b)"
    and "\<And>i. k \<notin> item_keys n i" "k \<noteq> stats_key n"
  shows "bt_get (apply_batch b s) k = bt_get s k"
proof (rule get_apply_batch_other[OF assms(1)])
  from assms(3) have b: "b = write_ops X n (revision st') req @ [Put (stats_key n) (enc_stats X st')]"
    by (rule prepare_write_Inr)
  show "k \<notin> op_key ` set b"
    using write_ops_keys[of _ X n "revision st'" req] assms(4,5) unfolding b by (simp, blast)
qed

lemma gen_root_not_item: "valid_id n \<Longrightarrow> prefix (gen_root n g) k \<Longrightarrow> k \<notin> item_keys n i \<and> k \<noteq> stats_key n"
proof -
  assume "prefix (gen_root n g) k"
  moreover have "prefix (gen_prefix n) (gen_root n g)" by (simp add: key_defs)
  ultimately have "prefix (gen_prefix n) k" by (metis prefix_order.trans)
  then show ?thesis by (auto simp: item_keys_def)
qed

lemma revision_grows:
  assumes "prepare_write X lim n req s = Inr (st', b)" "not_newer X n status s" "json_codec X" "bt_ok s"
  shows "idx_revision status < revision st' \<and> not_newer X n status (apply_batch b s)"
proof -
  from assms(1) obtain st where st: "stats_at X s n = Inr st" "checked_add_u64 (revision st) 1 = Some (revision st')"
    and b: "b = write_ops X n (revision st') req @ [Put (stats_key n) (enc_stats X st')]"
    by (rule prepare_write_Inr)
  have "idx_revision status < revision st'"
    using st assms(2) checked_add_one[OF st(2)] by (auto simp: not_newer_def)
  then show ?thesis using assms(3,4) by (auto simp: not_newer_def stats_at_def b)
qed

lemma covers_write:
  assumes "covers n snap r s" "bt_ok s" "request_ok n req" "r < rv"
  shows "covers n snap r (apply_batch (write_ops X n rv req) s)"
  unfolding covers_def
proof
  fix i
  note get = write_ops_get[OF assms(2,3), of X rv]
  show "(\<exists>v q. bt_get (apply_batch (write_ops X n rv req) s) (change_key n i) = Some v \<and> parse_revision v = Inr q \<and> r < q)
    \<or> (bt_get (apply_batch (write_ops X n rv req) s) (document_key n i) = bt_get snap (document_key n i)
       \<and> bt_get (apply_batch (write_ops X n rv req) s) (vector_key n i) = bt_get snap (vector_key n i))"
    using assms(1,4) by (cases "map_of (write_items req) i") (simp_all add: get covers_def)
qed

lemma covers_put_stats: "bt_ok s \<Longrightarrow> covers n snap r (bt_put (stats_key n) v s) \<longleftrightarrow> covers n snap r s"
  by (simp add: covers_def)

lemma answers_for_write:
  assumes "answers_for X n status entries snap s" "bt_ok s" "request_ok n req" "json_codec X"
    and "prepare_write X lim n req s = Inr (st', b)"
  shows "answers_for X n status entries snap (apply_batch b s)"
proof -
  note grow = revision_grows[OF assms(5) _ assms(4,2), of status]
  from assms(5) have b: "b = write_ops X n (revision st') req @ [Put (stats_key n) (enc_stats X st')]"
    by (rule prepare_write_Inr)
  from assms(1) have a: "built X n status entries snap" "covers n snap (idx_revision status) s" "not_newer X n status s"
    by (simp_all add: answers_for_def)
  have "covers n snap (idx_revision status) (apply_batch b s)"
    using covers_write[OF a(2) assms(2,3), of "revision st'" X] grow[OF a(3)] assms(2)
    by (simp add: b covers_put_stats)
  with a grow[OF a(3)] show ?thesis by (simp add: answers_for_def)
qed

lemma staged_write:
  assumes "staged n status ops s" "bt_ok s" "request_ok n req" "prepare_write X lim n req s = Inr (st', b)"
  shows "staged n status ops (apply_batch b s)"
  using assms(1) write_get_other[OF assms(2-4)] gen_root_not_item[of n "generation status"] assms(3)
  unfolding staged_def request_ok_def by metis

lemma write_index_key:
  assumes "bt_ok s" "request_ok n req" "prepare_write X lim n req s = Inr (st', b)"
  shows "bt_get (apply_batch b s) (index_key n) = bt_get s (index_key n)"
  by (rule write_get_other[OF assms]) (simp_all add: item_keys_def)

lemma index_ok_write:
  assumes "index_ok X n s" "bt_ok s" "request_ok n req" "json_codec X"
    and "prepare_write X lim n req s = Inr (st', b)"
  shows "index_ok X n (apply_batch b s)"
  using assms(1) answers_for_write[OF _ assms(2-5)] staged_write[OF _ assms(2,3,5)]
  unfolding index_ok_def write_index_key[OF assms(2,3,5)] by metis

lemma job_inv_write:
  assumes "job_inv X n s j" "bt_ok s" "request_ok n req" "json_codec X"
    and "prepare_write X lim n req s = Inr (st', b)"
  shows "job_inv X n (apply_batch b s) j"
proof (cases j)
  case (Staging status bs)
  with assms(1) answers_for_write[OF _ assms(2-5)] staged_write[OF _ assms(2,3,5)] show ?thesis
    by (simp add: other_generation_def write_index_key[OF assms(2,3,5)]) metis
qed (use assms(1) in \<open>simp_all add: current_def write_index_key[OF assms(2,3,5)]\<close>)

subsection \<open>Batches that touch only the index and its staging marker\<close>

definition side_op :: "string \<Rightarrow> batch_op \<Rightarrow> bool" where
  "side_op n x \<longleftrightarrow> prefix (gen_prefix n) (op_key x) \<or> op_key x \<in> {staging_key n, index_key n}"

lemma side_not_table:
  assumes "side_op n x"
  shows "\<not> prefix (document_prefix n) (op_key x)" "\<not> prefix (vector_prefix n) (op_key x)"
    "\<not> prefix (change_prefix n) (op_key x)"
    "op_key x \<noteq> namespace_key n" "op_key x \<noteq> stats_key n" "op_key x \<noteq> deletion_key n"
  using assms by (auto simp: side_op_def key_defs prefix_def)

lemma side_scans:
  assumes "\<forall>x \<in> set b. side_op n x" "bt_ok s"
  shows "scan_prefix (document_prefix n) (apply_batch b s) = scan_prefix (document_prefix n) s"
    "scan_prefix (vector_prefix n) (apply_batch b s) = scan_prefix (vector_prefix n) s"
    "scan_prefix (change_prefix n) (apply_batch b s) = scan_prefix (change_prefix n) s"
  using assms side_not_table by (auto intro!: scan_prefix_apply_batch_other)

lemma side_gets:
  assumes "\<forall>x \<in> set b. side_op n x" "bt_ok s"
  shows "bt_get (apply_batch b s) (document_key n i) = bt_get s (document_key n i)"
    "bt_get (apply_batch b s) (vector_key n i) = bt_get s (vector_key n i)"
    "bt_get (apply_batch b s) (change_key n i) = bt_get s (change_key n i)"
    "bt_get (apply_batch b s) (namespace_key n) = bt_get s (namespace_key n)"
    "bt_get (apply_batch b s) (stats_key n) = bt_get s (stats_key n)"
    "bt_get (apply_batch b s) (deletion_key n) = bt_get s (deletion_key n)"
proof -
  have "bt_get (apply_batch b s) k = bt_get s k"
    if "prefix (document_prefix n) k \<or> prefix (vector_prefix n) k \<or> prefix (change_prefix n) k
      \<or> k \<in> {namespace_key n, stats_key n, deletion_key n}" for k
    using that assms(1) side_not_table[of n] by (intro get_apply_batch_other[OF assms(2)]) (auto; blast)
  then show "bt_get (apply_batch b s) (document_key n i) = bt_get s (document_key n i)"
    "bt_get (apply_batch b s) (vector_key n i) = bt_get s (vector_key n i)"
    "bt_get (apply_batch b s) (change_key n i) = bt_get s (change_key n i)"
    "bt_get (apply_batch b s) (namespace_key n) = bt_get s (namespace_key n)"
    "bt_get (apply_batch b s) (stats_key n) = bt_get s (stats_key n)"
    "bt_get (apply_batch b s) (deletion_key n) = bt_get s (deletion_key n)"
    by (simp_all add: document_prefix_key vector_prefix_key change_prefix_key)
qed

lemma good_side:
  assumes "good X n s" "\<forall>x \<in> set b. side_op n x" "bt_ok s"
  shows "good X n (apply_batch b s)"
proof -
  note same = side_gets[OF assms(2,3)] side_scans[OF assms(2,3)]
  have "row_fine X n (apply_batch b s) = row_fine X n s"
    by (rule ext) (simp add: row_fine_def vector_at_def same split: option.split)
  with assms(1) show ?thesis
    by (simp add: good_def live_inv_def docs_fine_def namespace_at_def stats_at_def counters_ok_def
        count_defs tally_def vectors_have_docs_def changes_ok_def change_ids_ok_def
        vectors_fit_def vector_at_def same)
qed

lemma answers_for_side:
  assumes "answers_for X n status entries snap s" "\<forall>x \<in> set b. side_op n x" "bt_ok s"
  shows "answers_for X n status entries snap (apply_batch b s)"
  using assms(1)
  by (simp add: answers_for_def covers_def not_newer_def stats_at_def side_gets[OF assms(2,3)])

text \<open>Two generations of one namespace have disjoint roots.\<close>

lemma gen_root_disjoint:
  assumes "valid_id n" "gen_ok g" "gen_ok h" "g \<noteq> h" "prefix (gen_root n g) k"
  shows "\<not> prefix (gen_root n h) k"
proof
  assume "prefix (gen_root n h) k"
  with assms(5) obtain i j where "g @ slash # i = h @ slash # j"
    by (auto simp: prefix_def key_defs)
  with assms(2-4) show False by (simp add: gen_ok_def slash_append_eq)
qed

lemma staged_batch_other:
  assumes "staged n status ops s" "bt_ok s"
    and "\<forall>x \<in> set b. \<not> prefix (gen_root n (generation status)) (op_key x)"
  shows "staged n status ops (apply_batch b s)"
  unfolding staged_def
proof (intro allI impI)
  fix k
  assume k: "prefix (gen_root n (generation status)) k"
  with assms(3) have "bt_get (apply_batch b s) k = bt_get s k"
    by (intro get_apply_batch_other[OF assms(2)]) auto
  with k assms(1) show "bt_get (apply_batch b s) k = bt_get (apply_batch ops []) k" by (simp add: staged_def)
qed

lemma get_apply_batch_cong:
  "bt_ok s \<Longrightarrow> bt_ok t \<Longrightarrow> bt_get s k = bt_get t k \<Longrightarrow> bt_get (apply_batch b s) k = bt_get (apply_batch b t) k"
  by (induction b arbitrary: s t) (auto simp: get_apply_op)

lemma staged_batch_more:
  assumes "staged n status ops s" "bt_ok s"
  shows "staged n status (ops @ b) (apply_batch b s)"
  using assms by (auto simp: staged_def intro!: get_apply_batch_cong)

subsection \<open>The steps of a rebuild\<close>

lemma built_keys:
  assumes "built X n status entries snap" "(k, v) \<in> set entries"
  shows "prefix (gen_root n (generation status)) k"
proof -
  from assms(1) obtain conf where "plan_build X (generation status) conf n snap = Inr (status, entries)"
    by (auto simp: built_def)
  then obtain schema rv docs where "build X (generation status) n schema rv docs conf = Inr (status, entries)"
    by (auto simp: plan_build_def)
  from build_keys[OF this] assms(2) show ?thesis by (force simp: keys_under_def)
qed

lemma staging_ops:
  assumes "built X n status entries snap" "todo @ concat bs = mark_staging n @ puts entries" "b \<in> set bs" "x \<in> set b"
  shows "op_key x = staging_key n \<or> prefix (gen_root n (generation status)) (op_key x)"
proof -
  from assms(3,4) have "x \<in> set (todo @ concat bs)" by auto
  with assms(2) have "x \<in> set (mark_staging n) \<union> set (puts entries)" by (metis set_append)
  then show ?thesis using built_keys[OF assms(1)] by (auto simp: mark_staging_def puts_def)
qed

lemma gen_root_side: "prefix (gen_root n g) (op_key x) \<Longrightarrow> side_op n x"
proof -
  have "prefix (gen_prefix n) (gen_root n g)" by (simp add: key_defs)
  then show "prefix (gen_root n g) (op_key x) \<Longrightarrow> side_op n x"
    unfolding side_op_def by (metis prefix_order.trans)
qed

lemma not_gen_root: "\<not> prefix (gen_root n g) (staging_key n)" "\<not> prefix (gen_root n g) (index_key n)"
  by (simp_all add: key_defs)

lemma built_exact: "built X n status entries snap \<Longrightarrow> dec_index X (enc_index X status) = Some status"
  "built X n status entries snap \<Longrightarrow> gen_ok (generation status)"
  by (simp_all add: built_def)

lemma index_ok_side:
  assumes "index_ok X n s" "bt_ok s" "\<forall>x \<in> set b. side_op n x \<and> op_key x \<noteq> index_key n"
    and "\<And>status. bt_get s (index_key n) = Some (enc_index X status) \<Longrightarrow>
      dec_index X (enc_index X status) = Some status \<Longrightarrow> gen_ok (generation status) \<Longrightarrow>
      \<forall>x \<in> set b. \<not> prefix (gen_root n (generation status)) (op_key x)"
  shows "index_ok X n (apply_batch b s)"
  unfolding index_ok_def
proof (intro allI impI)
  fix v
  assume "bt_get (apply_batch b s) (index_key n) = Some v"
  moreover have "bt_get (apply_batch b s) (index_key n) = bt_get s (index_key n)"
    using assms(3) by (intro get_apply_batch_other[OF assms(2)]) auto
  ultimately have v: "bt_get s (index_key n) = Some v" by simp
  with assms(1) obtain status entries snap where st: "v = enc_index X status"
    "answers_for X n status entries snap s" "staged n status (puts entries) s"
    by (auto simp: index_ok_def)
  have b: "built X n status entries snap" using st(2) by (simp add: answers_for_def)
  from assms(4)[of status] v st(1) built_exact[OF b]
  have "\<forall>x \<in> set b. \<not> prefix (gen_root n (generation status)) (op_key x)" by simp
  from staged_batch_other[OF st(3) assms(2) this] answers_for_side[OF st(2) _ assms(2)] assms(3) st(1)
  show "\<exists>status entries snap. v = enc_index X status \<and> answers_for X n status entries snap (apply_batch b s)
      \<and> staged n status (puts entries) (apply_batch b s)" by blast
qed

lemma staging_batch:
  assumes "valid_id n" "bt_ok s" "good X n s" "index_ok X n s" "job_inv X n s (Staging status (b # bs))"
  shows "good X n (apply_batch b s) \<and> index_ok X n (apply_batch b s)
    \<and> job_inv X n (apply_batch b s) (Staging status bs)"
proof -
  let ?s = "apply_batch b s"
  from assms(5) obtain entries snap todo where j: "answers_for X n status entries snap s"
    "other_generation X n status s" "todo @ concat (b # bs) = mark_staging n @ puts entries" "staged n status todo s"
    by auto
  have built: "built X n status entries snap" using j(1) by (simp add: answers_for_def)
  have keys: "\<forall>x \<in> set b. op_key x = staging_key n \<or> prefix (gen_root n (generation status)) (op_key x)"
    using staging_ops[OF built j(3), of b] by auto
  have side: "\<forall>x \<in> set b. side_op n x" "\<forall>x \<in> set b. op_key x \<noteq> index_key n"
  proof -
    show "\<forall>x \<in> set b. side_op n x"
    proof
      fix x
      assume "x \<in> set b"
      with keys show "side_op n x" by (metis gen_root_side side_op_def insertI1)
    qed
    show "\<forall>x \<in> set b. op_key x \<noteq> index_key n" using keys not_gen_root(2) by fastforce
  qed
  have index: "bt_get ?s (index_key n) = bt_get s (index_key n)"
    using side(2) by (intro get_apply_batch_other[OF assms(2)]) auto
  have "index_ok X n ?s"
  proof (rule index_ok_side[OF assms(4,2)])
    fix old
    assume old: "bt_get s (index_key n) = Some (enc_index X old)" "dec_index X (enc_index X old) = Some old"
      "gen_ok (generation old)"
    with j(2) have "generation old \<noteq> generation status" by (simp add: other_generation_def)
    with keys gen_root_disjoint[OF assms(1) built_exact(2)[OF built] old(3)] not_gen_root
    show "\<forall>x \<in> set b. \<not> prefix (gen_root n (generation old)) (op_key x)" by metis
  qed (use side in simp)
  moreover have "job_inv X n ?s (Staging status bs)"
    unfolding job_inv.simps
    by (rule exI[of _ entries], rule exI[of _ snap], rule exI[of _ "todo @ b"])
      (use j(2,3) answers_for_side[OF j(1) side(1) assms(2)] staged_batch_more[OF j(4) assms(2)] in \<open>simp add: other_generation_def index\<close>)
  ultimately show ?thesis using good_side[OF assms(3) side(1) assms(2)] by simp
qed

lemma publish_step:
  assumes "bt_ok s" "good X n s" "job_inv X n s (Staging status [])"
  shows "good X n (apply_batch (publish X n status) s) \<and> index_ok X n (apply_batch (publish X n status) s)
    \<and> job_inv X n (apply_batch (publish X n status) s) (Cleaning status)"
proof -
  let ?b = "publish X n status"
  let ?s = "apply_batch ?b s"
  from assms(3) obtain entries snap where j: "answers_for X n status entries snap s"
    "staged n status (mark_staging n @ puts entries) s"
    by auto
  have built: "built X n status entries snap" using j(1) by (simp add: answers_for_def)
  have side: "\<forall>x \<in> set ?b. side_op n x" by (simp add: publish_def side_op_def)
  have get: "bt_get ?s (index_key n) = Some (enc_index X status)" using assms(1) by (simp add: publish_def)
  have root: "\<not> prefix (gen_root n (generation status)) (staging_key n)" by (rule not_gen_root)
  have "staged n status (puts entries) s"
    unfolding staged_def
  proof (intro allI impI)
    fix k
    assume k: "prefix (gen_root n (generation status)) k"
    with root have "bt_get (apply_batch (mark_staging n) []) k = bt_get [] k" by (auto simp: mark_staging_def)
    then have "bt_get (apply_batch (puts entries) (apply_batch (mark_staging n) [])) k = bt_get (apply_batch (puts entries) []) k"
      by (intro get_apply_batch_cong) simp_all
    with j(2) k show "bt_get s k = bt_get (apply_batch (puts entries) []) k" by (simp add: staged_def)
  qed
  then have "staged n status (puts entries) ?s"
    by (rule staged_batch_other[OF _ assms(1)]) (simp add: publish_def not_gen_root)
  with answers_for_side[OF j(1) side assms(1)] get have "index_ok X n ?s"
    by (auto simp: index_ok_def)
  moreover have "job_inv X n ?s (Cleaning status)"
    using built_exact(1)[OF built] by (simp add: current_def get)
  ultimately show ?thesis using good_side[OF assms(2) side assms(1)] by simp
qed

subsection \<open>The steps of a cleanup\<close>

lemma retire_side: "retire_op n active x \<Longrightarrow> side_op n x \<and> op_key x \<noteq> index_key n \<and> op_key x \<noteq> staging_key n"
  by (auto simp: retire_op_def side_op_def key_defs prefix_def)

lemma retire_step:
  assumes "bt_ok s" "good X n s" "index_ok X n s" "current X n s active" "\<forall>x \<in> set b. retire_op n active x"
  shows "good X n (apply_batch b s) \<and> index_ok X n (apply_batch b s) \<and> current X n (apply_batch b s) active"
proof -
  have side: "\<forall>x \<in> set b. side_op n x \<and> op_key x \<noteq> index_key n" using assms(5) retire_side by blast
  then have index: "bt_get (apply_batch b s) (index_key n) = bt_get s (index_key n)"
    by (intro get_apply_batch_other[OF assms(1)]) auto
  have "index_ok X n (apply_batch b s)"
  proof (rule index_ok_side[OF assms(3,1) side])
    fix old
    assume old: "bt_get s (index_key n) = Some (enc_index X old)" "dec_index X (enc_index X old) = Some old"
    with assms(4) have "active = old" by (simp add: current_def)
    with assms(5) show "\<forall>x \<in> set b. \<not> prefix (gen_root n (generation old)) (op_key x)"
      by (auto simp: retire_op_def)
  qed
  with good_side[OF assms(2) _ assms(1)] side assms(4) show ?thesis by (simp add: current_def index)
qed

lemma retire_batches_ops: "b \<in> set (retire_batches n active s) \<Longrightarrow> x \<in> set b \<Longrightarrow> retire_op n active x"
proof -
  assume "b \<in> set (retire_batches n active s)" "x \<in> set b"
  then obtain ks where ks: "ks \<in> set (chunks 1000 (retired_keys n active s))" "x \<in> set (map Del ks)"
    by (auto simp: retire_batches_def)
  then obtain k where k: "x = Del k" "k \<in> set ks" by auto
  with ks(1) have "k \<in> set (concat (chunks 1000 (retired_keys n active s)))" by auto
  then have "k \<in> set (retired_keys n active s)" by (simp add: concat_chunks del: set_concat)
  with k(1) show "retire_op n active x" by (auto simp: retired_keys_def retire_op_def scan_prefix_def)
qed

text \<open>The change records that the scan of a snapshot finds covered.\<close>

lemma covered_changes_keys:
  assumes "covered_changes n active s = Inr keys" "bt_ok s"
  shows "distinct keys \<and> (\<forall>k \<in> set keys. prefix (change_prefix n) k)"
proof -
  have fold: "\<exists>ys. keys = acc @ ys \<and> subseq ys (map fst rows)"
    if "fold_res (\<lambda>(k, v) keys. rbind (parse_revision v) (\<lambda>r. Inr (if r \<le> idx_revision active then keys @ [k] else keys)))
          rows acc = Inr keys" for rows acc
    using that
  proof (induction rows arbitrary: acc)
    case Nil
    then show ?case by simp
  next
    case (Cons x rows)
    obtain k v where x: "x = (k, v)" by force
    from Cons.prems obtain r where r: "parse_revision v = Inr r"
      "fold_res (\<lambda>(k, v) keys. rbind (parse_revision v) (\<lambda>r. Inr (if r \<le> idx_revision active then keys @ [k] else keys)))
         rows (if r \<le> idx_revision active then acc @ [k] else acc) = Inr keys"
      by (auto simp: x)
    from Cons.IH[OF r(2)] obtain ys where ys: "keys = (if r \<le> idx_revision active then acc @ [k] else acc) @ ys"
      "subseq ys (map fst rows)" by blast
    then show ?case
      by (intro exI[of _ "if r \<le> idx_revision active then k # ys else ys"]) (auto simp: x)
  qed
  from fold[OF assms(1)[unfolded covered_changes_def]]
  have sub: "subseq keys (map fst (scan_prefix (change_prefix n) s))" by simp
  have "distinct keys"
    using subseq_set_distinct[OF sub] bt_ok_distinct[OF bt_ok_scan_prefix[OF assms(2)]] by blast
  moreover have "k \<in> set (map fst (scan_prefix (change_prefix n) s))" if "k \<in> set keys" for k
    using subseq_set_distinct[OF sub] that by blast
  moreover have "prefix (change_prefix n) k" if "k \<in> set (map fst (scan_prefix (change_prefix n) s))" for k
    using that by (auto simp: scan_prefix_def)
  ultimately show ?thesis by blast
qed

definition covered_key :: "store \<Rightarrow> u64 \<Rightarrow> string \<Rightarrow> bool" where
  "covered_key s w k \<longleftrightarrow> (\<exists>v q. bt_get s k = Some v \<and> parse_revision v = Inr q \<and> q \<le> w)"

lemma fold_drop_change:
  assumes "fold_res (drop_change s w) keys (st, b) = Inr (st', b')"
  shows "b' = b @ map Del (filter (covered_key s w) keys)
    \<and> st' = st\<lparr>pending_documents := pending_documents st - of_nat (length (filter (covered_key s w) keys))\<rparr>"
  using assms
proof (induction keys arbitrary: st b)
  case Nil
  then show ?case by simp
next
  case (Cons k keys)
  from Cons.prems obtain st1 b1 where one: "drop_change s w k (st, b) = Inr (st1, b1)"
    and rest: "fold_res (drop_change s w) keys (st1, b1) = Inr (st', b')"
    by auto
  from one have "b1 = b @ (if covered_key s w k then [Del k] else [])"
    "st1 = (if covered_key s w k then st\<lparr>pending_documents := pending_documents st - 1\<rparr> else st)"
    by (auto simp: drop_change_def covered_key_def split: option.splits if_splits)
  with Cons.IH[OF rest] show ?case by (simp add: algebra_simps)
qed

lemma pending_after_dels:
  assumes "bt_ok s" "distinct ks" "\<forall>k \<in> set ks. prefix p k \<and> bt_get s k \<noteq> None"
  shows "tally (\<lambda>_. 1) p (apply_batch (map Del ks) s) = tally (\<lambda>_. 1) p s - of_nat (length ks)"
  using assms
proof (induction ks arbitrary: s)
  case Nil
  then show ?case by simp
next
  case (Cons k ks)
  then obtain v where v: "bt_get s k = Some v" by auto
  have "\<forall>j \<in> set ks. prefix p j \<and> bt_get (bt_del k s) j \<noteq> None" using Cons.prems by auto
  with Cons.IH[of "bt_del k s"] Cons.prems v show ?case by (simp add: tally_del algebra_simps)
qed

lemma drop_plan_Inr:
  assumes "drop_plan X n active keys s = Inr (st', b)"
  obtains st where "stats_at X s n = Inr st"
    "b = map Del (filter (covered_key s (idx_revision active)) keys) @ [Put (stats_key n) (enc_stats X st')]"
    "st' = st\<lparr>pending_documents := pending_documents st
       - of_nat (length (filter (covered_key s (idx_revision active)) keys))\<rparr>"
  using assms by (auto simp: drop_plan_def dest!: fold_drop_change intro!: that)

lemma drop_gets:
  assumes "bt_ok s" "b = map Del (filter (covered_key s w) keys) @ [Put (stats_key n) st]"
    and "\<forall>k \<in> set keys. prefix (change_prefix n) k"
  shows "\<not> prefix (change_prefix n) k \<Longrightarrow> k \<noteq> stats_key n \<Longrightarrow> bt_get (apply_batch b s) k = bt_get s k"
    and "bt_get (apply_batch b s) (stats_key n) = Some st"
    and "bt_get (apply_batch b s) (change_key n i) =
      (if change_key n i \<in> set keys \<and> covered_key s w (change_key n i) then None
       else bt_get s (change_key n i))"
  using assms by (auto simp: get_apply_dels simp del: list.map)

lemma drop_good:
  assumes ok: "bt_ok s" and good: "good X n s" and json: "json_codec X" and n: "valid_id n"
    and keys: "distinct keys" "\<forall>k \<in> set keys. prefix (change_prefix n) k"
    and plan: "drop_plan X n active keys s = Inr (st', b)"
  shows "good X n (apply_batch b s)"
proof -
  let ?w = "idx_revision active" and ?s = "apply_batch b s"
  let ?dels = "filter (covered_key s ?w) keys"
  from plan obtain st where st: "stats_at X s n = Inr st"
    and b: "b = map Del ?dels @ [Put (stats_key n) (enc_stats X st')]"
    and st': "st' = st\<lparr>pending_documents := pending_documents st - of_nat (length ?dels)\<rparr>"
    by (rule drop_plan_Inr)
  note gets = drop_gets[OF ok b keys(2)]
  from good st have live: "counters_ok n s st" "changes_ok n s (revision st)" "vectors_have_docs n s"
    "\<exists>ns. namespace_at X s n = Inr ns \<and> ns_name ns = n \<and> valid_config (ns_conf ns)" "docs_fine X n s"
    "change_ids_ok n s" "vectors_fit X n s"
    by (simp_all add: good_def live_inv_def)
  have ids: "change_ids_ok n ?s" using live(6) by (simp add: change_ids_ok_def gets(3))
  have scans: "scan_prefix (document_prefix n) ?s = scan_prefix (document_prefix n) s"
    "scan_prefix (vector_prefix n) ?s = scan_prefix (vector_prefix n) s"
  proof -
    have "\<not> prefix (document_prefix n) (op_key x) \<and> \<not> prefix (vector_prefix n) (op_key x)" if "x \<in> set b" for x
      using that keys(2) by (auto simp: b key_defs prefix_def)
    then show "scan_prefix (document_prefix n) ?s = scan_prefix (document_prefix n) s"
      "scan_prefix (vector_prefix n) ?s = scan_prefix (vector_prefix n) s"
      using ok by (simp_all add: scan_prefix_apply_batch_other)
  qed
  have pend: "pending_count n ?s = pending_count n s - of_nat (length ?dels)"
  proof -
    have "\<forall>k \<in> set ?dels. prefix (change_prefix n) k \<and> bt_get s k \<noteq> None"
      using keys(2) by (auto simp: covered_key_def)
    with keys(1) ok show ?thesis by (simp add: pending_count_def b tally_put pending_after_dels)
  qed
  have same: "bt_get ?s (document_key n i) = bt_get s (document_key n i)"
    "bt_get ?s (vector_key n i) = bt_get s (vector_key n i)" "bt_get ?s (namespace_key n) = bt_get s (namespace_key n)" for i
    by (rule gets(1); simp)+
  have ch: "changes_ok n ?s (revision st)"
    using live(2) by (simp add: changes_ok_def gets(3))
  have "stats_at X ?s n = Inr st'" using json by (simp add: stats_at_def gets(2))
  moreover have "counters_ok n ?s st'"
    using live(1) pend by (simp add: counters_ok_def st' doc_count_def byte_count_def tally_def scans)
  moreover have "row_fine X n ?s = row_fine X n s"
    by (rule ext) (simp add: row_fine_def vector_at_def same split: option.split)
  ultimately show ?thesis
    using live ch ids vectors_fit_cong[of ?s n s X] by (simp add: good_def live_inv_def docs_fine_def namespace_at_def vectors_have_docs_def same scans st')
qed

lemma drop_index_ok:
  assumes ok: "bt_ok s" and index: "index_ok X n s" and json: "json_codec X" and cur: "current X n s active"
    and keys: "\<forall>k \<in> set keys. prefix (change_prefix n) k"
    and plan: "drop_plan X n active keys s = Inr (st', b)"
  shows "index_ok X n (apply_batch b s) \<and> current X n (apply_batch b s) active"
proof -
  let ?s = "apply_batch b s"
  from plan obtain st where st: "stats_at X s n = Inr st"
    and b: "b = map Del (filter (covered_key s (idx_revision active)) keys) @ [Put (stats_key n) (enc_stats X st')]"
    and st': "st' = st\<lparr>pending_documents := pending_documents st
       - of_nat (length (filter (covered_key s (idx_revision active)) keys))\<rparr>"
    by (rule drop_plan_Inr)
  note gets = drop_gets[OF ok b keys]
  have same: "bt_get ?s (document_key n i) = bt_get s (document_key n i)"
    "bt_get ?s (vector_key n i) = bt_get s (vector_key n i)" "bt_get ?s (index_key n) = bt_get s (index_key n)" for i
    by (rule gets(1); simp add: key_defs)+
  have "\<exists>entries snap. answers_for X n status entries snap ?s \<and> staged n status (puts entries) ?s"
    if a: "answers_for X n status entries snap s" "staged n status (puts entries) s"
      "bt_get s (index_key n) = Some (enc_index X status)" for status entries snap
  proof (intro exI conjI)
    have "active = status"
      using cur a(1,3) built_exact(1)[of X n status entries snap] by (simp add: current_def answers_for_def)
    then have kept: "bt_get ?s (change_key n i) = Some v"
      if "bt_get s (change_key n i) = Some v" "parse_revision v = Inr q" "idx_revision status < q" for i v q
      using that by (auto simp: gets(3) covered_key_def)
    have "covers n snap (idx_revision status) s" using a(1) by (simp add: answers_for_def)
    then have "covers n snap (idx_revision status) ?s"
      using kept unfolding covers_def same by metis
    then show "answers_for X n status entries snap ?s"
      using a(1) st json by (simp add: answers_for_def not_newer_def stats_at_def gets(2) st')
    show "staged n status (puts entries) ?s"
      using a(2) ok by (rule staged_batch_other) (use keys in \<open>auto simp: b key_defs prefix_def\<close>)
  qed
  with index have "index_ok X n ?s" unfolding index_ok_def same by blast
  then show ?thesis using cur by (simp add: current_def same)
qed

subsection \<open>Every step of the job\<close>

text \<open>
  Whatever the state of the namespace, a step writes only the index, staging, change and
  counter keys of its own namespace.
\<close>

definition job_key :: "string \<Rightarrow> string \<Rightarrow> bool" where
  "job_key n k \<longleftrightarrow> prefix (gen_prefix n) k \<or> prefix (change_prefix n) k
     \<or> k \<in> {staging_key n, index_key n, stats_key n}"

lemma job_key_owned: "job_key n k \<Longrightarrow> owned_by n k"
  by (auto simp: job_key_def owned_prefix)

lemma job_key_other:
  "\<not> job_key n (document_key n i)" "\<not> job_key n (vector_key n i)" "\<not> job_key n (namespace_key m)"
  "\<not> job_key n (deletion_key m)" "\<not> job_key n FORMAT_KEY"
  by (simp_all add: job_key_def key_defs)

fun job_shape :: "string \<Rightarrow> job \<Rightarrow> bool" where
  "job_shape n (Staging status bs) \<longleftrightarrow> (\<forall>b \<in> set bs. \<forall>x \<in> set b. job_key n (op_key x))"
| "job_shape n (Cleaning active) \<longleftrightarrow> True"
| "job_shape n (Retiring active snap bs) \<longleftrightarrow>
     bt_ok snap \<and> (\<forall>b \<in> set bs. \<forall>x \<in> set b. job_key n (op_key x))"
| "job_shape n (Dropping active cs) \<longleftrightarrow> (\<forall>c \<in> set cs. \<forall>k \<in> set c. prefix (change_prefix n) k)"

lemma side_job_key: "side_op n x \<Longrightarrow> job_key n (op_key x)"
  by (auto simp: job_key_def side_op_def)

lemma change_job_key: "prefix (change_prefix n) k \<Longrightarrow> job_key n k"
  by (simp add: job_key_def)

lemma drop_plan_keys:
  "drop_plan X n active keys s = Inr (st', b) \<Longrightarrow> \<forall>k \<in> set keys. prefix (change_prefix n) k \<Longrightarrow>
    x \<in> set b \<Longrightarrow> job_key n (op_key x)"
proof (erule drop_plan_Inr)
  assume k: "\<forall>k \<in> set keys. prefix (change_prefix n) k" "x \<in> set b"
    "b = map Del (filter (covered_key s (idx_revision active)) keys) @ [Put (stats_key n) (enc_stats X st')]"
  have "job_key n (stats_key n)" by (simp add: job_key_def)
  with k change_job_key show "job_key n (op_key x)" by auto
qed

text \<open>
  \<open>job_plan\<close> is what a step does to a given store: the batch to commit, if any, and the
  next state of the job.
\<close>

fun job_plan :: "ext \<Rightarrow> string \<Rightarrow> job \<Rightarrow> store \<Rightarrow> (batch \<times> job option) result" where
  "job_plan X n (Staging status (b # bs)) s = Inr (b, Some (Staging status bs))"
| "job_plan X n (Staging status []) s = Inr (publish X n status, Some (Cleaning status))"
| "job_plan X n (Cleaning active) s = Inr ([], Some (Retiring active s (retire_batches n active s)))"
| "job_plan X n (Retiring active snap (b # bs)) s = Inr (b, Some (Retiring active snap bs))"
| "job_plan X n (Retiring active snap []) s =
     rbind (covered_changes n active snap) (\<lambda>keys. Inr ([], Some (Dropping active (chunks 1000 keys))))"
| "job_plan X n (Dropping active (c # cs)) s =
     rbind (drop_plan X n active c s) (\<lambda>(st, b). Inr (b, Some (Dropping active cs)))"
| "job_plan X n (Dropping active []) s = Inr (unmark_staging n, None)"

lemma act_commit_cases:
  "act_bind (commit b) (\<lambda>_. act_ret x) d = (r, d') \<Longrightarrow>
    (kv d' = kv d \<and> (\<exists>e. r = Inl e)) \<or> (kv d' = apply_batch b (kv d) \<and> (r = Inr x \<or> (\<exists>e. r = Inl e)))"
  by (auto simp: act_bind_def split: prod.splits sum.splits dest: commit_kv commit_Inr)

lemma job_step_plan:
  assumes "job_step X n j d = (r, d')"
  shows "(kv d' = kv d \<and> (\<exists>e. r = Inl e)) \<or>
    (\<exists>b next. job_plan X n j (kv d) = Inr (b, next) \<and> kv d' = apply_batch b (kv d)
      \<and> (r = Inr next \<or> (\<exists>e. r = Inl e)))"
  using assms
proof (induction X n j arbitrary: r d' rule: job_step.induct)
  case (6 X n active c cs)
  show ?case
  proof (cases "drop_plan X n active c (kv d)")
    case (Inl x)
    with 6 show ?thesis by (auto simp: drop_chunk_def act_bind_def)
  next
    case (Inr p)
    obtain st' b where p: "p = (st', b)" by force
    with 6 Inr have "act_bind (commit b) (\<lambda>_. act_ret (Some (Dropping active cs))) d = (r, d')"
      by (auto simp: drop_chunk_def act_bind_def split: prod.splits sum.splits)
    from act_commit_cases[OF this] Inr p show ?thesis by auto
  qed
qed (auto dest: commit_kv commit_Inr simp: act_bind_def snapshot_def split: sum.splits prod.splits)

lemma job_plan_shape:
  assumes "job_plan X n j s = Inr (b, next)" "job_shape n j" "bt_ok s"
  shows "(\<forall>x \<in> set b. job_key n (op_key x)) \<and> (\<forall>j'. next = Some j' \<longrightarrow> job_shape n j')"
  using assms
proof (induction X n j s rule: job_plan.induct)
  case (3 X n active s)
  then show ?case using retire_batches_ops[of _ n active s] retire_side side_job_key by fastforce
next
  case (5 X n active snap s)
  then obtain keys where k: "covered_changes n active snap = Inr keys" "b = []" "next = Some (Dropping active (chunks 1000 keys))"
    by auto
  have "set (concat (chunks 1000 keys)) = set keys" by (simp add: concat_chunks del: set_concat)
  with covered_changes_keys[OF k(1)] 5 k show ?case by auto
next
  case (6 X n active c cs s)
  then show ?case using drop_plan_keys[of X n active c s] by auto
qed (auto simp: publish_def unmark_staging_def job_key_def)

lemma job_plan_inv:
  assumes "job_plan X n j s = Inr (b, next)" "job_inv X n s j"
    and inv: "bt_ok s" "valid_id n" "json_codec X" "good X n s" "index_ok X n s"
  shows "good X n (apply_batch b s) \<and> index_ok X n (apply_batch b s)
    \<and> (\<forall>j'. next = Some j' \<longrightarrow> job_inv X n (apply_batch b s) j')"
  using assms(1,2)
proof (cases "(X, n, j, s)" rule: job_plan.cases)
  case (1 X' n' status c bs s')
  with assms(1,2) staging_batch[OF inv(2,1,4,5), of status c bs] show ?thesis by (auto simp del: job_inv.simps)
next
  case (2 X' n' status s')
  with assms(1,2) publish_step[OF inv(1,4), of status] show ?thesis by (auto simp del: job_inv.simps)
next
  case (3 X' n' active s')
  with assms(1,2) inv show ?thesis using retire_batches_ops[of _ n active s] by auto
next
  case (4 X' n' active snap c bs s')
  with assms(1,2) retire_step[OF inv(1,4,5), of active c] show ?thesis by auto
next
  case (5 X' n' active snap s')
  with assms(1) obtain keys where k: "covered_changes n active snap = Inr keys" "b = []" "next = Some (Dropping active (chunks 1000 keys))"
    by auto
  have "concat (chunks 1000 keys) = keys" by (simp add: concat_chunks)
  moreover from this have "\<forall>c \<in> set (chunks 1000 keys). set c \<subseteq> set keys" by (metis Union_upper image_eqI set_concat)
  ultimately show ?thesis using covered_changes_keys[OF k(1)] 5 k assms(2) inv by (auto simp del: set_concat)
next
  case (6 X' n' active c cs s')
  with assms(1) obtain st where "drop_plan X n active c s = Inr (st, b)" "next = Some (Dropping active cs)" by auto
  with 6 assms(2) drop_good[OF inv(1,4,3,2), of c active st b] drop_index_ok[OF inv(1,5,3), of active c st b]
  show ?thesis by auto
next
  case (7 X' n' active s')
  have un: "\<forall>x \<in> set (unmark_staging n). side_op n x \<and> op_key x \<noteq> index_key n"
    by (simp add: unmark_staging_def side_op_def)
  have "index_ok X n (apply_batch (unmark_staging n) s)"
    by (rule index_ok_side[OF inv(5,1) un]) (simp add: unmark_staging_def not_gen_root)
  with 7 assms(1) good_side[OF inv(4) _ inv(1)] un show ?thesis by auto
qed

subsection \<open>Starting a rebuild or a cleanup\<close>

lemma concat_stage_batches:
  assumes "\<forall>(k, v) \<in> set es. k \<noteq> []" "used = 0 \<longrightarrow> b = []"
  shows "concat (stage_batches used b es) = b @ puts es"
  using assms
proof (induction used b es rule: stage_batches.induct)
  case (1 used b)
  then show ?case by (simp add: puts_def)
next
  case (2 used b k v es)
  then show ?case by (simp add: puts_def Let_def)
qed

definition fresh_generation :: "ext \<Rightarrow> string \<Rightarrow> string \<Rightarrow> store \<Rightarrow> bool" where
  "fresh_generation X n gen s \<longleftrightarrow> gen_ok gen
     \<and> (\<forall>k. prefix (gen_root n gen) k \<longrightarrow> bt_get s k = None)
     \<and> (\<forall>v old. bt_get s (index_key n) = Some v \<longrightarrow> dec_index X v = Some old \<longrightarrow> generation old \<noteq> gen)"

lemma plan_build_Inr:
  assumes "plan_build X gen conf n s = Inr (status, entries)"
  obtains ns st docs where "namespace_at X s n = Inr ns" "stats_at X s n = Inr st"
    "build_input X s n (max_build_bytes conf) = Inr docs"
    "build X gen n (ns_conf ns) (revision st) docs conf = Inr (status, entries)"
    "generation status = gen" "idx_revision status = revision st" "keys_under (gen_root n gen) entries"
proof -
  from assms obtain ns st docs where p: "namespace_at X s n = Inr ns" "stats_at X s n = Inr st"
    "build_input X s n (max_build_bytes conf) = Inr docs"
    "build X gen n (ns_conf ns) (revision st) docs conf = Inr (status, entries)"
    by (auto simp: plan_build_def)
  from p(4) have g: "generation status = gen" "idx_revision status = revision st" by (auto elim: build_Inr)
  show thesis by (rule that[OF p g build_keys[OF p(4)]])
qed

lemma begin_build_Inr:
  assumes "begin_build X gen conf n d = (Inr j, d')"
  obtains status entries where "d' = d" "plan_build X gen conf n (kv d) = Inr (status, entries)"
    "j = Staging status (mark_staging n # stage_batches 0 [] entries)"
  using assms by (auto simp: begin_build_def act_bind_Inr_iff snapshot_Inr intro: that)

lemma begin_build_shape:
  assumes start: "begin_build X gen conf n d = (Inr j, d')"
  shows "job_shape n j"
proof -
  from start obtain status entries where p: "plan_build X gen conf n (kv d) = Inr (status, entries)"
    and j: "j = Staging status (mark_staging n # stage_batches 0 [] entries)" by (rule begin_build_Inr)
  from p obtain st where keys: "keys_under (gen_root n gen) entries" by (rule plan_build_Inr)
  then have keys: "\<forall>(k, v) \<in> set entries. prefix (gen_root n gen) k \<and> k \<noteq> []"
    by (auto simp: keys_under_def gen_root_def)
  then have "\<forall>(k, v) \<in> set entries. k \<noteq> []" by blast
  from concat_stage_batches[OF this, of 0 "[]"]
  have ops: "concat (stage_batches 0 [] entries) = puts entries" by simp
  have "job_key n (op_key x)" if "b \<in> set (mark_staging n # stage_batches 0 [] entries)" "x \<in> set b" for b x
  proof -
    from that have "x \<in> set (mark_staging n) \<union> set (concat (stage_batches 0 [] entries))" by auto
    with keys gen_root_side[of n gen x] side_job_key[of n x] show ?thesis
      by (auto simp: ops puts_def mark_staging_def job_key_def)
  qed
  then show ?thesis by (auto simp: j)
qed

lemma begin_build_inv:
  assumes start: "begin_build X gen conf n d = (Inr j, d')"
    and fresh: "fresh_generation X n gen (kv d)"
    and exact: "\<And>status entries. plan_build X gen conf n (kv d) = Inr (status, entries) \<Longrightarrow>
      dec_index X (enc_index X status) = Some status"
    and conf: "1 \<le> clusters conf" and ok: "bt_ok (kv d)"
  shows "job_shape n j" and "good X n (kv d) \<Longrightarrow> job_inv X n (kv d) j"
proof -
  show "job_shape n j" using start by (rule begin_build_shape)
  from start obtain status entries where p: "plan_build X gen conf n (kv d) = Inr (status, entries)"
    and j: "j = Staging status (mark_staging n # stage_batches 0 [] entries)" by (rule begin_build_Inr)
  from p obtain st where st: "stats_at X (kv d) n = Inr st" "generation status = gen"
    "idx_revision status = revision st" "keys_under (gen_root n gen) entries"
    by (rule plan_build_Inr)
  have "\<forall>(k, v) \<in> set entries. k \<noteq> []"
    using st(4) by (auto simp: keys_under_def gen_root_def)
  from concat_stage_batches[OF this, of 0 "[]"]
  have ops: "concat (stage_batches 0 [] entries) = puts entries" by simp
  assume "good X n (kv d)"
  then have "answers_for X n status entries (kv d) (kv d)"
    using ok fresh exact[OF p] p st conf
    by (auto simp: answers_for_def built_def covers_def not_newer_def fresh_generation_def)
  then show "job_inv X n (kv d) j"
    unfolding j job_inv.simps
    by (intro exI[of _ entries] exI[of _ "kv d"] exI[of _ "[]"])
      (use fresh st(2) ops in \<open>auto simp: other_generation_def fresh_generation_def staged_def\<close>)
qed

lemma active_index_Inr: "active_index X s n = Inr active \<Longrightarrow> current X n s active"
  by (cases "bt_get s (index_key n)"; cases "dec_index X (the (bt_get s (index_key n)))")
    (auto simp: active_index_def index_at_def current_def)

lemma begin_cleanup_inv:
  assumes "begin_cleanup X n d = (r, d')"
  shows "d' = d" and "r = Inr (Some j) \<Longrightarrow> job_shape n j \<and> job_inv X n (kv d) j"
    and "r = Inr (Some j) \<Longrightarrow> bt_get (kv d) (staging_key n) \<noteq> None"
proof -
  have "d' = d \<and> (r = Inr (Some j) \<longrightarrow> bt_get (kv d) (staging_key n) \<noteq> None
      \<and> (\<exists>active. active_index X (kv d) n = Inr active \<and> j = Cleaning active))"
  proof (cases "bt_get (kv d) (staging_key n)")
    case None
    with assms show ?thesis by (auto simp: begin_cleanup_def act_bind_def)
  next
    case (Some v)
    with assms show ?thesis
      by (cases "check_ready d"; cases "active_index X (kv d) n")
        (auto simp: begin_cleanup_def act_bind_def snapshot_def)
  qed
  then show "d' = d" "r = Inr (Some j) \<Longrightarrow> job_shape n j \<and> job_inv X n (kv d) j"
    "r = Inr (Some j) \<Longrightarrow> bt_get (kv d) (staging_key n) \<noteq> None"
    using active_index_Inr by auto
qed

end
