(* ===== verification/IndexKeys.thy ===== *)
theory IndexKeys
  imports Index Sample
begin

section \<open>What the keys of the index decide\<close>

text \<open>
  Attribute postings are found through keys: equal values must share one key and different
  values must not (\<open>equality_key\<close>), and the lexicographic order of the keys of numbers must be
  their numeric order, also behind the block suffix (\<open>number_key\<close>), because ranges are read
  as key ranges.
\<close>

subsection \<open>Hexadecimal digits in order\<close>

lemma hex_padded_Suc: "hex_padded (Suc w) n = hex_padded w (n div 16) @ [hex_digit (n mod 16)]"
  by (simp add: hex_padded_def)

lemma list_less_snoc:
  "length xs = length ys \<Longrightarrow> xs @ [a] < ys @ [b :: 'a :: linorder] \<longleftrightarrow> xs < ys \<or> (xs = ys \<and> a < b)"
  by (induction xs ys rule: list_induct2) auto

lemma div_mod_less: "m div 16 < n div 16 \<or> (m div 16 = n div 16 \<and> m mod 16 < n mod 16) \<longleftrightarrow> m < (n :: nat)"
proof -
  define a b c d where "a = m div 16" "b = m mod 16" "c = n div 16" "d = n mod 16"
  then have "m = 16 * a + b" "n = 16 * c + d" "b < 16" "d < 16" by simp_all
  then show ?thesis unfolding \<open>a = m div 16\<close>[symmetric] \<open>b = m mod 16\<close>[symmetric]
    \<open>c = n div 16\<close>[symmetric] \<open>d = n mod 16\<close>[symmetric] by linarith
qed

lemma hex_padded_less:
  "m < 16 ^ w \<Longrightarrow> n < 16 ^ w \<Longrightarrow> hex_padded w m < hex_padded w n \<longleftrightarrow> m < n"
proof (induction w arbitrary: m n)
  case 0
  then show ?case by (simp add: hex_padded_def)
next
  case (Suc w)
  have bound: "m div 16 < 16 ^ w" "n div 16 < 16 ^ w" using Suc.prems by (simp_all add: less_mult_imp_div_less)
  have inj: "hex_padded w (m div 16) = hex_padded w (n div 16) \<longleftrightarrow> m div 16 = n div 16"
    using digits_rev_inj[of 16 "m div 16" w "n div 16"] bound by (simp add: hex_padded_def)
  have "hex_padded (Suc w) m < hex_padded (Suc w) n \<longleftrightarrow>
      m div 16 < n div 16 \<or> (m div 16 = n div 16 \<and> m mod 16 < n mod 16)"
    by (simp add: hex_padded_Suc list_less_snoc Suc.IH[OF bound] inj hex_digit_less)
  also have "\<dots> \<longleftrightarrow> m < n" by (rule div_mod_less)
  finally show ?case .
qed

lemma hex_padded_inject:
  "m < 16 ^ w \<Longrightarrow> n < 16 ^ w \<Longrightarrow> hex_padded w m = hex_padded w n \<longleftrightarrow> m = n"
  using digits_rev_inj[of 16 m w n] by (simp add: hex_padded_def)

subsection \<open>Numbers\<close>

lemma sortable_bits:
  "unat (if drop_bit 63 b = 1 then NOT b else b XOR push_bit 63 1) = nat (2 ^ 63 + f64_total_key (b :: f64))"
proof -
  have size: "unat b < 2 ^ 64" using unsigned_less[where w = b] by simp
  have top: "drop_bit 63 b = 1 \<longleftrightarrow> f64_sign b"
  proof -
    have "unat (drop_bit 63 b) = unat b div 2 ^ 63"
      unfolding unat_drop_bit_eq by (rule drop_bit_eq_div)
    moreover have "unat b div 2 ^ 63 = 1 \<longleftrightarrow> 2 ^ 63 \<le> unat b" using size by auto
    ultimately show ?thesis by (metis f64_sign_def unat_1 word_unat_eq_iff)
  qed
  have mag: "f64_mag b = unat b - (if f64_sign b then 2 ^ 63 else 0)" using f64_bits_split[of b] by auto
  show ?thesis
  proof (cases "f64_sign b")
    case True
    have "unat (NOT b) = 2 ^ 64 - 1 - unat b"
    proof -
      have "NOT b = - 1 - b" by (simp add: not_eq_complement)
      moreover have "unat (- 1 - b) = unat (- 1 :: 64 word) - unat b" by (rule unat_sub) simp
      moreover have "unat (- 1 :: 64 word) = 2 ^ 64 - 1" by (simp add: unsigned_minus_1_eq_mask mask_eq_exp_minus_1)
      ultimately show ?thesis by simp
    qed
    moreover have "nat (2 ^ 63 + (- 1 - int (x - 2 ^ 63))) = 2 ^ 64 - 1 - x"
      if "2 ^ 63 \<le> x" "x < 2 ^ 64" for x :: nat using that by (simp add: nat_eq_iff) 
    from this[OF _ size] True have "nat (2 ^ 63 + f64_total_key b) = 2 ^ 64 - 1 - unat b"
      by (simp only: f64_total_key_def mag if_True f64_sign_def)
    ultimately show ?thesis using True top by simp
  next
    case False
    then have "unat b < 2 ^ 63" by (simp add: f64_sign_def)
    have "b AND push_bit 63 1 = 0"
    proof (rule bit_word_eqI)
      fix i
      assume "i < LENGTH(64)"
      have "unat (drop_bit 63 b) = 0"
        using \<open>unat b < 2 ^ 63\<close> unfolding unat_drop_bit_eq by (simp add: drop_bit_eq_div)
      then have "drop_bit 63 b = 0" by (simp only: unat_eq_zero)
      then have "\<not> bit b 63" by (simp add: bit_iff_odd_drop_bit)
      then show "bit (b AND push_bit 63 1) i = bit 0 i"
        unfolding bit_and_iff bit_push_bit_iff bit_1_iff using \<open>i < LENGTH(64)\<close> by (cases "i = 63") auto
    qed
    then have "b XOR push_bit 63 1 = b + push_bit 63 1" by (simp add: disjunctive_add_eq_xor)
    moreover have "unat (b + push_bit 63 1) = unat b + 2 ^ 63"
      using \<open>unat b < 2 ^ 63\<close> by (simp add: push_bit_eq_mult unat_word_ariths)
    moreover have "nat (2 ^ 63 + int x) = x + 2 ^ 63" for x :: nat by simp
    with False mag have "nat (2 ^ 63 + f64_total_key b) = unat b + 2 ^ 63"
      by (simp only: f64_total_key_def if_False diff_zero)
    ultimately show ?thesis using False top by simp
  qed
qed


definition zero_folded :: "f64 \<Rightarrow> f64" where
  "zero_folded v = (if f64_eq v f64_zero then f64_zero else v)"

definition sort_rank :: "f64 \<Rightarrow> nat" where
  "sort_rank v = nat (2 ^ 63 + f64_total_key (zero_folded v))"

lemma number_key_rank: "number_key v = hex_padded 16 (sort_rank v)"
  by (simp only: number_key_def Let_def sort_rank_def zero_folded_def[symmetric] sortable_bits)

lemma total_key_bounds: "- (2 ^ 63) \<le> f64_total_key x" "f64_total_key x < 2 ^ 63"
  using f64_mag_less[of x] by (auto simp: f64_total_key_def)

lemma sort_rank_bound: "sort_rank v < 16 ^ 16"
  using total_key_bounds[of "zero_folded v"] by (simp add: sort_rank_def)

lemma sort_rank_less: "sort_rank v < sort_rank w \<longleftrightarrow> f64_total_key (zero_folded v) < f64_total_key (zero_folded w)"
  using total_key_bounds(1)[of "zero_folded v"] total_key_bounds(1)[of "zero_folded w"]
  by (auto simp: sort_rank_def nat_less_eq_zless)

lemma f64_key_zero: "f64_key f64_zero = 0" "\<not> f64_is_nan f64_zero" "\<not> f64_sign f64_zero" "f64_mag f64_zero = 0"
  by (simp_all add: f64_key_def f64_zero_def f64_mag_def f64_is_nan_def f64_sign_def)

lemma folded_key:
  assumes "\<not> f64_is_nan v"
  shows "f64_total_key (zero_folded v) = (if f64_key v < 0 then f64_key v - 1 else f64_key v)"
  using assms f64_key_zero
  by (auto simp: zero_folded_def f64_total_key_def f64_key_def f64_eq_def)

lemma folded_less:
  assumes "\<not> f64_is_nan v" "\<not> f64_is_nan w"
  shows "f64_total_key (zero_folded v) < f64_total_key (zero_folded w) \<longleftrightarrow> f64_key v < f64_key w"
  by (simp add: folded_key[OF assms(1)] folded_key[OF assms(2)])

lemma number_key_less_eq:
  assumes "\<not> f64_is_nan v" and "\<not> f64_is_nan w"
  shows "number_key v < number_key w \<longleftrightarrow> f64_lt v w" "number_key v = number_key w \<longleftrightarrow> f64_eq v w"
proof -
  show "number_key v < number_key w \<longleftrightarrow> f64_lt v w"
    using assms
    by (simp only: number_key_rank hex_padded_less[OF sort_rank_bound sort_rank_bound] sort_rank_less
        folded_less[OF assms] f64_lt_def) simp
  have "number_key v = number_key w \<longleftrightarrow> sort_rank v = sort_rank w"
    by (simp only: number_key_rank hex_padded_inject[OF sort_rank_bound sort_rank_bound])
  also have "\<dots> \<longleftrightarrow> f64_key v = f64_key w"
    using sort_rank_less[of v w] sort_rank_less[of w v] folded_less[OF assms] folded_less[OF assms(2,1)] by linarith
  finally show "number_key v = number_key w \<longleftrightarrow> f64_eq v w" using assms by (simp add: f64_eq_def)
qed

text \<open>C36: The sortable key of a number preserves order: for values that are not NaN, the keys compare
  lexicographically as the numbers compare, and are equal exactly when the numbers are equal,
  so the two zeros share a key.\<close>
theorem number_key_order:
  assumes "\<not> f64_is_nan v" and "\<not> f64_is_nan w"
  shows "(number_key v < number_key w \<longleftrightarrow> f64_lt v w) \<and> (number_key v = number_key w \<longleftrightarrow> f64_eq v w)"
  using number_key_less_eq[OF assms] by blast

theorem number_key_order_witness:
  "number_key f64_neg_zero = number_key f64_zero \<and> number_key f64_minus_one < number_key f64_one"
proof -
  have "\<not> f64_is_nan f64_neg_zero" "\<not> f64_is_nan f64_zero" "\<not> f64_is_nan f64_one" "\<not> f64_is_nan f64_minus_one"
    "f64_eq f64_neg_zero f64_zero" "f64_lt f64_minus_one f64_one"
    by (simp_all add: f64_neg_zero_def f64_zero_def f64_one_def f64_minus_one_def f64_is_nan_def
        f64_inf_mag_def f64_mag_def f64_eq_def f64_lt_def f64_key_def f64_sign_def)
  then show ?thesis using number_key_order by blast
qed

subsection \<open>Ranges of keys\<close>

lemma length_number_key [simp]: "length (number_key v) = 16"
  by (simp add: number_key_def Let_def)

lemma list_less_eq_length:
  "length xs = length ys \<Longrightarrow> xs @ us < ys @ vs \<longleftrightarrow> xs < ys \<or> (xs = ys \<and> us < (vs :: 'a :: linorder list))"
  by (induction xs ys rule: list_induct2) auto

lemma number_key_char: "c \<in> set (number_key v) \<Longrightarrow> c < CHR ''~''"
proof -
  assume "c \<in> set (number_key v)"
  moreover have "c \<in> set (digits_rev 16 w n) \<Longrightarrow> \<exists>k < 16. c = hex_digit k" for w n
  proof (induction w arbitrary: n)
    case (Suc w)
    moreover have "n mod 16 < 16" by simp
    ultimately show ?case by (metis digits_rev.simps(2) set_ConsD)
  qed simp
  ultimately obtain k where "k < 16" "c = hex_digit k" by (auto simp: number_key_rank hex_padded_def)
  then show ?thesis by (simp add: hex_digit_def less_char_def of_char_of split: if_splits)
qed

lemma number_key_bounds:
  shows "[] \<le> number_key v @ CHR ''/'' # rest" "number_key v @ CHR ''/'' # rest < ''~''"
proof -
  obtain c cs where c: "number_key v = c # cs" by (cases "number_key v") (use length_number_key[of v] in auto)
  then have "c < CHR ''~''" using number_key_char[of c v] by simp
  with c show "number_key v @ CHR ''/'' # rest < ''~''" by simp
qed simp

lemma range_scan:
  assumes "\<not> range_invalid r" and "f64_is_finite v"
  shows "((case gte r of None \<Rightarrow> [] | Some x \<Rightarrow> number_key x) \<le> number_key v @ ''/'' @ rest
      \<and> number_key v @ ''/'' @ rest < (case lte r of None \<Rightarrow> ''~'' | Some x \<Rightarrow> number_key x @ ''~''))
    \<longleftrightarrow> in_range r v"
proof -
  have v: "\<not> f64_is_nan v" using assms(2) by (rule f64_finite_not_nan)
  have fin: "\<not> f64_is_nan x" if "gte r = Some x \<or> lte r = Some x" for x
    using that assms(1) f64_finite_not_nan[of x] by (auto simp: range_invalid_def split: option.splits)
  have le_iff: "f64_le x y \<longleftrightarrow> f64_lt x y \<or> f64_eq x y" for x y
    by (auto simp: f64_le_def f64_lt_def f64_eq_def)
  have low: "number_key x \<le> number_key v @ ''/'' @ rest \<longleftrightarrow> f64_le x v" if "gte r = Some x" for x
  proof -
    have "number_key x \<le> number_key v @ ''/'' @ rest \<longleftrightarrow> \<not> number_key v @ ''/'' @ rest < number_key x @ []"
      by (simp add: not_less)
    also have "\<dots> \<longleftrightarrow> number_key x < number_key v \<or> number_key x = number_key v"
      by (subst list_less_eq_length) auto
    also have "\<dots> \<longleftrightarrow> f64_le x v"
      using number_key_less_eq[OF fin v, of x] that by (simp add: le_iff)
    finally show ?thesis .
  qed
  have high: "number_key v @ ''/'' @ rest < number_key x @ ''~'' \<longleftrightarrow> f64_le v x" if "lte r = Some x" for x
  proof -
    have "number_key v @ ''/'' @ rest < number_key x @ ''~'' \<longleftrightarrow> number_key v < number_key x \<or> number_key v = number_key x"
      by (subst list_less_eq_length) (auto simp: less_char_def)
    also have "\<dots> \<longleftrightarrow> f64_le v x" using number_key_less_eq[OF v fin, of x] that by (simp add: le_iff)
    finally show ?thesis .
  qed
  show ?thesis
    using low high number_key_bounds[of v rest]
    by (auto simp: in_range_def split: option.splits)
qed

text \<open>Reading a range of keys selects exactly the values in the range: a posting block of the
  value \<open>v\<close> lies between the bounds that \<open>filter_ids\<close> scans exactly when \<open>v\<close> satisfies the
  filter's \<open>gte\<close> and \<open>lte\<close>.\<close>
theorem range_scan_selects:
  assumes "\<not> range_invalid r" and "f64_is_finite v"
  shows "((case gte r of None \<Rightarrow> [] | Some x \<Rightarrow> number_key x) \<le> number_key v @ ''/'' @ rest
      \<and> number_key v @ ''/'' @ rest < (case lte r of None \<Rightarrow> ''~'' | Some x \<Rightarrow> number_key x @ ''~''))
    \<longleftrightarrow> in_range r v"
  using assms by (rule range_scan)

theorem range_scan_selects_witness:
  "let r = \<lparr>gte = Some f64_minus_one, lte = Some f64_one\<rparr> in
     in_range r f64_neg_zero \<and> number_key f64_minus_one \<le> number_key f64_neg_zero @ ''/'' @ ''00000000''
     \<and> number_key f64_neg_zero @ ''/'' @ ''00000000'' < number_key f64_one @ ''~''"
proof -
  let ?r = "\<lparr>gte = Some f64_minus_one, lte = Some f64_one\<rparr>"
  have "\<not> range_invalid ?r" "f64_is_finite f64_neg_zero" "in_range ?r f64_neg_zero"
    by (simp_all add: range_invalid_def in_range_def f64_neg_zero_def f64_one_def f64_minus_one_def
        f64_is_finite_def f64_is_nan_def f64_inf_mag_def f64_mag_def f64_le_def f64_lt_def f64_key_def f64_sign_def)
  with range_scan_selects[of ?r f64_neg_zero "''00000000''"] show ?thesis by simp
qed

subsection \<open>Equal values\<close>

lemma number_eq_canonical:
  assumes "json_finite (JNumber a)" "json_finite (JNumber b)"
  shows "number_eq a b \<longleftrightarrow> canonicalize (JNumber a) = canonicalize (JNumber b)"
proof (cases a; cases b)
  fix x y
  assume ab: "a = Float x" "b = Float y"
  with assms have nan: "\<not> f64_is_nan x" "\<not> f64_is_nan y" by (simp_all add: f64_finite_not_nan)
  have canon: "canonicalize (JNumber (Float z)) = JNumber (Float (zero_folded z))" for z
    by (simp add: zero_folded_def)
  have "zero_folded x = zero_folded y \<longleftrightarrow> f64_total_key (zero_folded x) = f64_total_key (zero_folded y)"
    by simp
  also have "\<dots> \<longleftrightarrow> f64_key x = f64_key y"
    using folded_less[OF nan] folded_less[OF nan(2,1)] by linarith
  also have "\<dots> \<longleftrightarrow> f64_eq x y" using nan by (simp add: f64_eq_def)
  finally show ?thesis unfolding ab canon by simp
qed simp_all

definition canonical_number :: "number \<Rightarrow> number" where
  "canonical_number n = (case n of Float x \<Rightarrow> Float (zero_folded x) | _ \<Rightarrow> n)"

lemma canonicalize_number: "canonicalize (JNumber n) = JNumber (canonical_number n)"
  by (cases n) (simp_all add: canonical_number_def zero_folded_def)

lemma value_eq_canonical:
  "json_finite a \<Longrightarrow> json_finite b \<Longrightarrow> value_eq a b \<longleftrightarrow> canonicalize a = canonicalize b"
  and "jsons_finite as \<Longrightarrow> jsons_finite bs \<Longrightarrow> values_eq as bs \<longleftrightarrow> canonicalize_list as = canonicalize_list bs"
  and "fields_finite fs \<Longrightarrow> fields_finite gs \<Longrightarrow> fields_eq fs gs \<longleftrightarrow> canonicalize_fields fs = canonicalize_fields gs"
proof (induction a b and as bs and fs gs rule: value_eq_values_eq_fields_eq.induct)
  case (3 a b)
  then show ?case using number_eq_canonical[of a b] by (simp add: canonicalize_number)
qed (auto simp: canonicalize_number)

text \<open>C37: Attribute equality is decided by keys: two finite JSON values have the same posting key
  exactly when the filter's comparison calls them equal (floats numerically, so 0.0 and -0.0
  agree, and an integer never equals a float), provided the encoder and the digest do not
  collide on these two values.\<close>
theorem equality_key_decides:
  assumes "json_finite a" and "json_finite b"
    and "enc_json X (canonicalize a) = enc_json X (canonicalize b) \<Longrightarrow> canonicalize a = canonicalize b"
    and "digest X (enc_json X (canonicalize a)) = digest X (enc_json X (canonicalize b)) \<Longrightarrow>
      enc_json X (canonicalize a) = enc_json X (canonicalize b)"
  shows "equality_key X a = equality_key X b \<longleftrightarrow> value_eq a b"
  using assms(3,4) by (auto simp: equality_key_def value_eq_canonical[OF assms(1,2)])

theorem equality_key_decides_witness:
  "equality_key sample_ext (JNumber (Float f64_zero)) = equality_key sample_ext (JNumber (Float f64_neg_zero))"
proof -
  let ?a = "JNumber (Float f64_zero)" and ?b = "JNumber (Float f64_neg_zero)"
  have "json_finite ?a" "json_finite ?b" "value_eq ?a ?b"
    by (simp_all add: f64_zero_def f64_neg_zero_def f64_is_finite_def f64_inf_mag_def f64_mag_def f64_eq_def
        f64_is_nan_def f64_key_def f64_sign_def)
  moreover from this have "canonicalize ?a = canonicalize ?b" using value_eq_canonical(1) by blast
  ultimately show ?thesis using equality_key_decides[of ?a ?b sample_ext] by simp
qed

end
