(* ===== verification/Entries.thy ===== *)
theory Entries
  imports Built Consistency IndexKeys
begin

section \<open>Reading a generation back\<close>

text \<open>
  The entries of a build have distinct keys, so the rows under the root of a staged
  generation are exactly the entries; and each family of entries is characterised: the
  blocks of the vector clusters hold every vector once, and the posting blocks of a key hold
  the IDs of the documents that have it.
\<close>

subsection \<open>Keys of blocks\<close>

lemma hex_digit_code: "k < 16 \<Longrightarrow> of_char (hex_digit k) = (if k < 10 then 48 + k else 87 + k :: nat)"
  by (auto simp: hex_digit_def of_char_of)

lemma hex_digit_not_slash: "k < 16 \<Longrightarrow> hex_digit k \<noteq> slash"
proof
  assume k: "k < 16" and "hex_digit k = slash"
  then have "of_char (hex_digit k) = (47 :: nat)" by simp
  with hex_digit_code[OF k] show False by (simp split: if_splits)
qed

lemma digits_rev_no_slash: "b \<le> 16 \<Longrightarrow> 0 < b \<Longrightarrow> slash \<notin> set (digits_rev b w n)"
proof (induction w arbitrary: n)
  case (Suc w)
  have "n mod b < 16" using Suc.prems by (meson mod_less_divisor order_less_le_trans)
  then have "hex_digit (n mod b) \<noteq> slash" by (rule hex_digit_not_slash)
  then show ?case using Suc by (simp add: not_sym)
qed simp

lemma dec_padded_no_slash [simp]: "slash \<notin> set (dec_padded w n)"
  by (simp add: dec_padded_def digits_rev_no_slash)

lemma number_key_no_slash [simp]: "slash \<notin> set (number_key v)"
  by (simp add: number_key_rank hex_padded_def digits_rev_no_slash)

lemma less_dec_width: "n < 10 ^ dec_width n"
proof (induction n rule: dec_width.induct)
  case (1 n)
  show ?case
  proof (cases "n < 10")
    case True
    then show ?thesis by (simp add: dec_width.simps[of n])
  next
    case False
    with 1 have "n div 10 < 10 ^ dec_width (n div 10)" by simp
    then have "n < 10 * 10 ^ dec_width (n div 10)" by simp
    with False show ?thesis by (simp add: dec_width.simps[of n])
  qed
qed

lemma dec_padded_inject [simp]: "dec_padded w m = dec_padded w n \<longleftrightarrow> m = n"
proof
  assume eq: "dec_padded w m = dec_padded w n"
  let ?k = "max w (dec_width m)" and ?l = "max w (dec_width n)"
  from eq have "length (dec_padded w m) = length (dec_padded w n)" by (rule arg_cong)
  then have len: "?l = ?k" by (simp only: dec_padded_def length_rev length_digits_rev)
  have bound: "i < 10 ^ max w (dec_width i)" for i :: nat
    by (rule less_le_trans[OF less_dec_width]) (rule power_increasing; simp)
  from bound[of n] have n: "n < 10 ^ ?k" by (simp only: len)
  from eq have "digits_rev 10 ?k m = digits_rev 10 ?k n"
    by (simp only: dec_padded_def len rev_is_rev_conv)
  moreover have "digits_rev 10 ?k m = digits_rev 10 ?k n \<longleftrightarrow> m = n"
    by (rule digits_rev_inj[OF _ _ bound n]) simp_all
  ultimately show "m = n" by (rule rev_iffD1)
qed simp

lemma slash_last_eq:
  assumes "slash \<notin> set b" "slash \<notin> set c"
  shows "k @ slash # b = l @ slash # c \<longleftrightarrow> k = l \<and> b = c"
proof
  assume "k @ slash # b = l @ slash # c"
  then have "rev b @ slash # rev k = rev c @ slash # rev l"
    by (metis rev_append rev.simps(2) append_assoc append_Cons append_Nil)
  with slash_append_eq[of "rev b" "rev c" "rev k" "rev l"] assms show "k = l \<and> b = c" by simp
qed simp

subsection \<open>Block lists\<close>

text \<open>All blocks of a map from keys to lists, as \<open>build\<close> appends them.\<close>

definition all_blocks :: "('a list \<Rightarrow> bytes) \<Rightarrow> (string, 'a list) btree \<Rightarrow> (string \<times> bytes) list" where
  "all_blocks enc m = concat (map (\<lambda>(key, xs). append_blocks enc key xs) m)"

lemma enumerate_map_iff:
  "(k, v) \<in> set (map (\<lambda>(b, x). (f b, g x)) (enumerate 0 xs)) \<longleftrightarrow> (\<exists>b < length xs. k = f b \<and> v = g (xs ! b))"
  (is "?L \<longleftrightarrow> ?R")
proof
  assume ?L
  then obtain p where "p \<in> set (enumerate 0 xs)" "k = f (fst p)" "v = g (snd p)" by auto
  then show ?R by (intro exI[of _ "fst p"]) (simp add: in_set_enumerate_eq)
next
  assume ?R
  then obtain b where b: "b < length xs" "k = f b" "v = g (xs ! b)" by blast
  then have "(b, xs ! b) \<in> set (enumerate 0 xs)" by (simp add: in_set_enumerate_eq)
  with b show ?L by force
qed

lemma append_blocks_iff:
  "(k, v) \<in> set (append_blocks enc key xs) \<longleftrightarrow>
    (\<exists>b < length (chunks 256 xs). k = key @ slash # dec_padded 8 b \<and> v = enc (chunks 256 xs ! b))"
  unfolding append_blocks_def by (subst enumerate_map_iff) simp

lemma enumerate_map_fst: "map fst (map (\<lambda>(b, x). (f b, g x)) (enumerate 0 xs)) = map f [0..<length xs]"
  by (rule nth_equalityI) (simp_all add: nth_enumerate_eq)

lemma all_blocks_iff:
  "(k, v) \<in> set (all_blocks enc m) \<longleftrightarrow>
    (\<exists>(key, xs) \<in> set m. \<exists>b < length (chunks 256 xs).
       k = key @ slash # dec_padded 8 b \<and> v = enc (chunks 256 xs ! b))"
proof -
  have "(k, v) \<in> set (all_blocks enc m) \<longleftrightarrow> (\<exists>p \<in> set m. (k, v) \<in> set (append_blocks enc (fst p) (snd p)))"
    by (simp add: all_blocks_def case_prod_unfold)
  then show ?thesis by (simp only: append_blocks_iff case_prod_unfold)
qed

lemma distinct_all_blocks:
  assumes "bt_ok m"
  shows "distinct (map fst (all_blocks enc m))"
  using bt_ok_distinct[OF assms]
proof (induction m)
  case Nil
  then show ?case by (simp add: all_blocks_def)
next
  case (Cons x m)
  obtain key xs where x: "x = (key, xs)" by force
  have "map fst (append_blocks enc key xs) = map (\<lambda>b. key @ slash # dec_padded 8 b) [0..<length (chunks 256 xs)]"
    unfolding append_blocks_def by (subst enumerate_map_fst) simp
  then have "distinct (map fst (append_blocks enc key xs))"
    by (auto simp: distinct_map inj_on_def)
  moreover have "fst ` set (append_blocks enc key xs) \<inter> fst ` set (all_blocks enc m) = {}"
  proof -
    have "key \<noteq> key'" if "(key', ys) \<in> set m" for key' ys using Cons.prems that x by force
    then have "(k, v) \<notin> set (all_blocks enc m)" if "(k, u) \<in> set (append_blocks enc key xs)" for k u v
      using that by (auto simp: append_blocks_iff all_blocks_iff slash_last_eq)
    then show ?thesis by force
  qed
  ultimately show ?case using Cons x by (simp add: all_blocks_def)
qed

definition posted :: "(string, 'a list) btree \<Rightarrow> string \<Rightarrow> 'a list" where
  "posted m k = (case bt_get m k of None \<Rightarrow> [] | Some xs \<Rightarrow> xs)"

text \<open>The blocks that a scan of the key's prefix finds, whatever their order, concatenate to
  a list with the elements posted under the key.\<close>

lemma key_prefix_block:
  assumes "slash \<notin> set b"
  shows "prefix (key @ [slash]) (k @ slash # b) \<Longrightarrow> k = key \<or> prefix (key @ [slash]) k"
proof -
  assume "prefix (key @ [slash]) (k @ slash # b)"
  then have "prefix (key @ [slash]) (k @ [slash] @ b)" by simp
  then have "prefix (key @ [slash]) (k @ [slash]) \<or> prefix (k @ [slash]) (key @ [slash])"
    by (metis append_assoc prefix_def prefix_same_cases)
  then show ?thesis
  proof
    assume "prefix (key @ [slash]) (k @ [slash])"
    then show ?thesis by (auto simp: prefix_snoc)
  next
    assume "prefix (k @ [slash]) (key @ [slash])"
    then have "k = key \<or> prefix (k @ [slash]) key" by (auto simp: prefix_snoc)
    moreover have False if "prefix (k @ [slash]) key"
    proof -
      from that obtain z where "key = k @ slash # z" by (auto simp: prefix_def)
      with \<open>prefix (key @ [slash]) (k @ [slash] @ b)\<close> have "prefix (z @ [slash]) b" by simp
      with assms show False by (auto simp: prefix_def)
    qed
    ultimately show ?thesis by blast
  qed
qed

lemma set_concat_chunks: "0 < w \<Longrightarrow> (\<Union>b < length (chunks w xs). set (chunks w xs ! b)) = set xs"
proof -
  assume "0 < w"
  then have "set xs = set (concat (chunks w xs))" by (simp add: concat_chunks del: set_concat)
  also have "\<dots> = (\<Union>c \<in> set (chunks w xs). set c)" by simp
  also have "\<dots> = (\<Union>b < length (chunks w xs). set (chunks w xs ! b))"
    by (auto simp: set_conv_nth)
  finally show ?thesis by simp
qed

subsection \<open>Attribute postings\<close>

lemma posted_push_to [simp]:
  "bt_ok m \<Longrightarrow> posted (push_to k x m) k' = (if k' = k then posted m k @ [x] else posted m k')"
  by (simp add: posted_def push_to_def)

lemma bt_ok_push_to [simp]: "bt_ok m \<Longrightarrow> bt_ok (push_to k x m)"
  by (simp add: push_to_def)

lemma posted_Nil [simp]: "posted [] k = []"
  by (simp add: posted_def)

definition eq_key :: "ext \<Rightarrow> string \<Rightarrow> string \<Rightarrow> json \<Rightarrow> string" where
  "eq_key X p field v = p @ ''e/'' @ digest X field @ ''/'' @ equality_key X v"

definition range_key :: "ext \<Rightarrow> string \<Rightarrow> string \<Rightarrow> f64 \<Rightarrow> string" where
  "range_key X p field x = p @ ''r/'' @ digest X field @ ''/'' @ number_key x"

definition finite_number :: "json \<Rightarrow> f64 option" where
  "finite_number v = (case as_f64 v of None \<Rightarrow> None | Some x \<Rightarrow> if f64_is_finite x then Some x else None)"

text \<open>The posting keys of a document.\<close>

definition attr_keys :: "ext \<Rightarrow> string \<Rightarrow> document \<Rightarrow> string list" where
  "attr_keys X p doc =
     concat (map (\<lambda>(field, v). eq_key X p field v
       # (case finite_number v of None \<Rightarrow> [] | Some x \<Rightarrow> [range_key X p field x])) (attributes doc))"

lemma index_attributes_keys:
  "index_attributes X p doc m = fold (\<lambda>k. push_to k (doc_id doc)) (attr_keys X p doc) m"
proof -
  let ?f = "\<lambda>(field, v). eq_key X p field v
       # (case finite_number v of None \<Rightarrow> [] | Some x \<Rightarrow> [range_key X p field x])"
  have "fold (\<lambda>k. push_to k (doc_id doc)) (concat (map ?f as)) m =
      fold (\<lambda>(field, v) m.
       let f = digest X field;
           m1 = push_to (p @ ''e/'' @ f @ ''/'' @ equality_key X v) (doc_id doc) m
       in (case as_f64 v of
             Some x \<Rightarrow> if f64_is_finite x
               then push_to (p @ ''r/'' @ f @ ''/'' @ number_key x) (doc_id doc) m1 else m1
           | None \<Rightarrow> m1)) as m" for as :: "(string \<times> json) list" and m
    by (induction as arbitrary: m)
      (auto simp: eq_key_def range_key_def finite_number_def Let_def split: option.splits)
  then show ?thesis by (simp add: index_attributes_def attr_keys_def)
qed

lemma fold_push_to:
  assumes "bt_ok m"
  shows "bt_ok (fold (\<lambda>k. push_to k x) ks m)
    \<and> set (posted (fold (\<lambda>k. push_to k x) ks m) k) = set (posted m k) \<union> (if k \<in> set ks then {x} else {})"
  using assms
proof (induction ks arbitrary: m)
  case Nil
  then show ?case by simp
next
  case (Cons a ks)
  from Cons.IH[of "push_to a x m"] Cons.prems show ?case by auto
qed

lemma fold_index_attributes:
  assumes "bt_ok m"
  shows "bt_ok (fold (index_attributes X p) docs m)
    \<and> set (posted (fold (index_attributes X p) docs m) k) =
        set (posted m k) \<union> {doc_id d | d. d \<in> set docs \<and> k \<in> set (attr_keys X p d)}"
  using assms
proof (induction docs arbitrary: m)
  case Nil
  then show ?case by simp
next
  case (Cons d docs)
  have one: "bt_ok (index_attributes X p d m)"
    "set (posted (index_attributes X p d m) k) = set (posted m k) \<union> (if k \<in> set (attr_keys X p d) then {doc_id d} else {})"
    using fold_push_to[OF Cons.prems, of "doc_id d" "attr_keys X p d" k] by (simp_all add: index_attributes_keys)
  from Cons.IH[OF one(1)] one(2) show ?case by auto
qed

lemma posted_key: "bt_ok m \<Longrightarrow> posted m k \<noteq> [] \<Longrightarrow> (k, posted m k) \<in> set m"
  by (cases "bt_get m k") (auto simp: posted_def bt_get_iff[symmetric])

lemma posted_row: "bt_ok m \<Longrightarrow> (k, xs) \<in> set m \<Longrightarrow> posted m k = xs"
  by (simp add: posted_def flip: bt_get_iff)

text \<open>Every key of the postings is a posting key of some document.\<close>

lemma fold_push_to_keys:
  "fst ` set (fold (\<lambda>k. push_to k x) ks m) = fst ` set m \<union> set ks"
proof (induction ks arbitrary: m)
  case (Cons a ks)
  have "fst ` set (push_to a x m) = insert a (fst ` set m)"
    unfolding push_to_def by (metis set_keys_bt_put list.set_map)
  with Cons show ?case by auto
qed simp

lemma fold_index_attributes_keys:
  "fst ` set (fold (index_attributes X p) docs m) = fst ` set m \<union> (\<Union>d \<in> set docs. set (attr_keys X p d))"
  by (induction docs arbitrary: m) (auto simp: index_attributes_keys fold_push_to_keys)

lemma attr_keys_iff:
  "k \<in> set (attr_keys X p d) \<longleftrightarrow>
    (\<exists>(field, v) \<in> set (attributes d). k = eq_key X p field v
       \<or> (\<exists>x. finite_number v = Some x \<and> k = range_key X p field x))"
  by (force simp: attr_keys_def split: option.splits)

lemma attr_keys_cases:
  assumes "k \<in> set (attr_keys X p d)"
  obtains field v where "(field, v) \<in> set (attributes d)" "k = eq_key X p field v"
  | field v x where "(field, v) \<in> set (attributes d)" "finite_number v = Some x" "k = range_key X p field x"
  using assms by (auto simp: attr_keys_iff)

subsection \<open>The entries of a build, by family\<close>

definition term_entry :: "ext \<Rightarrow> string \<Rightarrow> ns_config \<Rightarrow> document \<Rightarrow> (string \<times> bytes) list" where
  "term_entry X p schema doc =
     (let terms = document_terms X doc (text_fields schema) in
      if terms = [] then [] else [(p @ ''l/'' @ doc_id doc, enc_terms X terms)])"

definition index_text :: "ext \<Rightarrow> string \<Rightarrow> ns_config \<Rightarrow> document \<Rightarrow> (string, posting list) btree \<Rightarrow> (string, posting list) btree" where
  "index_text X p schema doc m =
     fold (\<lambda>(field, t). index_terms X p (doc_id doc) field t) (document_terms X doc (text_fields schema)) m"

lemma fold_index_document:
  "fold (index_document X p schema) docs (es, attrs, tx, corpora) =
    (es @ concat (map (term_entry X p schema) docs), fold (index_attributes X p) docs attrs,
     fold (index_text X p schema) docs tx,
     fold (\<lambda>doc m. fold (\<lambda>(field, t). count_corpus field t) (document_terms X doc (text_fields schema)) m) docs corpora)"
  by (induction docs arbitrary: es attrs tx corpora)
    (simp_all add: index_document_def Let_def term_entry_def index_text_def)

definition vector_entries :: "ext \<Rightarrow> string \<Rightarrow> nat \<Rightarrow> row list list \<Rightarrow> (string \<times> bytes) list" where
  "vector_entries X p pb members = concat (map (cluster_entries X p pb) (enumerate 0 members))"

definition members_of :: "ns_config \<Rightarrow> index_config \<Rightarrow> index_status \<Rightarrow> document list \<Rightarrow> row list list" where
  "members_of schema conf status docs =
     fold (assign (centroids status))
       (zip (vectors_of docs) (map (\<lambda>(_, v). training_vector (metric schema) v) (vectors_of docs)))
       (replicate (min (clusters conf) (length (vectors_of docs))) [])"

definition entries_of ::
  "ext \<Rightarrow> string \<Rightarrow> ns_config \<Rightarrow> row list list \<Rightarrow> document list \<Rightarrow> (string \<times> bytes) list" where
  "entries_of X p schema members docs =
     vector_entries X p (per_block schema) members @ concat (map (term_entry X p schema) docs)
     @ all_blocks (enc_ids X) (fold (index_attributes X p) docs [])
     @ all_blocks (enc_postings X) (fold (index_text X p schema) docs [])"

lemma build_entries:
  assumes "build X gen name schema rv docs conf = Inr (status, entries)"
  shows "entries = entries_of X (gen_root name gen) schema (members_of schema conf status docs) docs"
    and "cluster_blocks status = map (\<lambda>rows. div_ceil (length rows) (per_block schema)) (members_of schema conf status docs)"
    and "length (centroids status) = length (members_of schema conf status docs)"
proof -
  let ?p = "gen_root name gen" and ?m = "members_of schema conf status docs"
  from assms have *: "entries = entries_of X ?p schema ?m docs
    \<and> cluster_blocks status = map (\<lambda>rows. div_ceil (length rows) (per_block schema)) ?m"
  proof (rule build_Inr)
    fix members es attrs ps corpora
    assume f: "fold (index_document X ?p schema) docs
        (concat (map (cluster_entries X ?p (per_block schema)) (enumerate 0 members)), [], [], []) = (es, attrs, ps, corpora)"
      and m: "members = fold (assign (centroids status))
       (zip (vectors_of docs) (map (\<lambda>(_, v). training_vector (metric schema) v) (vectors_of docs)))
       (replicate (min (clusters conf) (length (vectors_of docs))) [])"
      and e: "entries = es @ concat (map (\<lambda>(key, ids). append_blocks (enc_ids X) key ids) attrs)
       @ concat (map (\<lambda>(key, ps). append_blocks (enc_postings X) key ps) ps)"
      and c: "cluster_blocks status = map (\<lambda>rows. div_ceil (length rows) (per_block schema)) members"
    have "members = ?m" by (simp add: m members_of_def)
    with f e c show ?thesis
      by (auto simp: fold_index_document entries_of_def vector_entries_def all_blocks_def)
  qed
  then show "entries = entries_of X ?p schema ?m docs"
    "cluster_blocks status = map (\<lambda>rows. div_ceil (length rows) (per_block schema)) ?m" by simp_all
  have len: "length (fold (assign cs) rows groups) = length groups" for cs rows and groups :: "row list list"
    by (induction rows arbitrary: groups) (auto simp: assign_def Let_def)
  have "length (lloyd_step m tr cs) = length cs" for m tr cs
    by (simp add: lloyd_step_def Let_def case_prod_unfold)
  then have "length ((lloyd_step m tr ^^ k) cs) = length cs" for m tr k cs
    by (induction k) simp_all
  then have "length (train m c k tr) = c" for m c k tr
    by (simp add: train_def spread_def)
  with assms show "length (centroids status) = length ?m"
    by (elim build_Inr) (simp add: members_of_def len)
qed

lemma keys_of_concat: "map fst (concat xss) = concat (map (map fst) xss)"
  by (induction xss) simp_all

lemma cluster_entries_iff:
  "(k, v) \<in> set (cluster_entries X p pb (c, rows)) \<longleftrightarrow>
    (\<exists>b < length (chunks pb rows). k = vector_block_key p c b \<and> v = encode (crc32 X) (chunks pb rows ! b))"
  unfolding cluster_entries_def by (subst enumerate_map_iff) simp

lemma vector_entries_iff:
  "(k, v) \<in> set (vector_entries X p pb members) \<longleftrightarrow>
    (\<exists>c < length members. \<exists>b < length (chunks pb (members ! c)).
       k = vector_block_key p c b \<and> v = encode (crc32 X) (chunks pb (members ! c) ! b))"
proof -
  have "(k, v) \<in> set (vector_entries X p pb members) \<longleftrightarrow>
      (\<exists>c < length members. (k, v) \<in> set (cluster_entries X p pb (c, members ! c)))"
    unfolding vector_entries_def set_concat set_map
    by (auto simp: in_set_enumerate_eq)
  then show ?thesis by (simp only: cluster_entries_iff)
qed

lemma vector_block_key_inject [simp]:
  "vector_block_key p c b = vector_block_key p c' b' \<longleftrightarrow> c = c' \<and> b = b'"
  by (auto simp: vector_block_key_def slash_append_eq)

lemma distinct_vector_entries: "distinct (map fst (vector_entries X p pb members))"
proof -
  let ?n = "\<lambda>c. length (chunks pb (members ! c))"
  let ?ix = "\<lambda>N. concat (map (\<lambda>c. map (Pair c) [0..<?n c]) [0..<N])"
  have keys: "map fst (cluster_entries X p pb (c, rows)) = map (vector_block_key p c) [0..<length (chunks pb rows)]" for c rows
    unfolding cluster_entries_def by (subst enumerate_map_fst) simp
  have "map (map fst \<circ> cluster_entries X p pb) (enumerate 0 members)
      = map (\<lambda>c. map (vector_block_key p c) [0..<?n c]) [0..<length members]"
    by (rule nth_equalityI) (simp_all add: nth_enumerate_eq keys)
  then have "map fst (vector_entries X p pb members) = map (\<lambda>(c, b). vector_block_key p c b) (?ix (length members))"
    by (simp add: vector_entries_def map_concat comp_def)
  moreover have "distinct (?ix N)" for N
    by (induction N) (auto simp: distinct_map inj_on_def)
  ultimately show ?thesis by (simp add: distinct_map inj_on_def split_paired_all)
qed

text \<open>The first character after the root tells the families apart.\<close>

definition in_family :: "string \<Rightarrow> char \<Rightarrow> string \<Rightarrow> bool" where
  "in_family p c k \<longleftrightarrow> prefix (p @ [c, slash]) k"

lemma in_family_unique: "in_family p c k \<Longrightarrow> in_family p d k \<Longrightarrow> c = d"
  by (auto simp: in_family_def prefix_def)

lemma vector_entries_family: "(k, v) \<in> set (vector_entries X p pb members) \<Longrightarrow> in_family p CHR ''v'' k"
  by (auto simp: vector_entries_iff in_family_def vector_block_key_def)

lemma term_entry_family: "(k, v) \<in> set (concat (map (term_entry X p schema) docs)) \<Longrightarrow> in_family p CHR ''l'' k"
  by (auto simp: term_entry_def Let_def in_family_def split: if_splits)

lemma in_family_append: "in_family p c k \<Longrightarrow> in_family p c (k @ r)"
  by (auto simp: in_family_def prefix_def)

lemma all_blocks_family:
  assumes "(k, v) \<in> set (all_blocks enc m)" "\<And>key. key \<in> fst ` set m \<Longrightarrow> P key" "\<And>key r. P key \<Longrightarrow> P (key @ r)"
  shows "P k"
  using assms(1,2) by (force simp: all_blocks_iff intro: assms(3))

lemma attr_keys_family:
  "k \<in> fst ` set (fold (index_attributes X p) docs []) \<Longrightarrow> in_family p CHR ''e'' k \<or> in_family p CHR ''r'' k"
  by (auto simp: fold_index_attributes_keys attr_keys_iff in_family_def eq_key_def range_key_def)

lemma text_keys_family:
  "k \<in> fst ` set (fold (index_text X p schema) docs []) \<Longrightarrow> in_family p CHR ''t'' k"
proof -
  have "keys_under (p @ ''t/'') (index_text X p schema doc m)" if "keys_under (p @ ''t/'') m" for doc m
    unfolding index_text_def
    by (rule fold_keeps[where P = "keys_under (p @ ''t/'')"]) (auto intro!: keys_under_index_terms that)
  then have "keys_under (p @ ''t/'') (fold (index_text X p schema) docs [])"
    by (intro fold_keeps[where P = "keys_under (p @ ''t/'')"]) simp_all
  then show "k \<in> fst ` set (fold (index_text X p schema) docs []) \<Longrightarrow> in_family p CHR ''t'' k"
    by (auto simp: keys_under_def in_family_def)
qed

subsection \<open>Distinct keys, and the rows of a staged generation\<close>

lemma bt_ok_index_text: "bt_ok m \<Longrightarrow> bt_ok (fold (index_text X p schema) docs m)"
proof (rule fold_keeps[where P = bt_ok])
  fix d :: document and s :: "(string, posting list) btree"
  assume "bt_ok s"
  then show "bt_ok (index_text X p schema d s)"
    unfolding index_text_def
    by (rule fold_keeps[where P = bt_ok, rotated])
      (auto simp: index_terms_def intro!: fold_keeps[where P = bt_ok])
qed

lemma distinct_term_entries:
  assumes "distinct (map doc_id docs)"
  shows "distinct (map fst (concat (map (term_entry X p schema) docs)))"
  using assms
proof (induction docs)
  case (Cons d docs)
  have "p @ ''l/'' @ doc_id d \<notin> fst ` set (concat (map (term_entry X p schema) docs))"
    using Cons.prems by (auto simp: term_entry_def Let_def split: if_splits)
  with Cons show ?case by (simp add: term_entry_def Let_def)
qed simp

definition entry_family :: "string \<Rightarrow> string \<Rightarrow> string \<times> bytes \<Rightarrow> bool" where
  "entry_family p cs e \<longleftrightarrow> (\<exists>c \<in> set cs. in_family p c (fst e))"

lemma families_disjoint:
  assumes "\<forall>e \<in> set xs. entry_family p cs e" "\<forall>e \<in> set ys. entry_family p ds e" "set cs \<inter> set ds = {}"
  shows "fst ` set xs \<inter> fst ` set ys = {}"
proof (rule equals0I)
  fix k
  assume "k \<in> fst ` set xs \<inter> fst ` set ys"
  then obtain e f where e: "e \<in> set xs" "k = fst e" and f: "f \<in> set ys" "k = fst f" by auto
  obtain c d where "c \<in> set cs" "in_family p c k" "d \<in> set ds" "in_family p d k"
    using bspec[OF assms(1) e(1)] bspec[OF assms(2) f(1)] e(2) f(2) unfolding entry_family_def by metis
  with in_family_unique[of p c k d] assms(3) show False by blast
qed

lemma entries_families:
  "\<forall>e \<in> set (vector_entries X p pb members). entry_family p ''v'' e"
  "\<forall>e \<in> set (concat (map (term_entry X p schema) docs)). entry_family p ''l'' e"
  "\<forall>e \<in> set (all_blocks (enc_ids X) (fold (index_attributes X p) docs [])). entry_family p ''er'' e"
  "\<forall>e \<in> set (all_blocks (enc_postings X) (fold (index_text X p schema) docs [])). entry_family p ''t'' e"
proof -
  show "\<forall>e \<in> set (vector_entries X p pb members). entry_family p ''v'' e"
    using vector_entries_family by (fastforce simp: entry_family_def)
  show "\<forall>e \<in> set (concat (map (term_entry X p schema) docs)). entry_family p ''l'' e"
    using term_entry_family by (fastforce simp: entry_family_def)
  show "\<forall>e \<in> set (all_blocks (enc_ids X) (fold (index_attributes X p) docs [])). entry_family p ''er'' e"
  proof (rule ballI, unfold split_paired_all)
    fix k v
    assume "(k, v) \<in> set (all_blocks (enc_ids X) (fold (index_attributes X p) docs []))"
    then have "in_family p CHR ''e'' k \<or> in_family p CHR ''r'' k"
      by (rule all_blocks_family[where P = "\<lambda>k. in_family p CHR ''e'' k \<or> in_family p CHR ''r'' k"])
        (use attr_keys_family in_family_append in blast)+
    then show "entry_family p ''er'' (k, v)" by (auto simp: entry_family_def)
  qed
  show "\<forall>e \<in> set (all_blocks (enc_postings X) (fold (index_text X p schema) docs [])). entry_family p ''t'' e"
  proof (rule ballI, unfold split_paired_all)
    fix k v
    assume "(k, v) \<in> set (all_blocks (enc_postings X) (fold (index_text X p schema) docs []))"
    then have "in_family p CHR ''t'' k"
      by (rule all_blocks_family[where P = "in_family p CHR ''t''"])
        (use text_keys_family in_family_append in blast)+
    then show "entry_family p ''t'' (k, v)" by (simp add: entry_family_def)
  qed
qed

lemma distinct_entries:
  assumes "distinct (map doc_id docs)"
  shows "distinct (map fst (entries_of X p schema members docs))"
proof -
  let ?V = "vector_entries X p (per_block schema) members" and ?L = "concat (map (term_entry X p schema) docs)"
  let ?A = "all_blocks (enc_ids X) (fold (index_attributes X p) docs [])"
  let ?T = "all_blocks (enc_postings X) (fold (index_text X p schema) docs [])"
  have "distinct (map fst ?A)" "distinct (map fst ?T)"
    using fold_index_attributes[of "[]" X p docs] bt_ok_index_text[of "[]" X p schema docs]
    by (simp_all add: distinct_all_blocks)
  moreover have "distinct (map fst ?V)" by (rule distinct_vector_entries)
  moreover have "distinct (map fst ?L)" using assms by (rule distinct_term_entries)
  moreover have "fst ` set ?V \<inter> fst ` set ?L = {}" "fst ` set ?V \<inter> fst ` set ?A = {}" "fst ` set ?V \<inter> fst ` set ?T = {}"
    by (rule families_disjoint[OF entries_families(1) entries_families(2)], simp)
      (rule families_disjoint[OF entries_families(1) entries_families(3)], simp,
       rule families_disjoint[OF entries_families(1) entries_families(4)], simp)
  moreover have "fst ` set ?L \<inter> fst ` set ?A = {}" "fst ` set ?L \<inter> fst ` set ?T = {}" "fst ` set ?A \<inter> fst ` set ?T = {}"
    by (rule families_disjoint[OF entries_families(2) entries_families(3)], simp)
      (rule families_disjoint[OF entries_families(2) entries_families(4)], simp,
       rule families_disjoint[OF entries_families(3) entries_families(4)], simp)
  ultimately show ?thesis
    unfolding entries_of_def map_append distinct_append set_append set_map image_Un
    by (simp only: Int_Un_distrib) blast
qed

lemma apply_puts: "apply_batch (puts es) s = fold (\<lambda>(k, v). bt_put k v) es s"
  by (induction es arbitrary: s) (auto simp: puts_def)

lemma entry_lookup:
  assumes "distinct (map fst es)"
  shows "bt_get (apply_batch (puts es) []) k = Some v \<longleftrightarrow> (k, v) \<in> set es"
proof
  assume "(k, v) \<in> set es"
  with assms show "bt_get (apply_batch (puts es) []) k = Some v"
    unfolding apply_puts by (intro bt.get_fold_put) simp_all
next
  assume get: "bt_get (apply_batch (puts es) []) k = Some v"
  then have "k \<in> fst ` set es"
    unfolding apply_puts using bt.get_fold_put_other[of "[]" k es] by (cases "k \<in> fst ` set es") simp_all
  then obtain w where w: "(k, w) \<in> set es" by auto
  with assms have "bt_get (apply_batch (puts es) []) k = Some w"
    unfolding apply_puts by (intro bt.get_fold_put) simp_all
  with get w show "(k, v) \<in> set es" by simp
qed

lemma staged_get:
  assumes "staged n status (puts es) s" "distinct (map fst es)" "prefix (gen_root n (generation status)) k"
  shows "bt_get s k = Some v \<longleftrightarrow> (k, v) \<in> set es"
  using assms entry_lookup[OF assms(2)] by (simp add: staged_def)

lemma staged_scan:
  assumes "staged n status (puts es) s" "distinct (map fst es)" "prefix (gen_root n (generation status)) p" "bt_ok s"
  shows "(k, v) \<in> set (scan_prefix p s) \<longleftrightarrow> prefix p k \<and> (k, v) \<in> set es"
proof -
  have "prefix (gen_root n (generation status)) k" if "prefix p k"
    using assms(3) that by (rule prefix_order.trans)
  then show ?thesis using staged_get[OF assms(1,2), of k v] scan_prefix_iff[OF assms(4), of k v p] by blast
qed

end
