(* ===== verification/Filters.thy ===== *)
theory Filters
  imports Entries
begin

section \<open>Filters answered from postings\<close>

text \<open>
  \<open>filter_ids\<close> reads posting blocks; the documents it finds are exactly those of the build
  whose attributes satisfy the filter. What this needs of the libraries is stated as
  \<open>attrs_ok\<close> and \<open>no_collisions\<close>: attribute maps are ordered and their numbers finite (a
  \<open>BTreeMap\<close> decoded by serde_json), digests are hexadecimal, and neither the digest nor the
  JSON encoder collides on the field names and values in play.
\<close>

definition attrs_ok :: "document list \<Rightarrow> bool" where
  "attrs_ok docs \<longleftrightarrow> list_all (\<lambda>d. bt_ok (attributes d) \<and> list_all (\<lambda>(_, v). json_finite v) (attributes d)) docs"

definition used_fields :: "document list \<Rightarrow> filter_spec \<Rightarrow> string list" where
  "used_fields docs f = map fst (eq_preds f) @ map fst (range_preds f) @ concat (map (\<lambda>d. map fst (attributes d)) docs)"

definition used_values :: "document list \<Rightarrow> filter_spec \<Rightarrow> json list" where
  "used_values docs f = map snd (eq_preds f) @ concat (map (\<lambda>d. map snd (attributes d)) docs)"

definition no_collisions :: "ext \<Rightarrow> document list \<Rightarrow> filter_spec \<Rightarrow> bool" where
  "no_collisions X docs f \<longleftrightarrow>
     (\<forall>b. slash \<notin> set (digest X b)) \<and> inj_on (digest X) (set (used_fields docs f))
     \<and> inj_on (enc_json X) (canonicalize ` set (used_values docs f))
     \<and> inj_on (digest X) (enc_json X ` canonicalize ` set (used_values docs f))
     \<and> list_all (\<lambda>(_, v). json_finite v) (eq_preds f)"

subsection \<open>The blocks under a posting key\<close>

lemma digest_no_slash: "no_collisions X docs f \<Longrightarrow> slash \<notin> set (digest X b)"
  by (simp add: no_collisions_def)

lemma entry_in_attrs:
  assumes "(k, v) \<in> set (entries_of X p schema members docs)" "in_family p CHR ''e'' k \<or> in_family p CHR ''r'' k"
  shows "(k, v) \<in> set (all_blocks (enc_ids X) (fold (index_attributes X p) docs []))"
proof -
  have False if "entry_family p cs (k, v)" "set cs \<inter> set ''er'' = {}" for cs
    using that assms(2) in_family_unique by (fastforce simp: entry_family_def)
  moreover have "(k, v) \<in> set (vector_entries X p (per_block schema) members) \<Longrightarrow> entry_family p ''v'' (k, v)"
    "(k, v) \<in> set (concat (map (term_entry X p schema) docs)) \<Longrightarrow> entry_family p ''l'' (k, v)"
    "(k, v) \<in> set (all_blocks (enc_postings X) (fold (index_text X p schema) docs [])) \<Longrightarrow> entry_family p ''t'' (k, v)"
    using entries_families(1,2,4) by blast+
  ultimately show ?thesis using assms(1) unfolding entries_of_def set_append by fastforce
qed

lemma eq_key_families [simp]: "in_family p CHR ''e'' (eq_key X p field v @ r)" "in_family p CHR ''r'' (range_key X p field x @ r)"
  by (simp_all add: in_family_def eq_key_def range_key_def)

lemma digest_key_prefix:
  assumes "slash \<notin> set f" "slash \<notin> set g" "slash \<notin> set b"
  shows "\<not> prefix (f @ slash # a @ [slash]) (g @ slash # b)"
proof
  assume "prefix (f @ slash # a @ [slash]) (g @ slash # b)"
  with slash_prefix_iff[OF assms(1,2)] have "prefix (a @ [slash]) b" by blast
  with assms(3) show False by (auto dest: set_mono_prefix)
qed

lemma eq_block_at:
  assumes nc: "no_collisions X docs f"
  shows "prefix (eq_key X p field v @ ''/'') k \<and> (k, w) \<in> set (entries_of X p schema members docs) \<longleftrightarrow>
    (let ids = posted (fold (index_attributes X p) docs []) (eq_key X p field v) in
     \<exists>b < length (chunks 256 ids). k = eq_key X p field v @ slash # dec_padded 8 b \<and> w = enc_ids X (chunks 256 ids ! b))"
    (is "?L \<longleftrightarrow> ?R")
proof
  let ?m = "fold (index_attributes X p) docs []" and ?K = "eq_key X p field v"
  have ok: "bt_ok ?m" using fold_index_attributes[of "[]" X p docs] by simp
  note sl = digest_no_slash[OF nc]
  {
    assume L: ?L
    then have "in_family p CHR ''e'' k" by (auto simp: prefix_def)
    with L entry_in_attrs have "(k, w) \<in> set (all_blocks (enc_ids X) ?m)" by blast
    then obtain key xs b where kb: "(key, xs) \<in> set ?m" "b < length (chunks 256 xs)"
      "k = key @ slash # dec_padded 8 b" "w = enc_ids X (chunks 256 xs ! b)"
      by (auto simp: all_blocks_iff)
    have "key \<in> fst ` set ?m" using kb(1) by force
    then obtain d where d: "key \<in> set (attr_keys X p d)" by (auto simp: fold_index_attributes_keys)
    have "\<not> prefix (?K @ [slash]) key"
      using d sl digest_key_prefix[OF sl sl sl]
      by (elim attr_keys_cases) (auto simp: eq_key_def range_key_def equality_key_def)
    with key_prefix_block[of "dec_padded 8 b" ?K key] L kb(3) have "key = ?K" by simp
    with posted_row[OF ok kb(1)] kb show ?R by (auto simp: Let_def)
  next
    assume ?R
    then obtain b where b: "b < length (chunks 256 (posted ?m ?K))" "k = ?K @ slash # dec_padded 8 b"
      "w = enc_ids X (chunks 256 (posted ?m ?K) ! b)"
      by (auto simp: Let_def)
    then have "posted ?m ?K \<noteq> []" by auto
    from posted_key[OF ok this] b have "(k, w) \<in> set (all_blocks (enc_ids X) ?m)"
      by (force simp: all_blocks_iff)
    with b(2) show ?L by (simp add: entries_of_def)
  }
qed

subsection \<open>Equality predicates\<close>

definition sat_eq :: "document \<Rightarrow> string \<Rightarrow> json \<Rightarrow> bool" where
  "sat_eq d field v \<longleftrightarrow> (case bt_get (attributes d) field of None \<Rightarrow> False | Some w \<Rightarrow> value_eq w v)"

definition sat_range :: "document \<Rightarrow> string \<Rightarrow> numeric_range \<Rightarrow> bool" where
  "sat_range d field r \<longleftrightarrow> (case bt_get (attributes d) field of None \<Rightarrow> False
     | Some v \<Rightarrow> (case as_f64 v of None \<Rightarrow> False | Some x \<Rightarrow> in_range r x))"

lemma matches_sat: "matches f (attributes d) \<longleftrightarrow>
    (\<forall>(field, v) \<in> set (eq_preds f). sat_eq d field v) \<and> (\<forall>(field, r) \<in> set (range_preds f). sat_range d field r)"
  by (simp add: matches_def sat_eq_def sat_range_def list_all_iff case_prod_unfold)

lemma used_memI:
  "(field, v) \<in> set (eq_preds f) \<Longrightarrow> field \<in> set (used_fields docs f) \<and> v \<in> set (used_values docs f)"
  "(field, r) \<in> set (range_preds f) \<Longrightarrow> field \<in> set (used_fields docs f)"
  "d \<in> set docs \<Longrightarrow> (field, v) \<in> set (attributes d) \<Longrightarrow> field \<in> set (used_fields docs f) \<and> v \<in> set (used_values docs f)"
  by (force simp: used_fields_def used_values_def)+

lemma digest_inject:
  "no_collisions X docs f \<Longrightarrow> a \<in> set (used_fields docs f) \<Longrightarrow> b \<in> set (used_fields docs f) \<Longrightarrow>
    digest X a = digest X b \<longleftrightarrow> a = b"
  by (auto simp: no_collisions_def dest: inj_onD)

lemma equality_key_inject:
  assumes "no_collisions X docs f" "a \<in> set (used_values docs f)" "b \<in> set (used_values docs f)"
    and "json_finite a" "json_finite b"
  shows "equality_key X a = equality_key X b \<longleftrightarrow> value_eq a b"
proof -
  have inj: "inj_on (enc_json X) (canonicalize ` set (used_values docs f))"
    "inj_on (digest X) (enc_json X ` canonicalize ` set (used_values docs f))"
    using assms(1) by (simp_all add: no_collisions_def)
  have "equality_key X a = equality_key X b \<longleftrightarrow> enc_json X (canonicalize a) = enc_json X (canonicalize b)"
    using inj_on_eq_iff[OF inj(2)] assms(2,3) by (simp add: equality_key_def)
  also have "\<dots> \<longleftrightarrow> canonicalize a = canonicalize b"
    using inj_on_eq_iff[OF inj(1)] assms(2,3) by simp
  finally show ?thesis by (simp add: value_eq_canonical(1)[OF assms(4,5)])
qed

lemma attrs_okD:
  assumes "attrs_ok docs" "d \<in> set docs"
  shows "bt_ok (attributes d)" "(field, v) \<in> set (attributes d) \<Longrightarrow> json_finite v"
  using assms by (auto simp: attrs_ok_def list_all_iff)

lemma eq_key_inject:
  assumes "no_collisions X docs f" "a \<in> set (used_fields docs f)" "b \<in> set (used_fields docs f)"
  shows "eq_key X p a v = eq_key X p b w \<longleftrightarrow> a = b \<and> equality_key X v = equality_key X w"
  using digest_inject[OF assms] digest_no_slash[OF assms(1)] by (simp add: eq_key_def slash_append_eq)

lemma eq_range_keys: "eq_key X p a v \<noteq> range_key X p b x"
  by (simp add: eq_key_def range_key_def)

lemma posted_eq:
  assumes nc: "no_collisions X docs f" and ok: "attrs_ok docs" and e: "(field, v) \<in> set (eq_preds f)"
  shows "set (posted (fold (index_attributes X p) docs []) (eq_key X p field v)) = {doc_id d | d. d \<in> set docs \<and> sat_eq d field v}"
proof -
  have "eq_key X p field v \<in> set (attr_keys X p d) \<longleftrightarrow> sat_eq d field v" if d: "d \<in> set docs" for d
  proof -
    have fin: "json_finite v" using nc e by (auto simp: no_collisions_def list_all_iff)
    have eq: "eq_key X p field v = eq_key X p g w \<longleftrightarrow> g = field \<and> value_eq w v" if "(g, w) \<in> set (attributes d)" for g w
      using eq_key_inject[OF nc, of field g p v w] equality_key_inject[OF nc, of w v] fin
        used_memI(1)[OF e, of docs] used_memI(3)[OF d that, of f] attrs_okD(2)[OF ok d that] by auto
    have "eq_key X p field v \<in> set (attr_keys X p d) \<longleftrightarrow> (\<exists>w. (field, w) \<in> set (attributes d) \<and> value_eq w v)"
      using eq by (auto simp: attr_keys_iff eq_range_keys)
    also have "\<dots> \<longleftrightarrow> sat_eq d field v"
      unfolding bt_get_iff[OF attrs_okD(1)[OF ok d], symmetric] sat_eq_def
      by (cases "bt_get (attributes d) field") simp_all
    finally show ?thesis .
  qed
  then show ?thesis using fold_index_attributes[of "[]" X p docs "eq_key X p field v"] by auto
qed

text \<open>Collecting the blocks of a scan.\<close>

lemma collect_blocks:
  assumes "\<forall>(k, v) \<in> set rows. \<exists>xs. dec v = Some xs"
  shows "\<exists>lists. collect_res (\<lambda>(_, v). ok_or Encoding (dec v)) rows = Inr lists
    \<and> set (concat lists) = {x. \<exists>(k, v) \<in> set rows. x \<in> set (the (dec v))}"
proof -
  have "collect_res (\<lambda>(_, v). ok_or Encoding (dec v)) rows = Inr (map (\<lambda>(k, v). the (dec v)) rows)"
    by (rule collect_res_map) (use assms in fastforce)
  then show ?thesis by fastforce
qed

lemma decoded_blocks:
  assumes rows: "\<And>k w. (k, w) \<in> set rows \<longleftrightarrow> (\<exists>b < n. k = key b \<and> w = enc (c b))"
    and dec: "\<And>b. b < n \<Longrightarrow> dec (enc (c b)) = Some (c b)"
  shows "{x. \<exists>(k, w) \<in> set rows. x \<in> set (the (dec w))} = (\<Union>b < n. set (c b))"
    and "\<forall>(k, w) \<in> set rows. \<exists>xs. dec w = Some xs"
proof -
  have "set rows = (\<lambda>b. (key b, enc (c b))) ` {..<n}"
    using rows by (auto simp: image_iff)
  then show "{x. \<exists>(k, w) \<in> set rows. x \<in> set (the (dec w))} = (\<Union>b < n. set (c b))"
    "\<forall>(k, w) \<in> set rows. \<exists>xs. dec w = Some xs"
    using dec by auto
qed

lemma keys_bs_extend: "set (keys_of (bs_extend xs m)) = set xs \<union> set (keys_of m)"
proof (induction xs arbitrary: m)
  case (Cons x xs)
  have "set (keys_of (bs_extend (x # xs) m)) = set xs \<union> set (keys_of (bt_put x () m))"
    using Cons by (simp add: bs_extend_def)
  then show ?case by (simp only: set_keys_bt_put) auto
qed (simp add: bs_extend_def)

lemma bt_ok_bs_extend [simp]: "bt_ok m \<Longrightarrow> bt_ok (bs_extend xs m)"
  by (induction xs arbitrary: m) (simp_all add: bs_extend_def)

lemma eq_ids_spec:
  assumes nc: "no_collisions X docs f" and ok: "attrs_ok docs" "bt_ok s" and json: "json_codec X"
    and e: "(field, v) \<in> set (eq_preds f)"
    and scan: "\<And>k w. prefix p k \<Longrightarrow> bt_get s k = Some w \<longleftrightarrow> (k, w) \<in> set (entries_of X p schema members docs)"
  shows "\<exists>ids. eq_ids X s p field v = Inr ids \<and> bt_ok ids
    \<and> set (keys_of ids) = {doc_id d | d. d \<in> set docs \<and> sat_eq d field v}"
proof -
  let ?K = "eq_key X p field v"
  let ?ids = "posted (fold (index_attributes X p) docs []) ?K"
  have key: "p @ ''e/'' @ digest X field @ ''/'' @ equality_key X v @ ''/'' = ?K @ ''/''" by (simp add: eq_key_def)
  have "prefix p k" if "prefix (?K @ ''/'') k" for k using that by (auto simp: eq_key_def prefix_def)
  then have rows: "(k, w) \<in> set (scan_prefix (?K @ ''/'') s) \<longleftrightarrow>
      (\<exists>b < length (chunks 256 ?ids). k = ?K @ slash # dec_padded 8 b \<and> w = enc_ids X (chunks 256 ?ids ! b))" for k w
    using scan_prefix_iff[OF ok(2), of k w "?K @ ''/''"] scan[of k w]
      eq_block_at[OF nc, of p field v k w schema members] by (auto simp: Let_def)
  have exact: "dec_ids X (enc_ids X (chunks 256 ?ids ! b)) = Some (chunks 256 ?ids ! b)" for b
    using json by simp
  have ids: "{x. \<exists>(k, w) \<in> set (scan_prefix (?K @ ''/'') s). x \<in> set (the (dec_ids X w))} = set ?ids"
    by (subst decoded_blocks(1)[OF rows exact]) (rule set_concat_chunks, simp)
  have dec: "\<forall>(k, w) \<in> set (scan_prefix (?K @ ''/'') s). \<exists>xs. dec_ids X w = Some xs"
    by (rule decoded_blocks(2)[OF rows exact])
  from collect_blocks[OF dec] obtain lists where
    "collect_res (\<lambda>(_, v). ok_or Encoding (dec_ids X v)) (scan_prefix (?K @ ''/'') s) = Inr lists"
    "set (concat lists) = set ?ids"
    unfolding ids by blast
  then have "eq_ids X s p field v = Inr (bs_extend (concat lists) []) \<and> set (keys_of (bs_extend (concat lists) [])) = set ?ids"
    unfolding eq_ids_def postings_def key keys_bs_extend by simp
  then show ?thesis using posted_eq[OF nc ok(1) e] by auto
qed

subsection \<open>Range predicates\<close>

lemma as_f64_finite: "json_finite v \<Longrightarrow> as_f64 v = Some x \<Longrightarrow> f64_is_finite x"
proof (cases v)
  case (JNumber a)
  assume "json_finite v" "as_f64 v = Some x"
  with JNumber have a: "json_finite (JNumber a)" "x = number_as_f64 a" by simp_all
  have "unat n < 2 ^ 64" for n :: u64 using unsigned_less[where w = n] by simp
  with a show ?thesis
    using f64_of_nat_finite[OF sint_magnitude]
    by (cases a) (simp_all add: f64_of_nat_finite f64_neg_finite)
qed simp_all

lemma finite_number_as_f64: "json_finite v \<Longrightarrow> finite_number v = as_f64 v"
  using as_f64_finite by (auto simp: finite_number_def split: option.splits)

definition ids_in_range :: "document list \<Rightarrow> string \<Rightarrow> numeric_range \<Rightarrow> string set" where
  "ids_in_range docs field r = {doc_id d | d. d \<in> set docs \<and> sat_range d field r}"

lemma posted_range_iff:
  assumes nc: "no_collisions X docs f" and field: "field \<in> set (used_fields docs f)"
  shows "i \<in> set (posted (fold (index_attributes X p) docs []) (range_key X p field x)) \<longleftrightarrow>
    (\<exists>d \<in> set docs. doc_id d = i \<and> (\<exists>v y. (field, v) \<in> set (attributes d)
       \<and> finite_number v = Some y \<and> number_key x = number_key y))"
proof -
  have "range_key X p field x = range_key X p g y \<longleftrightarrow> g = field \<and> number_key x = number_key y"
    if "g \<in> set (used_fields docs f)" for g y
    using digest_inject[OF nc field that] digest_no_slash[OF nc] by (auto simp: range_key_def slash_append_eq)
  note same = this
  have "range_key X p field x \<in> set (attr_keys X p d) \<longleftrightarrow>
      (\<exists>v y. (field, v) \<in> set (attributes d) \<and> finite_number v = Some y \<and> number_key x = number_key y)"
    (is "?A \<longleftrightarrow> ?B") if d: "d \<in> set docs" for d
  proof
    assume ?A
    then show ?B
    proof (rule attr_keys_cases)
      fix g v y
      assume a: "(g, v) \<in> set (attributes d)" "finite_number v = Some y" "range_key X p field x = range_key X p g y"
      from a(3) same[of g y] used_memI(3)[OF d a(1), of f] have "g = field \<and> number_key x = number_key y" by blast
      with a show ?B by blast
    qed (metis eq_range_keys)
  next
    assume ?B
    then show ?A by (force simp: attr_keys_iff range_key_def)
  qed
  then show ?thesis using fold_index_attributes[of "[]" X p docs "range_key X p field x"] by auto
qed

lemma range_block_at:
  assumes nc: "no_collisions X docs f" and field: "field \<in> set (used_fields docs f)"
  shows "prefix (p @ ''r/'' @ digest X field @ ''/'') k \<and> (k, w) \<in> set (entries_of X p schema members docs) \<longleftrightarrow>
    (\<exists>x b. let ids = posted (fold (index_attributes X p) docs []) (range_key X p field x) in
       f64_is_finite x \<and> b < length (chunks 256 ids)
       \<and> k = range_key X p field x @ slash # dec_padded 8 b \<and> w = enc_ids X (chunks 256 ids ! b))"
    (is "?L \<longleftrightarrow> ?R")
proof
  let ?m = "fold (index_attributes X p) docs []" and ?K = "range_key X p field"
  have ok: "bt_ok ?m" using fold_index_attributes[of "[]" X p docs] by simp
  note sl = digest_no_slash[OF nc]
  {
    assume L: ?L
    then have "in_family p CHR ''r'' k" by (auto simp: prefix_def in_family_def)
    with L entry_in_attrs have "(k, w) \<in> set (all_blocks (enc_ids X) ?m)" by blast
    then obtain key xs b where kb: "(key, xs) \<in> set ?m" "b < length (chunks 256 xs)"
      "k = key @ slash # dec_padded 8 b" "w = enc_ids X (chunks 256 xs ! b)"
      by (auto simp: all_blocks_iff)
    have "key \<in> fst ` set ?m" using kb(1) by force
    then obtain d where d: "d \<in> set docs" "key \<in> set (attr_keys X p d)" by (auto simp: fold_index_attributes_keys)
    from d(2) obtain g v x where x: "(g, v) \<in> set (attributes d)" "finite_number v = Some x" "key = range_key X p g x"
    proof (rule attr_keys_cases)
      fix g v
      assume "key = eq_key X p g v"
      with L kb(3) show thesis by (simp add: eq_key_def)
    qed (use that in blast)
    have "digest X field = digest X g"
      using L slash_prefix_iff[OF sl sl, of field "[]" g] by (simp add: kb(3) x(3) range_key_def)
    then have "key = ?K x" by (simp add: x(3) range_key_def)
    moreover have "f64_is_finite x" using x(2) by (simp add: finite_number_def split: option.splits if_splits)
    ultimately show ?R using posted_row[OF ok kb(1)] kb by (auto simp: Let_def intro!: exI[of _ x])
  next
    assume ?R
    then obtain x b where b: "b < length (chunks 256 (posted ?m (?K x)))" "k = ?K x @ slash # dec_padded 8 b"
      "w = enc_ids X (chunks 256 (posted ?m (?K x)) ! b)"
      by (auto simp: Let_def)
    then have "posted ?m (?K x) \<noteq> []" by auto
    from posted_key[OF ok this] b have "(k, w) \<in> set (all_blocks (enc_ids X) ?m)"
      by (force simp: all_blocks_iff)
    with b(2) show ?L by (simp add: entries_of_def range_key_def)
  }
qed

lemma range_rows_ids:
  assumes nc: "no_collisions X docs f" and ok: "attrs_ok docs" and field: "field \<in> set (used_fields docs f)"
    and valid: "\<not> range_invalid r"
  shows "(\<exists>x. f64_is_finite x \<and> in_range r x
      \<and> i \<in> set (posted (fold (index_attributes X p) docs []) (range_key X p field x)))
    \<longleftrightarrow> i \<in> ids_in_range docs field r"
proof -
  have same: "in_range r x = in_range r y" if "f64_is_finite x" "f64_is_finite y" "number_key x = number_key y" for x y
    using range_scan[OF valid that(1), of "[]"] range_scan[OF valid that(2), of "[]"]
    by (simp only: that(3))
  have fin: "f64_is_finite y" if "finite_number v = Some y" for v y
    using that by (simp add: finite_number_def split: option.splits if_splits)
  have sat: "sat_range d field r \<longleftrightarrow> (\<exists>v y. (field, v) \<in> set (attributes d) \<and> finite_number v = Some y \<and> in_range r y)"
    if d: "d \<in> set docs" for d
  proof -
    have "finite_number v = as_f64 v" if "(field, v) \<in> set (attributes d)" for v
      using attrs_okD(2)[OF ok d that] by (rule finite_number_as_f64)
    then show ?thesis
      unfolding sat_range_def by (auto simp: bt_get_iff[OF attrs_okD(1)[OF ok d], symmetric] split: option.splits)
  qed
  show ?thesis (is "?L \<longleftrightarrow> ?R")
  proof
    assume ?L
    then obtain x d v y where x: "f64_is_finite x" "in_range r x" "d \<in> set docs" "doc_id d = i"
      "(field, v) \<in> set (attributes d)" "finite_number v = Some y" "number_key x = number_key y"
      unfolding posted_range_iff[OF nc field] by blast
    with same[OF x(1) fin[OF x(6)] x(7)] have "in_range r y" by simp
    with x sat[OF x(3)] show ?R by (auto simp: ids_in_range_def)
  next
    assume ?R
    then obtain d where d: "d \<in> set docs" "doc_id d = i" "sat_range d field r" by (auto simp: ids_in_range_def)
    with sat[OF d(1)] obtain v y where "(field, v) \<in> set (attributes d)" "finite_number v = Some y" "in_range r y" by blast
    with d fin show ?L unfolding posted_range_iff[OF nc field] by blast
  qed
qed

lemma scan_between_iff:
  "bt_ok s \<Longrightarrow> (k, v) \<in> set (scan_between p lo hi s) \<longleftrightarrow>
    prefix p k \<and> bt_get s k = Some v \<and> lo \<le> drop (length p) k \<and> drop (length p) k < hi"
  by (auto simp: scan_between_def scan_prefix_iff)

lemma fold_collect_ids:
  assumes "\<forall>(k, v) \<in> set rows. \<exists>xs. dec v = Some xs" "bt_ok ids"
  shows "\<exists>r. fold_res (\<lambda>(_, v) ids. rbind (ok_or Encoding (dec v)) (\<lambda>xs. Inr (bs_extend xs ids))) rows ids = Inr r
    \<and> bt_ok r \<and> set (keys_of r) = set (keys_of ids) \<union> {x. \<exists>(k, v) \<in> set rows. x \<in> set (the (dec v))}"
  using assms
proof (induction rows arbitrary: ids)
  case (Cons row rows)
  obtain k v xs where row: "row = (k, v)" "dec v = Some xs" using Cons.prems(1) by auto
  from Cons.IH[of "bs_extend xs ids"] Cons.prems obtain r where
    "fold_res (\<lambda>(_, v) ids. rbind (ok_or Encoding (dec v)) (\<lambda>xs. Inr (bs_extend xs ids))) rows (bs_extend xs ids) = Inr r"
    "bt_ok r" "set (keys_of r) = set (keys_of (bs_extend xs ids)) \<union> {x. \<exists>(k, v) \<in> set rows. x \<in> set (the (dec v))}"
    by auto
  with row show ?case unfolding keys_bs_extend by (auto simp del: set_map)
qed simp

lemma range_ids_spec:
  assumes nc: "no_collisions X docs f" and ok: "attrs_ok docs" "bt_ok s" and json: "json_codec X"
    and e: "(field, r) \<in> set (range_preds f)" and valid: "\<not> range_invalid r"
    and scan: "\<And>k w. prefix p k \<Longrightarrow> bt_get s k = Some w \<longleftrightarrow> (k, w) \<in> set (entries_of X p schema members docs)"
  shows "\<exists>ids. range_ids X s p field r = Inr ids \<and> bt_ok ids \<and> set (keys_of ids) = ids_in_range docs field r"
proof -
  let ?low = "case gte r of None \<Rightarrow> [] | Some x \<Rightarrow> number_key x"
  let ?high = "case lte r of None \<Rightarrow> ''~'' | Some x \<Rightarrow> number_key x @ ''~''"
  let ?key = "p @ ''r/'' @ digest X field @ ''/''" and ?rows = "scan_between (p @ ''r/'' @ digest X field @ ''/'') ?low ?high s"
  let ?ids = "\<lambda>x. posted (fold (index_attributes X p) docs []) (range_key X p field x)"
  have field: "field \<in> set (used_fields docs f)" using used_memI(2)[OF e] .
  have under: "prefix p k" if "prefix ?key k" for k using that by (auto simp: prefix_def)
  have cut: "drop (length ?key) (range_key X p field x @ rest) = number_key x @ rest" for x rest
  proof -
    have "range_key X p field x @ rest = ?key @ number_key x @ rest" by (simp add: range_key_def)
    then show ?thesis by (simp only: append_eq_conv_conj[THEN iffD1, THEN conjunct2, symmetric])
  qed
  have rows: "(k, w) \<in> set ?rows \<longleftrightarrow>
      (\<exists>x b. f64_is_finite x \<and> in_range r x \<and> b < length (chunks 256 (?ids x))
         \<and> k = range_key X p field x @ slash # dec_padded 8 b \<and> w = enc_ids X (chunks 256 (?ids x) ! b))" for k w
  proof -
    have "(k, w) \<in> set ?rows \<longleftrightarrow> (prefix ?key k \<and> (k, w) \<in> set (entries_of X p schema members docs))
        \<and> ?low \<le> drop (length ?key) k \<and> drop (length ?key) k < ?high"
      unfolding scan_between_iff[OF ok(2)] using under scan by blast
    also have "\<dots> \<longleftrightarrow> (\<exists>x b. (f64_is_finite x \<and> b < length (chunks 256 (?ids x))
         \<and> k = range_key X p field x @ slash # dec_padded 8 b \<and> w = enc_ids X (chunks 256 (?ids x) ! b))
        \<and> ?low \<le> drop (length ?key) k \<and> drop (length ?key) k < ?high)"
      unfolding range_block_at[OF nc field] Let_def by blast
    also have "\<dots> \<longleftrightarrow> (\<exists>x b. f64_is_finite x \<and> in_range r x \<and> b < length (chunks 256 (?ids x))
         \<and> k = range_key X p field x @ slash # dec_padded 8 b \<and> w = enc_ids X (chunks 256 (?ids x) ! b))"
    proof -
      have "?low \<le> drop (length ?key) k \<and> drop (length ?key) k < ?high \<longleftrightarrow> in_range r x"
        if "f64_is_finite x" "k = range_key X p field x @ slash # dec_padded 8 b" for x b
        using range_scan[OF valid that(1), of "dec_padded 8 b"] unfolding that(2) cut by simp
      then show ?thesis by blast
    qed
    finally show ?thesis .
  qed
  define R where "R = ?rows"
  note rows = rows[folded R_def]
  have dec: "\<forall>(k, w) \<in> set R. \<exists>xs. dec_ids X w = Some xs" using json by (auto simp: rows)
  have "(\<exists>(k, w) \<in> set R. i \<in> set (the (dec_ids X w))) \<longleftrightarrow>
      (\<exists>x. f64_is_finite x \<and> in_range r x \<and> i \<in> (\<Union>b < length (chunks 256 (?ids x)). set (chunks 256 (?ids x) ! b)))"
    (is "?A \<longleftrightarrow> ?B") for i
  proof
    assume ?A
    then obtain k w where kw: "(k, w) \<in> set R" "i \<in> set (the (dec_ids X w))" by blast
    from kw(1)[unfolded rows] obtain x b where "f64_is_finite x" "in_range r x" "b < length (chunks 256 (?ids x))"
      "w = enc_ids X (chunks 256 (?ids x) ! b)" by blast
    with kw(2) json show ?B by auto
  next
    assume ?B
    then obtain x b where "f64_is_finite x" "in_range r x" "b < length (chunks 256 (?ids x))"
      "i \<in> set (chunks 256 (?ids x) ! b)" by blast
    moreover from this have "(range_key X p field x @ slash # dec_padded 8 b, enc_ids X (chunks 256 (?ids x) ! b)) \<in> set R"
      unfolding rows by blast
    ultimately show ?A using json by force
  qed
  then have "{i. \<exists>(k, w) \<in> set R. i \<in> set (the (dec_ids X w))} =
      {i. \<exists>x. f64_is_finite x \<and> in_range r x \<and> i \<in> (\<Union>b < length (chunks 256 (?ids x)). set (chunks 256 (?ids x) ! b))}"
    by (rule Collect_cong)
  also have "\<dots> = ids_in_range docs field r"
    using range_rows_ids[OF nc ok(1) field valid] by (simp add: set_concat_chunks)
  finally have ids: "{i. \<exists>(k, w) \<in> set R. i \<in> set (the (dec_ids X w))} = ids_in_range docs field r" .
  have "range_ids X s p field r =
      fold_res (\<lambda>(_, v) ids. rbind (ok_or Encoding (dec_ids X v)) (\<lambda>xs. Inr (bs_extend xs ids))) R []"
    by (simp add: range_ids_def Let_def R_def)
  then show ?thesis using fold_collect_ids[OF dec, of "[]"] by (simp add: ids)
qed

subsection \<open>The whole filter\<close>

lemma intersect_keys:
  "bt_ok ids \<Longrightarrow> set (keys_of (intersect (Some old) ids)) = set (keys_of old) \<inter> set (keys_of ids)"
  by (force simp: intersect_def bt_get_None_iff)

lemma fold_intersect:
  assumes "\<forall>x \<in> set preds. \<exists>ids. get x = Inr ids \<and> bt_ok ids \<and> set (keys_of ids) = {doc_id d | d. d \<in> set docs \<and> sat d x}"
    and "distinct (map doc_id docs)"
    and "case acc of None \<Rightarrow> True | Some ids \<Rightarrow> bt_ok ids \<and> set (keys_of ids) = {doc_id d | d. d \<in> set docs \<and> P d}"
    and "acc = None \<Longrightarrow> P = (\<lambda>_. True)"
  shows "\<exists>r. fold_res (\<lambda>x result. rbind (get x) (\<lambda>ids. Inr (Some (intersect result ids)))) preds acc = Inr r
    \<and> (case r of None \<Rightarrow> acc = None \<and> preds = []
       | Some ids \<Rightarrow> bt_ok ids \<and> set (keys_of ids) = {doc_id d | d. d \<in> set docs \<and> P d \<and> (\<forall>x \<in> set preds. sat d x)})"
  using assms(1,3,4)
proof (induction preds arbitrary: acc P)
  case Nil
  then show ?case by (auto split: option.splits)
next
  case (Cons x preds)
  from Cons.prems(1) obtain ids where ids: "get x = Inr ids" "bt_ok ids"
    "set (keys_of ids) = {doc_id d | d. d \<in> set docs \<and> sat d x}" by auto
  have inj: "d = e" if "d \<in> set docs" "e \<in> set docs" "doc_id d = doc_id e" for d e
    using that assms(2) by (auto simp: distinct_map dest: inj_onD)
  have "bt_ok (intersect acc ids) \<and> set (keys_of (intersect acc ids)) = {doc_id d | d. d \<in> set docs \<and> P d \<and> sat d x}"
  proof (cases acc)
    case None
    with Cons.prems(3) ids show ?thesis by (simp add: intersect_def)
  next
    case (Some old)
    then have old: "bt_ok old" "set (keys_of old) = {doc_id d | d. d \<in> set docs \<and> P d}" using Cons.prems(2) by simp_all
    have "{doc_id d | d. d \<in> set docs \<and> P d} \<inter> {doc_id d | d. d \<in> set docs \<and> sat d x}
        = {doc_id d | d. d \<in> set docs \<and> P d \<and> sat d x}"
      using inj by blast
    with old ids show ?thesis
      unfolding Some intersect_keys[OF ids(2)] by (simp add: intersect_def)
  qed
  with Cons.IH[of "\<lambda>d. P d \<and> sat d x" "Some (intersect acc ids)"] Cons.prems(1)
  show ?case by (fastforce simp: ids(1) conj_assoc split: option.splits)
qed

lemma filter_ids_spec:
  assumes nc: "no_collisions X docs f" and ok: "attrs_ok docs" "bt_ok s" and json: "json_codec X"
    and valid: "validate_filter f = Inr ()" and dist: "distinct (map doc_id docs)"
    and scan: "\<And>k w. prefix p k \<Longrightarrow> bt_get s k = Some w \<longleftrightarrow> (k, w) \<in> set (entries_of X p schema members docs)"
  shows "\<exists>sel. filter_ids X s p f = Inr sel
    \<and> (case sel of None \<Rightarrow> eq_preds f = [] \<and> range_preds f = []
       | Some ids \<Rightarrow> bt_ok ids \<and> set (keys_of ids) = {doc_id d | d. d \<in> set docs \<and> matches f (attributes d)})"
proof -
  let ?get = "\<lambda>(field, v). eq_ids X s p field v" and ?range = "\<lambda>(field, r). range_ids X s p field r"
  let ?eq = "\<lambda>d (field, v). sat_eq d field v" and ?in = "\<lambda>d (field, r). sat_range d field r"
  have "\<forall>x \<in> set (eq_preds f). \<exists>ids. ?get x = Inr ids \<and> bt_ok ids
      \<and> set (keys_of ids) = {doc_id d | d. d \<in> set docs \<and> ?eq d x}"
    using eq_ids_spec[OF nc ok json _ scan] by fastforce
  from fold_intersect[OF this dist, of "\<lambda>_. True" None] obtain acc where acc:
    "fold_res (\<lambda>x result. rbind (?get x) (\<lambda>ids. Inr (Some (intersect result ids)))) (eq_preds f) None = Inr acc"
    "case acc of None \<Rightarrow> eq_preds f = []
     | Some ids \<Rightarrow> bt_ok ids \<and> set (keys_of ids) = {doc_id d | d. d \<in> set docs \<and> (\<forall>x \<in> set (eq_preds f). ?eq d x)}"
    by (auto split: option.splits)
  have "\<not> range_invalid r" if "(field, r) \<in> set (range_preds f)" for field r
    using valid that by (fastforce simp: validate_filter_def split: if_splits)
  then have "\<forall>x \<in> set (range_preds f). \<exists>ids. ?range x = Inr ids \<and> bt_ok ids
      \<and> set (keys_of ids) = {doc_id d | d. d \<in> set docs \<and> ?in d x}"
    using range_ids_spec[OF nc ok json _ _ scan] by (fastforce simp: ids_in_range_def)
  from fold_intersect[OF this dist, of "\<lambda>d. \<forall>x \<in> set (eq_preds f). ?eq d x" acc] acc(2) obtain sel where
    "fold_res (\<lambda>x result. rbind (?range x) (\<lambda>ids. Inr (Some (intersect result ids)))) (range_preds f) acc = Inr sel"
    "case sel of None \<Rightarrow> acc = None \<and> range_preds f = []
     | Some ids \<Rightarrow> bt_ok ids \<and> set (keys_of ids) =
         {doc_id d | d. d \<in> set docs \<and> (\<forall>x \<in> set (eq_preds f). ?eq d x) \<and> (\<forall>x \<in> set (range_preds f). ?in d x)}"
    by (auto split: option.splits)
  then show ?thesis
    using acc by (auto simp: filter_ids_def case_prod_unfold matches_sat split: option.splits)
qed

end
