(* ===== verification/TopK.thy ===== *)
theory TopK
  imports Index "HOL-Library.Multiset"
begin

section \<open>Ranking and the bounded heap (search.rs)\<close>

text \<open>
  Hits are ranked by \<open>total_cmp\<close> on the score, highest first, ties by ID. \<open>BinaryHeap\<close> is
  known to its client by what the locale \<open>priority_queue\<close> assumes: a bag with its greatest
  element at hand. That \<open>retain\<close> keeps the \<open>k\<close> best is proved from that contract alone; the
  contract is discharged on a list in ascending order.
\<close>

subsection \<open>The order of hits\<close>

datatype ranked = Ranked (score: f64) (rid: string)

text \<open>\<open>Ord for Ranked\<close>: the better hit is the smaller one.\<close>

definition rank_before :: "ranked \<Rightarrow> ranked \<Rightarrow> bool" where
  "rank_before a b \<longleftrightarrow>
     f64_total_key (score b) < f64_total_key (score a)
     \<or> (f64_total_key (score b) = f64_total_key (score a) \<and> rid a < rid b)"

instantiation ranked :: linorder
begin

definition less_ranked :: "ranked \<Rightarrow> ranked \<Rightarrow> bool" where
  "less_ranked a b \<longleftrightarrow> rank_before a b"
definition less_eq_ranked :: "ranked \<Rightarrow> ranked \<Rightarrow> bool" where
  "less_eq_ranked a b \<longleftrightarrow> a = b \<or> rank_before a b"

instance
proof
  fix a b c :: ranked
  show "a < b \<longleftrightarrow> a \<le> b \<and> \<not> b \<le> a"
    by (auto simp: less_ranked_def less_eq_ranked_def rank_before_def)
  show "a \<le> a" by (simp add: less_eq_ranked_def)
  show "a \<le> b \<Longrightarrow> b \<le> c \<Longrightarrow> a \<le> c"
    by (auto simp: less_eq_ranked_def rank_before_def)
  show "a \<le> b \<Longrightarrow> b \<le> a \<Longrightarrow> a = b"
    by (auto simp: less_eq_ranked_def rank_before_def)
  show "a \<le> b \<or> b \<le> a"
    by (cases a; cases b) (auto simp: less_eq_ranked_def rank_before_def)
qed

end

subsection \<open>The \<open>k\<close> first of a sorted list\<close>

lemma insort_append_le:
  "sorted (xs @ ys) \<Longrightarrow> ys \<noteq> [] \<Longrightarrow> x < hd ys \<Longrightarrow> insort x (xs @ ys) = insort x xs @ (ys :: 'a :: linorder list)"
  by (induction xs) (auto simp: neq_Nil_conv)

lemma take_insort_take:
  "take k (insort x (take k xs)) = take k (insort x (xs :: 'a :: linorder list))"
proof (induction xs arbitrary: k)
  case Nil
  then show ?case by simp
next
  case (Cons y xs)
  show ?case
  proof (cases k)
    case (Suc m)
    with Cons[of m] show ?thesis by (auto simp: take_Cons' min_def)
  qed simp
qed

lemma insort_above: "sorted xs \<Longrightarrow> \<forall>y \<in> set xs. y \<le> x \<Longrightarrow> insort x xs = xs @ [x :: 'a :: linorder]"
proof (induction xs)
  case (Cons y xs)
  then have IH: "insort x xs = xs @ [x]" by simp
  show ?case
  proof (cases "x \<le> y")
    case True
    with Cons.prems have "x = y" "\<forall>z \<in> set xs. x \<le> z" by auto
    then have "insort x xs = x # xs" by (intro insort_is_Cons) auto
    with IH \<open>x = y\<close> show ?thesis by simp
  qed (use IH in simp)
qed simp

lemma insort_full:
  assumes "sorted xs" "length xs = k" "0 < k"
  shows "take k (insort x xs) = (if x < last xs then insort x (butlast xs) else (xs :: 'a :: linorder list))"
proof (cases "x < last xs")
  case True
  have xs: "xs = butlast xs @ [last xs]" using assms(2,3) by (metis append_butlast_last_id length_0_conv less_not_refl)
  have "insort x (butlast xs @ [last xs]) = insort x (butlast xs) @ [last xs]"
    using True assms(1) xs by (intro insort_append_le) simp_all
  then have "insort x xs = insort x (butlast xs) @ [last xs]" using xs by simp
  with True assms(2,3) show ?thesis by simp
next
  case False
  have xs: "xs = butlast xs @ [last xs]" using assms(2,3) by (metis append_butlast_last_id length_0_conv less_not_refl)
  then have "sorted (butlast xs @ [last xs])" using assms(1) by metis
  then have "\<forall>y \<in> set (butlast xs @ [last xs]). y \<le> last xs" by (auto simp: sorted_append)
  with xs False have "\<forall>y \<in> set xs. y \<le> x" by (metis linorder_not_less order.trans)
  with assms(1) have "insort x xs = xs @ [x]" by (rule insort_above)
  with False assms(2) show ?thesis by simp
qed

subsection \<open>The contract of a priority queue\<close>

locale priority_queue =
  fixes push :: "'a :: linorder \<Rightarrow> 'h \<Rightarrow> 'h"
    and pop :: "'h \<Rightarrow> 'h"
    and peek :: "'h \<Rightarrow> 'a option"
    and len :: "'h \<Rightarrow> nat"
    and bag :: "'h \<Rightarrow> 'a multiset"
    and ok :: "'h \<Rightarrow> bool"
  assumes ok_push: "ok h \<Longrightarrow> ok (push x h)"
    and ok_pop: "ok h \<Longrightarrow> ok (pop h)"
    and bag_push: "ok h \<Longrightarrow> bag (push x h) = add_mset x (bag h)"
    and len_bag: "ok h \<Longrightarrow> len h = size (bag h)"
    and peek_empty: "ok h \<Longrightarrow> bag h = {#} \<Longrightarrow> peek h = None"
    and peek_max: "ok h \<Longrightarrow> bag h \<noteq> {#} \<Longrightarrow> peek h = Some (Max_mset (bag h))"
    and bag_pop: "ok h \<Longrightarrow> bag h \<noteq> {#} \<Longrightarrow> bag (pop h) = bag h - {#Max_mset (bag h)#}"
begin

definition keep_best :: "nat \<Rightarrow> 'a \<Rightarrow> 'h \<Rightarrow> 'h" where
  "keep_best k x h =
     (if len h < k then push x h
      else case peek h of
          Some worst \<Rightarrow> if x < worst then push x (pop h) else h
        | None \<Rightarrow> h)"

abbreviation ranking :: "'h \<Rightarrow> 'a list" where
  "ranking h \<equiv> sorted_list_of_multiset (bag h)"

lemma last_ranking:
  "bag h \<noteq> {#} \<Longrightarrow> last (ranking h) = Max_mset (bag h) \<and>
    sorted_list_of_multiset (bag h - {#Max_mset (bag h)#}) = butlast (ranking h)"
proof -
  assume ne: "bag h \<noteq> {#}"
  let ?s = "ranking h"
  have s: "sorted ?s" "set ?s = set_mset (bag h)" by simp_all
  then have nonempty: "?s \<noteq> []" using ne by (metis list.set(1) set_mset_eq_empty_iff)
  have split: "?s = butlast ?s @ [last ?s]" using nonempty by simp
  then have "sorted (butlast ?s @ [last ?s])" using s(1) by metis
  then have max: "\<forall>x \<in> set (butlast ?s). x \<le> last ?s" and sb: "sorted (butlast ?s)"
    by (simp_all add: sorted_append)
  have last: "last ?s = Max_mset (bag h)"
  proof (rule Max_eqI[symmetric])
    show "last ?s \<in># bag h" using s nonempty by (metis last_in_set)
    fix y
    assume "y \<in># bag h"
    then have "y \<in> set (butlast ?s @ [last ?s])" using split s(2) by metis
    with max show "y \<le> last ?s" by auto
  qed simp
  have "mset ?s = add_mset (last ?s) (mset (butlast ?s))" by (subst split) simp
  then have "bag h - {#last ?s#} = mset (butlast ?s)"
    by (metis add_mset_remove_trivial mset_sorted_list_of_multiset)
  then have "sorted_list_of_multiset (bag h - {#last ?s#}) = butlast ?s"
    using sb by (simp add: sorted_list_of_multiset_mset sorted_sort_id)
  with last show ?thesis by simp
qed

lemma keep_best_step:
  assumes "ok h" "len h \<le> k"
  shows "ok (keep_best k x h) \<and> len (keep_best k x h) \<le> k
    \<and> ranking (keep_best k x h) = take k (insort x (ranking h))"
proof -
  have sz: "length (ranking h) = len h"
    using len_bag[OF assms(1)] by (metis mset_sorted_list_of_multiset size_mset)
  show ?thesis
  proof (cases "len h < k")
    case True
    then have "keep_best k x h = push x h" by (simp add: keep_best_def)
    moreover have "len (push x h) = Suc (len h)" using assms(1) by (simp add: len_bag ok_push bag_push)
    ultimately show ?thesis using True assms(1) sz by (simp add: ok_push bag_push)
  next
    case False
    with assms(2) have k: "len h = k" by simp
    show ?thesis
    proof (cases "bag h = {#}")
      case True
      with k assms(1) have "k = 0" by (simp add: len_bag)
      with True assms(1) k show ?thesis by (simp add: keep_best_def peek_empty)
    next
      case ne: False
      then have "0 < k" using k assms(1) by (simp add: len_bag nonempty_has_size)
      note lr = last_ranking[OF ne] and full = insort_full[OF sorted_sorted_list_of_multiset _ this, of "bag h" x]
      have kb: "keep_best k x h = (if x < Max_mset (bag h) then push x (pop h) else h)"
        using k assms(1) ne by (simp add: keep_best_def peek_max)
      have "size (bag (pop h)) = k - 1"
        using k ne assms(1) by (simp add: bag_pop len_bag size_Diff_singleton Max_in)
      with \<open>0 < k\<close> assms(1) have "len (push x (pop h)) = k"
        by (simp add: len_bag ok_push ok_pop bag_push)
      with kb lr full sz k assms(1) ne show ?thesis
        by (simp add: ok_push ok_pop bag_push bag_pop)
    qed
  qed
qed

lemma keep_best_all:
  assumes "ok h" "len h \<le> k"
  shows "ok (fold (keep_best k) xs h) \<and> len (fold (keep_best k) xs h) \<le> k
    \<and> ranking (fold (keep_best k) xs h) = take k (fold insort xs (ranking h))"
  using assms
proof (induction xs arbitrary: h)
  case Nil
  then have "length (ranking h) \<le> k" by (metis len_bag mset_sorted_list_of_multiset size_mset)
  with Nil show ?case by simp
next
  case (Cons x xs)
  have gen: "take k (fold insort xs (take k ys)) = take k (fold insort xs ys)" for ys :: "'a list"
  proof (induction xs arbitrary: ys)
    case (Cons z zs)
    have "take k (fold insort zs (insort z (take k ys))) = take k (fold insort zs (take k (insort z (take k ys))))"
      by (rule Cons[symmetric])
    also have "\<dots> = take k (fold insort zs (take k (insort z ys)))" by (simp add: take_insort_take)
    also have "\<dots> = take k (fold insort zs (insort z ys))" by (rule Cons)
    finally show ?case by simp
  qed simp
  note step = keep_best_step[OF Cons.prems, of x]
  with Cons.IH[of "keep_best k x h"] show ?case by (simp add: gen)
qed

end


subsection \<open>The heap of the model\<close>

type_synonym heap = "ranked list"

definition heap_push :: "ranked \<Rightarrow> heap \<Rightarrow> heap" where "heap_push x h = insort x h"
definition heap_pop :: "heap \<Rightarrow> heap" where "heap_pop h = butlast h"
definition heap_peek :: "heap \<Rightarrow> ranked option" where
  "heap_peek h = (if h = [] then None else Some (last h))"

lemma last_Max_mset:
  assumes "sorted h" "h \<noteq> []"
  shows "Max (set h) = (last h :: 'a :: linorder)"
proof (rule Max_eqI)
  fix y
  assume "y \<in> set h"
  then have "sorted (butlast h @ [last h])" "y \<in> set (butlast h @ [last h])" using assms by simp_all
  then show "y \<le> last h" by (auto simp: sorted_append)
qed (use assms in simp_all)

interpretation pq: priority_queue heap_push heap_pop heap_peek length mset sorted
proof unfold_locales
  fix h :: heap
  assume "sorted h"
  then have "sorted (butlast h @ [last h]) \<or> h = []" by (cases "h = []") simp_all
  then show "sorted (heap_pop h)" by (auto simp: heap_pop_def sorted_append)
next
  fix h :: heap
  assume "sorted h" "mset h \<noteq> {#}"
  then have "h = butlast h @ [last h]" "Max_mset (mset h) = last h" by (simp_all add: last_Max_mset)
  moreover from this(1) have "mset h = add_mset (last h) (mset (butlast h))"
    by (metis mset.simps add_mset_add_single mset_append)
  ultimately show "mset (heap_pop h) = mset h - {#Max_mset (mset h)#}"
    by (simp add: heap_pop_def)
qed (auto simp: heap_push_def heap_peek_def last_Max_mset sorted_insort)

definition retain :: "nat \<Rightarrow> heap \<Rightarrow> string \<Rightarrow> f64 \<Rightarrow> heap" where
  "retain k best i sc =
     (let hit = Ranked sc i in
      if length best < k then heap_push hit best
      else (case heap_peek best of
          Some worst \<Rightarrow> if hit < worst then heap_push hit (heap_pop best) else best
        | None \<Rightarrow> best))"

lemma retain_keep_best: "retain k best i sc = pq.keep_best k (Ranked sc i) best"
  by (simp add: retain_def pq.keep_best_def Let_def)

definition retain_all :: "nat \<Rightarrow> (string \<times> f64) list \<Rightarrow> heap \<Rightarrow> heap" where
  "retain_all k rows best = fold (\<lambda>(i, sc) h. retain k h i sc) rows best"

abbreviation as_ranked :: "string \<times> f64 \<Rightarrow> ranked" where
  "as_ranked r \<equiv> Ranked (snd r) (fst r)"

lemma retain_all_keep_best: "retain_all k rows best = fold (pq.keep_best k) (map as_ranked rows) best"
  by (simp add: retain_all_def retain_keep_best fold_map comp_def case_prod_unfold)

lemma retain_all_spec:
  assumes "sorted best" "length best \<le> k"
  shows "sorted (retain_all k rows best) \<and> length (retain_all k rows best) \<le> k
    \<and> retain_all k rows best = take k (fold insort (map as_ranked rows) best)"
  using pq.keep_best_all[OF assms, of "map as_ranked rows"]
    assms(1) pq.keep_best_all[OF assms, of "map as_ranked rows", THEN conjunct1]
  by (simp add: retain_all_keep_best sorted_list_of_multiset_mset sorted_sort_id)

lemma fold_insort_sort: "fold insort xs [] = sort (xs :: ranked list)"
proof -
  have "mset (fold insort xs ys) = mset xs + mset ys \<and> (sorted ys \<longrightarrow> sorted (fold insort xs ys))"
    for xs ys :: "ranked list"
    by (induction xs arbitrary: ys) (auto simp: sorted_insort)
  from this[of _ "[]"] show ?thesis by (intro properties_for_sort[symmetric]) simp_all
qed

lemma retain_all_sorted: "retain_all k rows [] = take k (sort (map as_ranked rows))"
  using retain_all_spec[of "[]" k rows] by (simp add: fold_insort_sort)

text \<open>C30: Offering any rows to the bounded heap, in any order, keeps exactly the \<open>k\<close> best of them:
  the result, in rank order, is the first \<open>k\<close> of all rows sorted by score (\<open>total_cmp\<close>,
  highest first) and then by ID.\<close>
theorem retain_keeps_top_k:
  "sort (retain_all k rows []) = take k (sort (map (\<lambda>(i, sc). Ranked sc i) rows))"
  by (simp add: retain_all_sorted sorted_sort_id sorted_wrt_take case_prod_unfold)

end
