(* ===== verification/Search.thy ===== *)
theory Search
  imports TopK Pages
begin

section \<open>Vector and text queries (search.rs)\<close>

text \<open>
  A query pins one snapshot. A vector query scans every document, the filtered IDs, or the
  blocks of the nearest clusters, and overlays the documents changed since the index was
  built; its rows are scored in batches of 128 and kept in the bounded heap. A text query
  sums BM25 over the postings of the index, corrected for changed documents, or over a scan.
\<close>

subsection \<open>Scoring batches\<close>

text \<open>The state of the loops: the heap, the rows not yet scored, and the number scanned.\<close>

type_synonym scan_state = "heap \<times> row list \<times> nat"

definition score_rows :: "query_request \<Rightarrow> metric \<Rightarrow> row list \<Rightarrow> heap \<Rightarrow> heap" where
  "score_rows q m rows best =
     fold (\<lambda>(i, v) h. retain (q_top_k q) h i (distance_score (q_vector q) v m)) rows best"

definition flush_at_128 :: "query_request \<Rightarrow> metric \<Rightarrow> scan_state \<Rightarrow> scan_state" where
  "flush_at_128 q m st =
     (let (best, rows, scanned) = st in
      if length rows = 128 then (score_rows q m rows best, [], scanned) else st)"

definition flush_rest :: "query_request \<Rightarrow> metric \<Rightarrow> scan_state \<Rightarrow> heap \<times> nat" where
  "flush_rest q m st =
     (let (best, rows, scanned) = st in
      (if rows = [] then best else score_rows q m rows best, scanned))"

definition add_row :: "query_request \<Rightarrow> metric \<Rightarrow> row option \<Rightarrow> scan_state \<Rightarrow> scan_state" where
  "add_row q m r st =
     (let (best, rows, scanned) = st in
      flush_at_128 q m (best, (case r of None \<Rightarrow> rows | Some x \<Rightarrow> rows @ [x]), scanned + 1))"

text \<open>\<open>hydrate\<close>: the hits in rank order with their attributes.\<close>

definition hydrate :: "ext \<Rightarrow> store \<Rightarrow> string \<Rightarrow> heap \<Rightarrow> search_hit list result" where
  "hydrate X s name best =
     collect_res (\<lambda>r. rbind (attributes_at X s name (rid r)) (\<lambda>od.
       rbind (ok_or (Corrupt ''index references a missing document'') od) (\<lambda>doc.
         Inr \<lparr>hit_id = rid r, hit_score = score r, hit_attributes = attributes doc\<rparr>)))
       (sort best)"

text \<open>\<open>pending\<close>: IDs whose change record is newer than the index.\<close>

definition pending :: "store \<Rightarrow> string \<Rightarrow> u64 \<Rightarrow> bset result" where
  "pending s name watermark =
     fold_res (\<lambda>(k, v) ids.
         rbind (parse_revision v) (\<lambda>r.
           if watermark < r then
             (let i = drop (length (change_prefix name)) k in
              if valid_utf8 i then Inr (bs_insert i ids) else Inl (Corrupt ''invalid change ID''))
           else Inr ids))
       (scan_prefix (change_prefix name) s) []"

subsection \<open>The three plans of a vector query\<close>

definition exact_row ::
  "ext \<Rightarrow> store \<Rightarrow> string \<Rightarrow> query_request \<Rightarrow> metric \<Rightarrow> string \<times> bytes \<Rightarrow> scan_state \<Rightarrow> scan_state result"
where
  "exact_row X s name q m rw st =
     rbind (ok_or Encoding (dec_doc X (snd rw))) (\<lambda>doc.
     rbind (if matches (q_filter q) (attributes doc) then vector_at X s name (doc_id doc) else Inr None)
       (\<lambda>ov. Inr (add_row q m (map_option (\<lambda>v. (doc_id doc, v)) ov) st)))"

definition exact_scan :: "ext \<Rightarrow> store \<Rightarrow> string \<Rightarrow> query_request \<Rightarrow> metric \<Rightarrow> scan_state result" where
  "exact_scan X s name q m =
     fold_res (exact_row X s name q m) (scan_prefix (document_prefix name) s) ([], [], 0)"

definition filtered_exact ::
  "ext \<Rightarrow> store \<Rightarrow> string \<Rightarrow> query_request \<Rightarrow> metric \<Rightarrow> bset \<Rightarrow> bset \<Rightarrow> scan_state result"
where
  "filtered_exact X s name q m ids dirty =
     fold_res (\<lambda>i st. rbind (vector_at X s name i) (\<lambda>ov.
         Inr (add_row q m (map_option (\<lambda>v. (i, v)) ov) st)))
       (filter (\<lambda>i. \<not> bs_mem i dirty) (keys_of ids)) ([], [], 0)"

text \<open>Clusters by score, best first, ties by number; the blocks of the first \<open>probes\<close> of them.\<close>

definition probe_order :: "index_status \<Rightarrow> query_request \<Rightarrow> metric \<Rightarrow> nat list" where
  "probe_order idx q m =
     map fst (sort_key (\<lambda>(i, sc). (- f64_total_key sc, i))
       (map (\<lambda>(i, c). (i, distance_score (q_vector q) c m)) (enumerate 0 (centroids idx))))"

definition block_keys :: "index_status \<Rightarrow> string \<Rightarrow> nat list \<Rightarrow> string list" where
  "block_keys idx p cs =
     concat (map (\<lambda>c. map (vector_block_key p c) [0..<cluster_blocks idx ! c]) cs)"

definition ann_block ::
  "ext \<Rightarrow> store \<Rightarrow> query_request \<Rightarrow> metric \<Rightarrow> bset \<Rightarrow> bset option \<Rightarrow> string \<Rightarrow> scan_state \<Rightarrow> scan_state result"
where
  "ann_block X s q m dirty selected key st =
     rbind (ok_or (Corrupt ''missing vector cluster block'') (bt_get s key)) (\<lambda>block.
     rbind (decode (crc32 X) block) (\<lambda>decoded.
       let (best, rows, scanned) = st;
           keep = filter (\<lambda>(i, _). \<not> bs_mem i dirty
                    \<and> (case selected of None \<Rightarrow> True | Some ids \<Rightarrow> bs_mem i ids)) decoded
       in Inr (score_rows q m (rows @ keep) best, [], scanned + length decoded)))"

definition centroid_ann ::
  "ext \<Rightarrow> store \<Rightarrow> query_request \<Rightarrow> metric \<Rightarrow> index_status \<Rightarrow> string \<Rightarrow> bset \<Rightarrow> bset option \<Rightarrow> scan_state result"
where
  "centroid_ann X s q m idx p dirty selected =
     fold_res (ann_block X s q m dirty selected)
       (block_keys idx p (take (q_probes q) (probe_order idx q m))) ([], [], 0)"

text \<open>The overlay: documents changed since the build, read from the tables.\<close>

definition dirty_row ::
  "ext \<Rightarrow> store \<Rightarrow> string \<Rightarrow> query_request \<Rightarrow> metric \<Rightarrow> string \<Rightarrow> scan_state \<Rightarrow> scan_state result"
where
  "dirty_row X s name q m i st =
     rbind (document_at X s name i) (\<lambda>od.
       Inr (add_row q m (case od of
           None \<Rightarrow> None
         | Some doc \<Rightarrow> if matches (q_filter q) (attributes doc)
                       then map_option (\<lambda>v. (i, v)) (vector doc) else None) st))"

definition vector_plan ::
  "ext \<Rightarrow> store \<Rightarrow> string \<Rightarrow> ns_config \<Rightarrow> query_request \<Rightarrow> index_config \<Rightarrow> index_status option
   \<Rightarrow> (string \<times> scan_state) result"
where
  "vector_plan X s name schema q conf index =
     (let m = metric schema in
      case index of
        Some idx \<Rightarrow>
          if q_mode q = Exact
          then rbind (exact_scan X s name q m) (\<lambda>st. Inr (''exact_scan'', st))
          else
            (let p = gen_root name (generation idx) in
             rbind (pending s name (idx_revision idx)) (\<lambda>dirty.
             rbind (filter_ids X s p (q_filter q)) (\<lambda>selected.
             rbind (case selected of
                 Some ids \<Rightarrow>
                   if length ids \<le> filter_scan_threshold conf
                   then rbind (filtered_exact X s name q m ids dirty) (\<lambda>st. Inr (''filtered_exact'', st))
                   else rbind (centroid_ann X s q m idx p dirty selected) (\<lambda>st. Inr (''centroid_ann'', st))
               | None \<Rightarrow> rbind (centroid_ann X s q m idx p dirty selected) (\<lambda>st. Inr (''centroid_ann'', st)))
             (\<lambda>(plan, st).
             rbind (fold_res (dirty_row X s name q m) (keys_of dirty) st) (\<lambda>st'. Inr (plan, st'))))))
      | None \<Rightarrow> rbind (exact_scan X s name q m) (\<lambda>st. Inr (''exact_scan'', st)))"

definition vector_query ::
  "ext \<Rightarrow> store \<Rightarrow> string \<Rightarrow> ns_config \<Rightarrow> query_request \<Rightarrow> index_config \<Rightarrow> query_result result"
where
  "vector_query X s name schema q conf =
     rbind (stats_at X s name) (\<lambda>st.
     rbind (index_at X s name) (\<lambda>index.
     rbind (vector_plan X s name schema q conf index) (\<lambda>(plan_name, state).
       let (best, scanned) = flush_rest q (metric schema) state in
       rbind (hydrate X s name best) (\<lambda>hs.
         Inr \<lparr>hits = hs, scanned_documents = scanned, plan = plan_name, qr_revision = revision st,
              indexed_revision = (case index of None \<Rightarrow> 0 | Some idx \<Rightarrow> idx_revision idx)\<rparr>))))"

text \<open>\<open>Engine::query\<close>: admission by a free slot, then validation on the pinned snapshot.\<close>

definition engine_query ::
  "ext \<Rightarrow> index_config \<Rightarrow> nat \<Rightarrow> string \<Rightarrow> query_request \<Rightarrow> query_result act"
where
  "engine_query X conf slots name q =
     (if slots = 0 then act_fail Busy
      else act_bind snapshot (\<lambda>s. act_lift (
        rbind (namespace_at X s name) (\<lambda>ns.
        rbind (validate_vector (ns_conf ns) (q_vector q)) (\<lambda>_.
        rbind (validate_filter (q_filter q)) (\<lambda>_.
          if \<not> (1 \<le> q_top_k q \<and> q_top_k q \<le> MAX_TOP_K) \<or> \<not> (1 \<le> q_probes q \<and> q_probes q \<le> 1024)
          then Inl (Invalid ''top_k must be 1..100 and probes 1..1024'')
          else vector_query X s name (ns_conf ns) q conf))))))"

subsection \<open>Text queries\<close>

type_synonym posting_map = "(string, (string, posting) btree) btree"

text \<open>Corpus, postings per query term, and the IDs that may be returned.\<close>

type_synonym text_state = "corpus \<times> posting_map \<times> bset option"

definition add_text_document :: "ext \<Rightarrow> document \<Rightarrow> text_request \<Rightarrow> text_state \<Rightarrow> text_state" where
  "add_text_document X doc q st =
     (let (corpus, ps, eligible) = st;
          (corpus', ps') =
            (case bt_get (attributes doc) (t_field q) of
               Some v \<Rightarrow> (case as_str v of
                   Some text \<Rightarrow>
                     (let terms = tokenize X text in
                      (corpus\<lparr>corpus_documents := corpus_documents corpus + 1,
                              corpus_tokens := corpus_tokens corpus + ucast (terms_length terms)\<rparr>,
                       map (\<lambda>(term, rows). (term,
                         case bt_get (frequencies terms) term of
                           None \<Rightarrow> rows
                         | Some n \<Rightarrow> bt_put (doc_id doc) \<lparr>posting_id = doc_id doc,
                             posting_frequency = n, posting_length = terms_length terms\<rparr> rows)) ps))
                 | None \<Rightarrow> (corpus, ps))
             | None \<Rightarrow> (corpus, ps));
          eligible' = (case eligible of
              Some ids \<Rightarrow> Some (if matches (t_filter q) (attributes doc)
                                then bs_insert (doc_id doc) ids else ids)
            | None \<Rightarrow> None)
      in (corpus', ps', eligible'))"

definition load_postings ::
  "ext \<Rightarrow> store \<Rightarrow> string \<Rightarrow> string \<Rightarrow> bset \<Rightarrow> string \<Rightarrow> (string, posting) btree result"
where
  "load_postings X s p field dirty term =
     rbind (postings (dec_postings X) s (term_prefix X p field term @ ''/'')) (\<lambda>items.
       Inr (fold (\<lambda>ps rows. if bs_mem (posting_id ps) dirty then rows
                            else bt_put (posting_id ps) ps rows) items []))"

definition dirty_text ::
  "ext \<Rightarrow> store \<Rightarrow> string \<Rightarrow> string \<Rightarrow> text_request \<Rightarrow> string \<Rightarrow> text_state \<Rightarrow> text_state result"
where
  "dirty_text X s name p q i st =
     (let (corpus, ps, eligible) = st in
      rbind (case bt_get s (p @ ''l/'' @ i) of
          None \<Rightarrow> Inr corpus
        | Some old \<Rightarrow> rbind (ok_or Encoding (dec_terms X old)) (\<lambda>old_terms.
            Inr (case bt_get old_terms (t_field q) of
                None \<Rightarrow> corpus
              | Some t \<Rightarrow> corpus\<lparr>corpus_documents := corpus_documents corpus - 1,
                                corpus_tokens := corpus_tokens corpus - ucast (terms_length t)\<rparr>)))
      (\<lambda>corpus'.
      rbind (attributes_at X s name i) (\<lambda>od.
        Inr (case od of
            None \<Rightarrow> (corpus', ps, eligible)
          | Some doc \<Rightarrow> add_text_document X doc q (corpus', ps, eligible)))))"

definition scan_text :: "ext \<Rightarrow> text_request \<Rightarrow> string \<times> bytes \<Rightarrow> text_state \<times> nat \<Rightarrow> (text_state \<times> nat) result" where
  "scan_text X q rw st =
     rbind (ok_or Encoding (dec_doc X (snd rw))) (\<lambda>doc.
       Inr (add_text_document X doc q (fst st), snd st + 1))"

text \<open>BM25 with \<open>k1 = 1.2\<close> and \<open>b = 0.75\<close>, in the source's order of operations.\<close>

definition f64_lit_half :: f64 where "f64_lit_half = 0x3FE0000000000000"
definition f64_lit_2_2 :: f64 where "f64_lit_2_2 = 0x400199999999999A"
definition f64_lit_1_2 :: f64 where "f64_lit_1_2 = 0x3FF3333333333333"
definition f64_lit_quarter :: f64 where "f64_lit_quarter = 0x3FD0000000000000"
definition f64_lit_three_quarters :: f64 where "f64_lit_three_quarters = 0x3FE8000000000000"

definition inverse_frequency :: "ext \<Rightarrow> corpus \<Rightarrow> nat \<Rightarrow> f64" where
  "inverse_frequency X c df =
     ln64 X (f64_add f64_one
       (f64_div (f64_add (f64_sub (f64_of_nat (unat (corpus_documents c))) (f64_of_nat df)) f64_lit_half)
                (f64_add (f64_of_nat df) f64_lit_half)))"

definition average_length :: "corpus \<Rightarrow> f64" where
  "average_length c =
     (if 0 < corpus_documents c
      then f64_div (f64_of_nat (unat (corpus_tokens c))) (f64_of_nat (unat (corpus_documents c)))
      else f64_zero)"

definition term_score :: "f64 \<Rightarrow> f64 \<Rightarrow> posting \<Rightarrow> f64" where
  "term_score idf average ps =
     (let tf = f64_of_nat (unat (posting_frequency ps)) in
      f64_div (f64_mul idf (f64_mul tf f64_lit_2_2))
        (f64_add tf (f64_mul f64_lit_1_2 (f64_add f64_lit_quarter
          (f64_div (f64_mul f64_lit_three_quarters (f64_of_nat (unat (posting_length ps)))) average)))))"

definition add_score :: "string \<Rightarrow> f64 \<Rightarrow> (string, f64) btree \<Rightarrow> (string, f64) btree" where
  "add_score i x m = bt_put i (f64_add (case bt_get m i of None \<Rightarrow> f64_zero | Some y \<Rightarrow> y) x) m"

definition term_scores :: "ext \<Rightarrow> corpus \<Rightarrow> bset option \<Rightarrow> (string, posting) btree \<Rightarrow> (string, f64) btree \<Rightarrow> (string, f64) btree" where
  "term_scores X corpus eligible rows scores =
     fold (\<lambda>(i, ps) m.
         if (case eligible of None \<Rightarrow> False | Some ids \<Rightarrow> \<not> bs_mem i ids) then m
         else if f64_lt f64_zero (average_length corpus)
         then add_score i (term_score (inverse_frequency X corpus (length rows)) (average_length corpus) ps) m
         else m) rows scores"

definition text_query :: "ext \<Rightarrow> store \<Rightarrow> string \<Rightarrow> text_request \<Rightarrow> query_result result" where
  "text_query X s name q =
     (let terms = frequencies (tokenize X (t_text q)) in
      if terms = [] \<or> 32 < length terms
      then Inl (Invalid ''text query requires 1..32 distinct terms'')
      else
        rbind (stats_at X s name) (\<lambda>st.
        rbind (index_at X s name) (\<lambda>active.
        rbind (case active of
            Some idx \<Rightarrow>
              (let p = gen_root name (generation idx);
                   corpus = (case bt_get (idx_text idx) (t_field q) of None \<Rightarrow> default_corpus | Some c \<Rightarrow> c) in
               rbind (pending s name (idx_revision idx)) (\<lambda>dirty.
               rbind (filter_ids X s p (t_filter q)) (\<lambda>selected.
               let eligible = map_option (filter (\<lambda>(i, _). \<not> bs_mem i dirty)) selected in
               rbind (collect_res (\<lambda>term. rbind (load_postings X s p (t_field q) dirty term)
                   (\<lambda>rows. Inr (term, rows))) (keys_of terms)) (\<lambda>ps.
               rbind (fold_res (dirty_text X s name p q) (keys_of dirty) (corpus, ps, eligible)) (\<lambda>state.
                 Inr (''bm25_index'', state, 0))))))
          | None \<Rightarrow>
              rbind (fold_res (scan_text X q) (scan_prefix (document_prefix name) s)
                ((default_corpus, map (\<lambda>term. (term, [])) (keys_of terms),
                  if eq_preds (t_filter q) \<noteq> [] \<or> range_preds (t_filter q) \<noteq> [] then Some [] else None), 0))
              (\<lambda>(state, scanned). Inr (''bm25_scan'', state, scanned)))
        (\<lambda>(plan_name, (corpus, ps, eligible), scanned).
          let scores = fold (\<lambda>(_, rows) m. term_scores X corpus eligible rows m) ps [];
              scanned' = (if active \<noteq> None then length scores else scanned);
              best = fold (\<lambda>(i, sc) h. retain (t_top_k q) h i sc) scores []
          in rbind (hydrate X s name best) (\<lambda>hs.
            Inr \<lparr>hits = hs, scanned_documents = scanned', plan = plan_name, qr_revision = revision st,
                 indexed_revision = (case active of None \<Rightarrow> 0 | Some idx \<Rightarrow> idx_revision idx)\<rparr>)))))"

definition engine_search_text :: "ext \<Rightarrow> nat \<Rightarrow> string \<Rightarrow> text_request \<Rightarrow> query_result act" where
  "engine_search_text X slots name q =
     (if slots = 0 then act_fail Busy
      else act_bind snapshot (\<lambda>s. act_lift (
        rbind (namespace_at X s name) (\<lambda>ns.
        rbind (validate_filter (t_filter q)) (\<lambda>_.
          if t_field q \<notin> set (text_fields (ns_conf ns))
          then Inl (Invalid ''field is not in namespace text_fields'')
          else if \<not> (1 \<le> t_top_k q \<and> t_top_k q \<le> MAX_TOP_K) \<or> 4096 < length (t_text q)
          then Inl (Invalid ''top_k must be 1..100 and text at most 4096 bytes'')
          else text_query X s name q)))))"

end
