(* ===== verification/Queries.thy ===== *)
theory Queries
  imports Search
begin

section \<open>What a vector query returns\<close>

text \<open>
  Scoring in batches of 128 rows is the same as scoring row by row (\<open>scored\<close> is what a loop
  state will amount to), so an exact query returns the top \<open>k\<close> of all matching documents.
\<close>

subsection \<open>Batches do not matter\<close>

definition scored :: "query_request \<Rightarrow> metric \<Rightarrow> scan_state \<Rightarrow> heap" where
  "scored q m st = (let (best, rows, _) = st in score_rows q m rows best)"

lemma score_rows_append: "score_rows q m (xs @ ys) best = score_rows q m ys (score_rows q m xs best)"
  by (simp add: score_rows_def)

lemma score_rows_Nil [simp]: "score_rows q m [] best = best"
  by (simp add: score_rows_def)

lemma scored_add_row:
  "scored q m (add_row q m r st) = score_rows q m (case r of None \<Rightarrow> [] | Some x \<Rightarrow> [x]) (scored q m st)"
  by (cases st; cases r) (simp_all add: scored_def add_row_def flush_at_128_def score_rows_append)

lemma scanned_add_row: "snd (snd (add_row q m r st)) = snd (snd st) + 1"
  by (cases st; cases r) (simp_all add: add_row_def flush_at_128_def)

lemma flush_rest_scored: "flush_rest q m st = (scored q m st, snd (snd st))"
  by (cases st) (simp add: flush_rest_def scored_def)

lemma score_rows_retain:
  "score_rows q m rows best =
    retain_all (q_top_k q) (map (\<lambda>(i, v). (i, distance_score (q_vector q) v m)) rows) best"
  by (simp add: score_rows_def retain_all_def fold_map comp_def case_prod_unfold)

text \<open>The ranking that a query promises: the best \<open>k\<close> of a list of rows.\<close>

definition best_of :: "query_request \<Rightarrow> metric \<Rightarrow> row list \<Rightarrow> ranked list" where
  "best_of q m rows =
     take (q_top_k q) (sort (map (\<lambda>(i, v). Ranked (distance_score (q_vector q) v m) i) rows))"

lemma score_rows_best: "sort (score_rows q m rows []) = best_of q m rows"
  by (simp add: score_rows_retain retain_all_sorted best_of_def sorted_sort_id sorted_wrt_take
      case_prod_unfold comp_def)

lemma best_of_mset: "mset xs = mset ys \<Longrightarrow> best_of q m xs = best_of q m ys"
  unfolding best_of_def
  by (intro arg_cong[where f = "take (q_top_k q)"] properties_for_sort) simp_all

lemma set_best_of: "r \<in> set (best_of q m rows) \<Longrightarrow> \<exists>v. (rid r, v) \<in> set rows \<and> score r = distance_score (q_vector q) v m"
  by (auto simp: best_of_def dest!: in_set_takeD) blast

subsection \<open>The exact scan\<close>

text \<open>The rows a query should consider: matching documents that have a vector.\<close>

definition candidate :: "query_request \<Rightarrow> document \<Rightarrow> row option" where
  "candidate q doc =
     (if matches (q_filter q) (attributes doc) then map_option (\<lambda>v. (doc_id doc, v)) (vector doc) else None)"

definition candidates :: "query_request \<Rightarrow> document list \<Rightarrow> row list" where
  "candidates q docs = concat (map (\<lambda>doc. case candidate q doc of None \<Rightarrow> [] | Some r \<Rightarrow> [r]) docs)"

lemma candidates_iff:
  "(i, v) \<in> set (candidates q docs) \<longleftrightarrow>
    (\<exists>doc \<in> set docs. doc_id doc = i \<and> vector doc = Some v \<and> matches (q_filter q) (attributes doc))"
proof -
  have "(i, v) \<in> set (candidates q docs) \<longleftrightarrow> (\<exists>doc \<in> set docs. candidate q doc = Some (i, v))"
    by (induction docs) (auto simp: candidates_def split: option.splits)
  then show ?thesis by (auto simp: candidate_def)
qed

lemma exact_row_fine:
  assumes "row_fine X n s r"
  shows "exact_row X s n q m r st = Inr (add_row q m (candidate q (row_doc X n s r)) st)"
proof -
  obtain k v where r: "r = (k, v)" by force
  from assms[unfolded r] obtain doc w where "dec_doc X v = Some doc" "vector_at X s n (doc_id doc) = Inr w"
    "row_doc X n s (k, v) = doc\<lparr>vector := w\<rparr>" by (rule row_fine_doc)
  then show ?thesis by (simp add: r exact_row_def candidate_def)
qed

lemma exact_rows:
  assumes "\<forall>r \<in> set rows. row_fine X n s r"
  shows "\<exists>st'. fold_res (exact_row X s n q m) rows st = Inr st' \<and> snd (snd st') = snd (snd st) + length rows
    \<and> scored q m st' = score_rows q m (candidates q (map (row_doc X n s) rows)) (scored q m st)"
  using assms
proof (induction rows arbitrary: st)
  case Nil
  then show ?case by (simp add: candidates_def)
next
  case (Cons r rows)
  let ?st = "add_row q m (candidate q (row_doc X n s r)) st"
  from Cons.IH[of ?st] Cons.prems obtain st' where
    "fold_res (exact_row X s n q m) rows ?st = Inr st'" "snd (snd st') = snd (snd ?st) + length rows"
    "scored q m st' = score_rows q m (candidates q (map (row_doc X n s) rows)) (scored q m ?st)" by auto
  then show ?case
    using Cons.prems exact_row_fine[of X n s r q m st]
    by (simp add: scored_add_row scanned_add_row candidates_def score_rows_append split: option.splits)
qed

lemma exact_scan_fine:
  assumes "docs_fine X n s"
  shows "\<exists>st. exact_scan X s n q m = Inr st \<and> snd (snd st) = length (listing X n s)
    \<and> scored q m st = score_rows q m (candidates q (listing X n s)) []"
  using exact_rows[of "scan_prefix (document_prefix n) s" X n s q m "([], [], 0)"] assms
  by (simp add: exact_scan_def docs_fine_def list_all_iff listing_def scored_def)

subsection \<open>Hits\<close>

definition ranks :: "search_hit list \<Rightarrow> ranked list" where
  "ranks hs = map (\<lambda>h. Ranked (hit_score h) (hit_id h)) hs"

definition hits_from :: "query_request \<Rightarrow> document list \<Rightarrow> search_hit list \<Rightarrow> bool" where
  "hits_from q docs hs \<longleftrightarrow>
     list_all (\<lambda>h. list_ex (\<lambda>doc. doc_id doc = hit_id h \<and> attributes doc = hit_attributes h
       \<and> matches (q_filter q) (attributes doc)) docs) hs"

lemma hydrate_listed:
  assumes fine: "docs_fine X n s" and ok: "bt_ok s"
    and mem: "\<forall>r \<in> set best. \<exists>doc \<in> set (listing X n s). doc_id doc = rid r \<and> matches (q_filter q) (attributes doc)"
  shows "\<exists>hs. hydrate X s n best = Inr hs \<and> ranks hs = sort best \<and> hits_from q (listing X n s) hs"
proof -
  have "\<exists>doc \<in> set (listing X n s). doc_id doc = rid r \<and> matches (q_filter q) (attributes doc) \<and>
      (\<exists>a. attributes_at X s n (rid r) = Inr (Some a) \<and> attributes a = attributes doc)"
    if r: "r \<in> set best" for r
  proof -
    from r mem obtain doc where doc: "doc \<in> set (listing X n s)" "doc_id doc = rid r"
      "matches (q_filter q) (attributes doc)" by blast
    then have "docs_of X s n (rid r) = Some doc" using listing_docs[OF fine ok] by metis
    then have "\<exists>a. attributes_at X s n (rid r) = Inr (Some a) \<and> attributes a = attributes doc"
      by (auto simp: docs_of_def document_at_def split: sum.splits option.splits)
    with doc show ?thesis by blast
  qed
  then obtain f where f: "\<And>r. r \<in> set best \<Longrightarrow> f r \<in> set (listing X n s) \<and> doc_id (f r) = rid r
      \<and> matches (q_filter q) (attributes (f r))
      \<and> (\<exists>a. attributes_at X s n (rid r) = Inr (Some a) \<and> attributes a = attributes (f r))"
    by metis
  let ?g = "\<lambda>r. \<lparr>hit_id = rid r, hit_score = score r, hit_attributes = attributes (f r)\<rparr>"
  have "hydrate X s n best = Inr (map ?g (sort best))"
    unfolding hydrate_def by (rule collect_res_map) (use f in fastforce)
  moreover have "ranks (map ?g (sort best)) = sort best"
    by (simp add: ranks_def comp_def)
  moreover have "hits_from q (listing X n s) (map ?g (sort best))"
    using f by (fastforce simp: hits_from_def list_all_iff list_ex_iff)
  ultimately show ?thesis by blast
qed

lemma hydrate_best:
  assumes "docs_fine X n s" "bt_ok s"
    and "best = score_rows q m rows []" "set rows \<subseteq> set (candidates q (listing X n s))"
  shows "\<exists>hs. hydrate X s n best = Inr hs \<and> ranks hs = best_of q m rows \<and> hits_from q (listing X n s) hs"
proof -
  have sorted: "sort best = best_of q m rows" by (simp add: assms(3) score_rows_best)
  then have "set best = set (best_of q m rows)" by (metis set_sort)
  then have "\<forall>r \<in> set best. \<exists>doc \<in> set (listing X n s). doc_id doc = rid r \<and> matches (q_filter q) (attributes doc)"
    using set_best_of[of _ q m rows] assms(4) candidates_iff[of _ _ q "listing X n s"] by blast
  from hydrate_listed[OF assms(1,2) this] sorted show ?thesis by simp
qed

text \<open>C26: An exact vector query (or one without an index) returns exactly the best \<open>top_k\<close> of all
  documents that match the filter and have a vector, ranked by score and then ID, each with
  its stored attributes, and reports every document of the namespace as scanned.\<close>
theorem exact_query_top_k:
  assumes "docs_fine X n s" and "bt_ok s" and "stats_at X s n = Inr st" and "index_at X s n = Inr index"
    and "q_mode q = Exact \<or> index = None"
  shows "\<exists>res. vector_query X s n schema q conf = Inr res
    \<and> ranks (hits res) = best_of q (metric schema) (candidates q (listing X n s))
    \<and> hits_from q (listing X n s) (hits res)
    \<and> scanned_documents res = length (listing X n s) \<and> plan res = ''exact_scan'' \<and> qr_revision res = revision st"
proof -
  let ?m = "metric schema"
  obtain state where state: "exact_scan X s n q ?m = Inr state" "snd (snd state) = length (listing X n s)"
    "scored q ?m state = score_rows q ?m (candidates q (listing X n s)) []"
    using exact_scan_fine[OF assms(1)] by blast
  from hydrate_best[OF assms(1,2) state(3)] obtain hs where
    "hydrate X s n (scored q ?m state) = Inr hs" "ranks hs = best_of q ?m (candidates q (listing X n s))"
    "hits_from q (listing X n s) hs" by blast
  moreover have "vector_plan X s n schema q conf index = Inr (''exact_scan'', state)"
    using assms(5) state(1) by (auto simp: vector_plan_def Let_def split: option.splits)
  ultimately show ?thesis
    using state(2) assms(3,4) by (simp add: vector_query_def flush_rest_scored)
qed

end
