(* ===== verification/IndexSearch.thy ===== *)
theory IndexSearch
  imports Filters Queries
begin

section \<open>A query through the index finds what an exact scan finds\<close>

text \<open>
  With every cluster probed, the plans that read the index return the same ranking as a scan
  of all documents: the blocks hold every vector of the snapshot once, the postings select the
  matching IDs, and the overlay replaces the documents changed since. The proof follows the
  code: what \<open>build_input\<close> read, what the blocks decode to, which rows each plan scores.
\<close>

subsection \<open>The input of a build is the listing\<close>

lemma build_rows_listing:
  assumes "fold_res (build_row X s n budget) rows (docs, used) = Inr (docs', used')"
  shows "docs' = docs @ map (row_doc X n s) rows"
  using assms
proof (induction rows arbitrary: docs used)
  case (Cons r rows)
  from Cons.prems have "\<exists>doc ov u. dec_doc X (snd r) = Some doc \<and> vector_at X s n (doc_id doc) = Inr ov
    \<and> fold_res (build_row X s n budget) rows (docs @ [doc\<lparr>vector := ov\<rparr>], u) = Inr (docs', used')"
    by (simp add: build_row_def[of X s n budget r] Let_def split: if_splits) blast
  then obtain doc ov u where "dec_doc X (snd r) = Some doc" "vector_at X s n (doc_id doc) = Inr ov"
    "fold_res (build_row X s n budget) rows (docs @ [doc\<lparr>vector := ov\<rparr>], u) = Inr (docs', used')" by blast
  with Cons.IH[OF this(3)] show ?case by (simp add: row_doc_def)
qed simp

lemma build_input_listing: "build_input X s n budget = Inr docs \<Longrightarrow> docs = listing X n s"
  by (auto simp: build_input_def listing_def dest: build_rows_listing)

lemma listing_distinct: "docs_fine X n s \<Longrightarrow> bt_ok s \<Longrightarrow> distinct (map doc_id (listing X n s))"
  using listing_sorted strict_sorted_iff by blast

lemma listing_valid_id: "docs_fine X n s \<Longrightarrow> d \<in> set (listing X n s) \<Longrightarrow> valid_id (doc_id d)"
  by (auto simp: listing_def docs_fine_def list_all_iff row_fine_def row_doc_def Let_def split: option.splits)

subsection \<open>Clusters\<close>

lemma max_at_bound:
  "\<forall>(i, k) \<in> set xs. i < c \<Longrightarrow> (case best of None \<Rightarrow> xs \<noteq> [] | Some (i, k) \<Rightarrow> i < c) \<Longrightarrow> max_at best xs < c"
  by (induction best xs rule: max_at.induct) (auto split: option.splits prod.splits)

lemma nearest_bound: "cs \<noteq> [] \<Longrightarrow> nearest v cs < length cs"
  unfolding nearest_def by (rule max_at_bound) (auto simp: in_set_enumerate_eq simp flip: length_greater_0_conv)

lemma mset_concat_update:
  "c < length gs \<Longrightarrow> mset (concat (gs[c := gs ! c @ [r]])) = add_mset r (mset (concat gs))"
proof (induction gs arbitrary: c)
  case (Cons g gs)
  then show ?case by (cases c) auto
qed simp

lemma fold_assign_mset:
  assumes "cs \<noteq> [] \<or> rows = []" "length gs = length cs"
  shows "mset (concat (fold (assign cs) rows gs)) = mset (map fst rows) + mset (concat gs)"
  using assms
proof (induction rows arbitrary: gs)
  case (Cons r rows)
  then have c: "nearest (snd r) cs < length gs" by (simp add: nearest_bound)
  have "assign cs r gs = gs[nearest (snd r) cs := gs ! nearest (snd r) cs @ [fst r]]"
    by (simp add: assign_def Let_def case_prod_unfold)
  with Cons c show ?case by (simp add: mset_concat_update)
qed simp

lemma cluster_count:
  assumes "build X gen name schema rv docs conf = Inr (status, entries)"
  shows "length (centroids status) = min (clusters conf) (length (vectors_of docs))"
proof -
  have "length (fold (assign cs) rows groups) = length groups" for cs rows and groups :: "row list list"
    by (induction rows arbitrary: groups) (auto simp: assign_def Let_def case_prod_unfold)
  then show ?thesis using build_entries(3)[OF assms] by (simp add: members_of_def)
qed

lemma members_mset:
  assumes "build X gen name schema rv docs conf = Inr (status, entries)" "1 \<le> clusters conf"
  shows "mset (concat (members_of schema conf status docs)) = mset (vectors_of docs)"
proof -
  let ?v = "vectors_of docs"
  note len = cluster_count[OF assms(1)]
  have "centroids status \<noteq> [] \<or> ?v = []" using len assms(2) by (cases "?v") auto
  then show ?thesis
    unfolding members_of_def using len by (subst fold_assign_mset) auto
qed

lemma vectors_of_iff: "(i, v) \<in> set (vectors_of docs) \<longleftrightarrow> (\<exists>d \<in> set docs. doc_id d = i \<and> vector d = Some v)"
  by (force simp: vectors_of_def split: option.splits)

lemma per_block_pos: "0 < per_block schema"
  by (simp add: per_block_def Let_def)

lemma per_block_le: "per_block schema \<le> 128"
  by (simp add: per_block_def Let_def)

text \<open>Blocks of rows with a common dimension decode.\<close>

lemma chunk_decodes:
  assumes "\<forall>(i, v) \<in> set rows. valid_id i \<and> valid_vector c v" "valid_config c" "chunk \<in> set (chunks pb rows)" "pb \<le> 128"
  shows "decode crc (encode crc chunk) = Inr chunk"
proof (rule decode_encode)
  have sub: "set chunk \<subseteq> set rows"
  proof (cases "pb = 0")
    case True
    with assms(3) show ?thesis by (simp add: chunks.simps)
  next
    case False
    then have "concat (chunks pb rows) = rows" by (simp add: concat_chunks)
    with assms(3) show ?thesis by (metis UN_upper set_concat)
  qed
  have ne: "chunk \<noteq> []" using assms(3) by (rule chunks_nonempty)
  then obtain i v rest where chunk: "chunk = (i, v) # rest" by (cases chunk) auto
  have ok: "valid_id j \<and> dimensions c = Some (length w) \<and> list_all f32_is_finite w" if "(j, w) \<in> set chunk" for j w
    using that sub assms(1) by (auto simp: valid_vector_def)
  have dims: "block_dims chunk = length v" by (simp add: block_dims_def chunk)
  have "length chunk \<le> 128" using chunks_length_le[OF assms(3)] assms(4) by simp
  moreover have "0 < length v \<and> length v \<le> 4096"
    using ok[of i v] assms(2) by (auto simp: chunk valid_config_def MAX_DIMENSIONS_def)
  moreover have "row_ok (length v) r" if "r \<in> set chunk" for r
    using ok[of "fst r" "snd r"] ok[of i v] that by (simp add: row_ok_def chunk)
  ultimately show "block_ok chunk" by (simp add: block_ok_def dims)
qed

subsection \<open>Changed documents\<close>

definition dirty_id :: "string \<Rightarrow> store \<Rightarrow> u64 \<Rightarrow> string \<Rightarrow> bool" where
  "dirty_id n s w i \<longleftrightarrow> (\<exists>v q. bt_get s (change_key n i) = Some v \<and> parse_revision v = Inr q \<and> w < q)"

lemma pending_rows:
  assumes "\<forall>(k, v) \<in> set rows. \<exists>i q. k = change_key n i \<and> valid_id i \<and> parse_revision v = Inr q" "bt_ok ids"
  shows "\<exists>r. fold_res (\<lambda>(k, v) ids. rbind (parse_revision v) (\<lambda>r.
           if w < r then
             (let i = drop (length (change_prefix n)) k in
              if valid_utf8 i then Inr (bs_insert i ids) else Inl (Corrupt ''invalid change ID''))
           else Inr ids)) rows ids = Inr r
     \<and> bt_ok r \<and> set (keys_of r) = set (keys_of ids)
         \<union> {i. \<exists>v q. (change_key n i, v) \<in> set rows \<and> parse_revision v = Inr q \<and> w < q}"
  using assms
proof (induction rows arbitrary: ids)
  case (Cons row rows)
  obtain k v where row: "row = (k, v)" by force
  with Cons.prems(1) obtain i q where i: "k = change_key n i" "valid_id i" "parse_revision v = Inr q" by auto
  let ?ids = "if w < q then bs_insert i ids else ids"
  have "bt_ok ?ids" using Cons.prems(2) by simp
  with Cons.IH[of ?ids] Cons.prems(1) obtain r where
    "fold_res (\<lambda>(k, v) ids. rbind (parse_revision v) (\<lambda>r.
           if w < r then
             (let i = drop (length (change_prefix n)) k in
              if valid_utf8 i then Inr (bs_insert i ids) else Inl (Corrupt ''invalid change ID''))
           else Inr ids)) rows ?ids = Inr r" "bt_ok r"
    "set (keys_of r) = set (keys_of ?ids) \<union> {i. \<exists>v q. (change_key n i, v) \<in> set rows \<and> parse_revision v = Inr q \<and> w < q}"
    by auto
  then show ?case
    using i valid_id_utf8[OF i(2)] unfolding row
    by (cases "w < q") (auto simp: change_prefix_key simp del: set_map)
qed simp

lemma pending_spec:
  assumes "live_inv X n s" "change_ids_ok n s" "bt_ok s"
  shows "\<exists>dirty. pending s n w = Inr dirty \<and> bt_ok dirty \<and> (\<forall>i. bs_mem i dirty \<longleftrightarrow> dirty_id n s w i)"
proof -
  have row: "(k, v) \<in> set (scan_prefix (change_prefix n) s) \<longleftrightarrow> (\<exists>i. k = change_key n i \<and> bt_get s k = Some v)" for k v
    unfolding scan_prefix_iff[OF assms(3)] by (auto simp: prefix_def change_prefix_key)
  from assms(1) obtain st :: stats where "changes_ok n s (revision st)" unfolding live_inv_def by blast
  then have "\<forall>(k, v) \<in> set (scan_prefix (change_prefix n) s).
      \<exists>i q. k = change_key n i \<and> valid_id i \<and> parse_revision v = Inr q"
    using assms(2) unfolding split_beta row by (fastforce simp: row changes_ok_def change_ids_ok_def)
  from pending_rows[OF this, of "[]" w] show ?thesis
    by (auto simp: pending_def dirty_id_def row bt_get_None_iff simp del: set_map)
qed

lemma clean_same:
  assumes "covers n snap w s" "\<not> dirty_id n s w i"
  shows "docs_of X s n i = docs_of X snap n i" "vector_at X s n i = vector_at X snap n i"
proof -
  have "bt_get s (document_key n i) = bt_get snap (document_key n i)" "bt_get s (vector_key n i) = bt_get snap (vector_key n i)"
    using assms unfolding covers_def dirty_id_def by blast+
  then show "docs_of X s n i = docs_of X snap n i" "vector_at X s n i = vector_at X snap n i"
    using document_at_cong[of s n i snap X] by (simp_all add: docs_of_def vector_at_def)
qed

text \<open>Two lists of documents with distinct IDs and the same members.\<close>

lemma distinct_docs: "distinct (map doc_id docs) \<Longrightarrow> distinct docs"
  by (simp add: distinct_map)

lemma clean_listing:
  assumes "covers n snap w s" "docs_fine X n s" "docs_fine X n snap" "bt_ok s" "bt_ok snap"
  shows "mset (filter (\<lambda>d. \<not> dirty_id n s w (doc_id d)) (listing X n snap))
    = mset (filter (\<lambda>d. \<not> dirty_id n s w (doc_id d)) (listing X n s))"
  using listing_docs[OF assms(2,4)] listing_docs[OF assms(3,5)] clean_same(1)[OF assms(1)]
    distinct_docs[OF listing_distinct[OF assms(2,4)]] distinct_docs[OF listing_distinct[OF assms(3,5)]]
  by (intro set_eq_iff_mset_eq_distinct[THEN iffD1]) auto

lemma candidates_append: "candidates q (xs @ ys) = candidates q xs @ candidates q ys"
  by (simp add: candidates_def)

lemma candidates_mset:
  "mset (candidates q docs) = \<Sum>\<^sub># (image_mset (\<lambda>d. case candidate q d of None \<Rightarrow> {#} | Some r \<Rightarrow> {#r#}) (mset docs))"
  by (induction docs) (auto simp: candidates_def split: option.splits)

lemma candidates_mset_cong: "mset xs = mset ys \<Longrightarrow> mset (candidates q xs) = mset (candidates q ys)"
  by (simp add: candidates_mset)

lemma candidates_split:
  "mset (candidates q docs) = mset (candidates q (filter P docs)) + mset (candidates q (filter (\<lambda>d. \<not> P d) docs))"
proof -
  have "mset (candidates q docs) = mset (candidates q (filter P docs @ filter (\<lambda>d. \<not> P d) docs))"
    by (rule candidates_mset_cong) simp
  then show ?thesis by (simp add: candidates_append)
qed

lemma candidates_ids: "subseq (map fst (candidates q docs)) (map doc_id docs)"
  by (induction docs) (auto simp: candidates_def candidate_def split: option.splits)

lemma distinct_candidates: "distinct (map doc_id docs) \<Longrightarrow> distinct (candidates q docs)"
  using subseq_set_distinct[OF candidates_ids[of q docs]] by (simp add: distinct_map)

subsection \<open>The blocks of the probed clusters\<close>

definition keep_row :: "bset \<Rightarrow> bset option \<Rightarrow> row \<Rightarrow> bool" where
  "keep_row dirty selected =
     (\<lambda>(i, _). \<not> bs_mem i dirty \<and> (case selected of None \<Rightarrow> True | Some ids \<Rightarrow> bs_mem i ids))"

lemma ann_blocks:
  assumes "list_all2 (\<lambda>k rows. \<exists>b. bt_get s k = Some b \<and> decode (crc32 X) b = Inr rows) keys blocks"
  shows "\<exists>sc'. fold_res (ann_block X s q m dirty selected) keys (best, [], sc) =
    Inr (score_rows q m (filter (keep_row dirty selected) (concat blocks)) best, [], sc')"
  using assms
proof (induction keys blocks arbitrary: best sc rule: list_all2_induct)
  case Nil
  then show ?case by simp
next
  case (Cons k keys rows blocks)
  have "(\<lambda>(i, _). \<not> bs_mem i dirty \<and> (case selected of None \<Rightarrow> True | Some ids \<Rightarrow> bs_mem i ids)) = keep_row dirty selected"
    by (simp add: keep_row_def)
  with Cons show ?case by (auto simp: ann_block_def score_rows_append)
qed

lemma block_list:
  assumes rows: "\<And>c b. c < length members \<Longrightarrow> b < length (chunks pb (members ! c)) \<Longrightarrow>
      \<exists>v. bt_get s (vector_block_key p c b) = Some v \<and> decode (crc32 X) v = Inr (chunks pb (members ! c) ! b)"
    and blocks: "cluster_blocks idx = map (\<lambda>rows. div_ceil (length rows) pb) members" and pb: "0 < pb"
    and order: "set order \<subseteq> {..<length members}"
  shows "list_all2 (\<lambda>k rows. \<exists>b. bt_get s k = Some b \<and> decode (crc32 X) b = Inr rows)
    (block_keys idx p order) (concat (map (\<lambda>c. chunks pb (members ! c)) order))"
  using order
proof (induction order)
  case (Cons c order)
  then have c: "c < length members" by simp
  have n: "cluster_blocks idx ! c = length (chunks pb (members ! c))"
    using c pb by (simp add: blocks length_chunks)
  have "list_all2 (\<lambda>k rows. \<exists>b. bt_get s k = Some b \<and> decode (crc32 X) b = Inr rows)
      (map (vector_block_key p c) [0..<cluster_blocks idx ! c]) (chunks pb (members ! c))"
    using rows[OF c] by (auto simp: list_all2_conv_all_nth n)
  with Cons show ?case by (auto simp: block_keys_def intro: list_all2_appendI)
qed (simp add: block_keys_def)

lemma mset_concat_order:
  assumes "mset order = mset [0..<length members]" "0 < pb"
  shows "mset (concat (concat (map (\<lambda>c. chunks pb (members ! c)) order))) = mset (concat members)"
proof -
  have "mset (concat (concat (map (\<lambda>c. chunks pb (members ! c)) order))) = (\<Sum>c \<in># mset order. mset (members ! c))"
    using assms(2) by (induction order) (simp_all add: concat_chunks)
  also have "\<dots> = (\<Sum>c \<in># mset [0..<length members]. mset (members ! c))" by (simp only: assms(1))
  also have "\<dots> = mset (concat (map ((!) members) [0..<length members]))"
    by (simp only: mset_concat mset_map[symmetric] sum_mset_sum_list map_map comp_def)
  finally show ?thesis by (simp add: map_nth)
qed

lemma probe_order_all:
  "mset (probe_order idx q m) = mset [0..<length (centroids idx)]"
proof -
  have "mset (probe_order idx q m) = mset (map fst (map (\<lambda>(i, c). (i, distance_score (q_vector q) c m)) (enumerate 0 (centroids idx))))"
    by (simp only: probe_order_def mset_map mset_sort)
  also have "map fst (map (\<lambda>(i, c). (i, distance_score (q_vector q) c m)) (enumerate 0 (centroids idx))) = [0..<length (centroids idx)]"
    by (subst enumerate_map_fst[where f = "\<lambda>i. i"]) simp
  finally show ?thesis .
qed

definition selects :: "query_request \<Rightarrow> document list \<Rightarrow> bset option \<Rightarrow> bool" where
  "selects q docs sel \<longleftrightarrow> (case sel of None \<Rightarrow> eq_preds (q_filter q) = [] \<and> range_preds (q_filter q) = []
     | Some ids \<Rightarrow> bt_ok ids \<and> set (keys_of ids) = {doc_id d | d. d \<in> set docs \<and> matches (q_filter q) (attributes d)})"

lemma selected_iff:
  assumes "selects q docs sel" "distinct (map doc_id docs)" "d \<in> set docs"
  shows "(case sel of None \<Rightarrow> True | Some ids \<Rightarrow> bs_mem (doc_id d) ids) \<longleftrightarrow> matches (q_filter q) (attributes d)"
proof (cases sel)
  case None
  with assms(1) matches_no_predicates show ?thesis by (simp add: selects_def)
next
  case (Some ids)
  have same: "d = e" if "e \<in> set docs" "doc_id e = doc_id d" for e
    using that assms(2,3) by (auto simp: distinct_map dest: inj_onD)
  have "bs_mem (doc_id d) ids \<longleftrightarrow> doc_id d \<in> set (keys_of ids)" by (simp only: bt_get_None_iff not_not)
  moreover have "set (keys_of ids) = {doc_id d | d. d \<in> set docs \<and> matches (q_filter q) (attributes d)}"
    using assms(1) Some by (simp add: selects_def)
  moreover have "doc_id d \<in> {doc_id d | d. d \<in> set docs \<and> matches (q_filter q) (attributes d)} \<longleftrightarrow> matches (q_filter q) (attributes d)"
    using same assms(3) by fastforce
  ultimately show ?thesis by (simp only: Some option.case)
qed

lemma kept_vectors:
  assumes "\<And>d. d \<in> set docs \<Longrightarrow>
    (case sel of None \<Rightarrow> True | Some ids \<Rightarrow> bs_mem (doc_id d) ids) \<longleftrightarrow> matches (q_filter q) (attributes d)"
  shows "filter (keep_row dirty sel) (vectors_of docs) = candidates q (filter (\<lambda>d. \<not> bs_mem (doc_id d) dirty) docs)"
  using assms
proof (induction docs)
  case (Cons d docs)
  have "keep_row dirty sel (doc_id d, v) \<longleftrightarrow> \<not> bs_mem (doc_id d) dirty \<and> matches (q_filter q) (attributes d)" for v
    using Cons.prems[of d] by (simp add: keep_row_def)
  with Cons.IH Cons.prems show ?case
    by (cases "vector d") (simp_all add: vectors_of_def candidates_def candidate_def)
qed (simp add: vectors_of_def candidates_def)

subsection \<open>Rows read by ID\<close>

lemma document_at_fine:
  assumes "docs_fine X n s" "bt_ok s"
  shows "document_at X s n i = Inr (docs_of X s n i)" "docs_of X s n i = Some d \<Longrightarrow> doc_id d = i \<and> vector_at X s n i = Inr (vector d)"
proof -
  have fine: "\<exists>doc w. dec_doc X v = Some doc \<and> doc_id doc = i \<and> vector_at X s n i = Inr w"
    if "bt_get s (document_key n i) = Some v" for v
  proof -
    have "row_fine X n s (document_key n i, v)" using that assms by (simp add: docs_fine_iff)
    then show ?thesis by (elim row_fine_doc) (auto simp: document_prefix_key)
  qed
  have at: "document_at X s n i = Inr (docs_of X s n i)
      \<and> (docs_of X s n i = Some d \<longrightarrow> doc_id d = i \<and> vector_at X s n i = Inr (vector d))"
  proof (cases "bt_get s (document_key n i)")
    case None
    then show ?thesis by (simp add: docs_of_def document_at_def attributes_at_def)
  next
    case (Some v)
    from fine[OF Some] obtain doc w where "dec_doc X v = Some doc" "doc_id doc = i" "vector_at X s n i = Inr w" by blast
    with Some show ?thesis by (auto simp: docs_of_def document_at_def attributes_at_def)
  qed
  then show "document_at X s n i = Inr (docs_of X s n i)" by blast
  show "docs_of X s n i = Some d \<Longrightarrow> doc_id d = i \<and> vector_at X s n i = Inr (vector d)" using at by blast
qed

definition docs_at :: "ext \<Rightarrow> store \<Rightarrow> string \<Rightarrow> string list \<Rightarrow> document list" where
  "docs_at X s n ids = concat (map (\<lambda>i. case docs_of X s n i of None \<Rightarrow> [] | Some d \<Rightarrow> [d]) ids)"

lemma docs_at_listing:
  assumes "docs_fine X n s" "bt_ok s" "distinct ids"
  shows "mset (docs_at X s n ids) = mset (filter (\<lambda>d. doc_id d \<in> set ids) (listing X n s))"
proof -
  have id: "doc_id d = i" if "docs_of X s n i = Some d" for i d using document_at_fine(2)[OF assms(1,2) that] by simp
  have "subseq (map doc_id (docs_at X s n ids)) ids"
  proof (induction ids)
    case (Cons i ids)
    then show ?case using id[of i] by (cases "docs_of X s n i") (auto simp: docs_at_def)
  qed (simp add: docs_at_def)
  with assms(3) have "distinct (docs_at X s n ids)"
    using subseq_set_distinct distinct_docs by blast
  moreover have "d \<in> set (docs_at X s n ids) \<longleftrightarrow> doc_id d \<in> set ids \<and> docs_of X s n (doc_id d) = Some d" for d
  proof -
    have "d \<in> set (docs_at X s n ids) \<longleftrightarrow> (\<exists>i \<in> set ids. docs_of X s n i = Some d)"
      by (induction ids) (auto simp: docs_at_def split: option.splits)
    with id show ?thesis by metis
  qed
  moreover have "distinct (listing X n s)" using distinct_docs listing_distinct[OF assms(1,2)] by blast
  ultimately show ?thesis
    using listing_docs[OF assms(1,2)] by (intro set_eq_iff_mset_eq_distinct[THEN iffD1]) auto
qed

lemma dirty_rows:
  assumes "docs_fine X n s" "bt_ok s"
  shows "\<exists>st'. fold_res (dirty_row X s n q m) ids st = Inr st'
    \<and> scored q m st' = score_rows q m (candidates q (docs_at X s n ids)) (scored q m st)"
proof (induction ids arbitrary: st)
  case Nil
  then show ?case by (simp add: docs_at_def candidates_def)
next
  case (Cons i ids)
  let ?r = "case docs_of X s n i of None \<Rightarrow> None | Some d \<Rightarrow> candidate q d"
  have "dirty_row X s n q m i st = Inr (add_row q m ?r st)"
    using document_at_fine[OF assms, of i]
    by (auto simp: dirty_row_def candidate_def split: option.splits)
  moreover from Cons[of "add_row q m ?r st"] obtain st' where
    "fold_res (dirty_row X s n q m) ids (add_row q m ?r st) = Inr st'"
    "scored q m st' = score_rows q m (candidates q (docs_at X s n ids)) (scored q m (add_row q m ?r st))" by blast
  ultimately show ?case
    by (auto simp: scored_add_row docs_at_def candidates_def score_rows_append split: option.splits)
qed

lemma filtered_rows:
  assumes "\<forall>i \<in> set ids. \<exists>d. docs_of X s n i = Some d \<and> matches (q_filter q) (attributes d) \<and> doc_id d = i
      \<and> vector_at X s n i = Inr (vector d)"
  shows "\<exists>st'. fold_res (\<lambda>i st. rbind (vector_at X s n i) (\<lambda>ov.
         Inr (add_row q m (map_option (\<lambda>v. (i, v)) ov) st))) ids st = Inr st'
    \<and> scored q m st' = score_rows q m (candidates q (docs_at X s n ids)) (scored q m st)"
  using assms
proof (induction ids arbitrary: st)
  case Nil
  then show ?case by (simp add: docs_at_def candidates_def)
next
  case (Cons i ids)
  from Cons.prems obtain d where d: "docs_of X s n i = Some d" "matches (q_filter q) (attributes d)" "doc_id d = i"
    "vector_at X s n i = Inr (vector d)" by auto
  then have r: "candidate q d = map_option (\<lambda>v. (i, v)) (vector d)" by (simp add: candidate_def)
  from Cons.IH[of "add_row q m (candidate q d) st"] Cons.prems obtain st' where
    "fold_res (\<lambda>i st. rbind (vector_at X s n i) (\<lambda>ov.
         Inr (add_row q m (map_option (\<lambda>v. (i, v)) ov) st))) ids (add_row q m (candidate q d) st) = Inr st'"
    "scored q m st' = score_rows q m (candidates q (docs_at X s n ids)) (scored q m (add_row q m (candidate q d) st))"
    by auto
  with d r show ?case
    by (auto simp: scored_add_row docs_at_def candidates_def score_rows_append split: option.splits)
qed

subsection \<open>The plans\<close>

text \<open>What the theorems below assume of the index and of the libraries.\<close>

definition searchable :: "ext \<Rightarrow> string \<Rightarrow> index_status \<Rightarrow> (string \<times> bytes) list \<Rightarrow> store \<Rightarrow> store \<Rightarrow> bool" where
  "searchable X n status entries snap s \<longleftrightarrow>
     good X n s \<and> bt_ok s \<and> json_codec X \<and> answers_for X n status entries snap s
     \<and> staged n status (puts entries) s"

lemma searchable_parts:
  assumes "searchable X n status entries snap s"
  obtains ns conf where "bt_ok s" "docs_fine X n s" "live_inv X n s" "change_ids_ok n s"
    "bt_ok snap" "docs_fine X n snap" "vectors_fit X n snap" "covers n snap (idx_revision status) s"
    "namespace_at X snap n = Inr ns" "valid_config (ns_conf ns)" "1 \<le> clusters conf"
    "build X (generation status) n (ns_conf ns) (idx_revision status) (listing X n snap) conf = Inr (status, entries)"
    "\<And>k w. prefix (gen_root n (generation status)) k \<Longrightarrow> bt_get s k = Some w \<longleftrightarrow>
      (k, w) \<in> set (entries_of X (gen_root n (generation status)) (ns_conf ns)
        (members_of (ns_conf ns) conf status (listing X n snap)) (listing X n snap))"
proof -
  let ?g = "generation status" and ?docs = "listing X n snap"
  from assms have parts: "good X n s" "bt_ok s" "built X n status entries snap"
    "covers n snap (idx_revision status) s" "staged n status (puts entries) s"
    by (simp_all add: searchable_def answers_for_def)
  from parts(3) obtain conf where conf: "1 \<le> clusters conf" "plan_build X ?g conf n snap = Inr (status, entries)"
    and snap: "bt_ok snap" "good X n snap" by (auto simp: built_def)
  from conf(2) obtain ns docs and st :: stats where b: "namespace_at X snap n = Inr ns" "build_input X snap n (max_build_bytes conf) = Inr docs"
    "build X ?g n (ns_conf ns) (revision st) docs conf = Inr (status, entries)" "idx_revision status = revision st"
    by (rule plan_build_Inr)
  then have build: "build X ?g n (ns_conf ns) (idx_revision status) ?docs conf = Inr (status, entries)"
    using build_input_listing by metis
  have fine: "docs_fine X n snap" using snap(2) by (simp add: good_def)
  have valid: "valid_config (ns_conf ns)" using snap(2) b(1) by (auto simp: good_def live_inv_def)
  note e = build_entries(1)[OF build]
  have "distinct (map fst entries)" unfolding e by (rule distinct_entries[OF listing_distinct[OF fine snap(1)]])
  from staged_get[OF parts(5) this] show thesis
    using that[OF parts(2) _ _ _ snap(1) fine _ parts(4) b(1) valid conf(1) build] parts(1) snap(2) e
    by (simp add: good_def)
qed

lemma vector_block_present:
  assumes "searchable X n status entries snap s"
  shows "\<exists>members pb. 0 < pb \<and> length (centroids status) = length members
    \<and> cluster_blocks status = map (\<lambda>rows. div_ceil (length rows) pb) members
    \<and> mset (concat members) = mset (vectors_of (listing X n snap))
    \<and> (\<forall>c < length members. \<forall>b < length (chunks pb (members ! c)).
         \<exists>v. bt_get s (vector_block_key (gen_root n (generation status)) c b) = Some v
           \<and> decode (crc32 X) v = Inr (chunks pb (members ! c) ! b))"
proof -
  let ?p = "gen_root n (generation status)" and ?docs = "listing X n snap"
  from assms obtain ns conf where p: "docs_fine X n snap" "vectors_fit X n snap" "namespace_at X snap n = Inr ns"
    "valid_config (ns_conf ns)" "1 \<le> clusters conf" "bt_ok snap"
    and build: "build X (generation status) n (ns_conf ns) (idx_revision status) ?docs conf = Inr (status, entries)"
    and get: "\<And>k w. prefix ?p k \<Longrightarrow> bt_get s k = Some w \<longleftrightarrow>
      (k, w) \<in> set (entries_of X ?p (ns_conf ns) (members_of (ns_conf ns) conf status ?docs) ?docs)"
    by (rule searchable_parts) blast
  let ?pb = "per_block (ns_conf ns)" and ?ms = "members_of (ns_conf ns) conf status ?docs"
  note mm = members_mset[OF build p(5)]
  have rows: "valid_id i \<and> valid_vector (ns_conf ns) v" if "(i, v) \<in> set (concat ?ms)" for i v
  proof -
    from that have "(i, v) \<in> set (vectors_of ?docs)" using mm by (metis set_mset_mset)
    then obtain d where d: "d \<in> set ?docs" "doc_id d = i" "vector d = Some v" by (auto simp: vectors_of_iff)
    then have "docs_of X snap n i = Some d" using listing_docs[OF p(1,6)] by metis
    then have "vector_at X snap n i = Inr (Some v)" using document_at_fine(2)[OF p(1,6)] d(3) by metis
    then show ?thesis using p(2,3) listing_valid_id[OF p(1) d(1)] d(2) by (simp add: vectors_fit_def)
  qed
  have "\<exists>v. bt_get s (vector_block_key ?p c b) = Some v \<and> decode (crc32 X) v = Inr (chunks ?pb (?ms ! c) ! b)"
    if cb: "c < length ?ms" "b < length (chunks ?pb (?ms ! c))" for c b
  proof -
    have "(vector_block_key ?p c b, encode (crc32 X) (chunks ?pb (?ms ! c) ! b)) \<in> set (vector_entries X ?p ?pb ?ms)"
      using cb by (auto simp: vector_entries_iff)
    moreover have "prefix ?p (vector_block_key ?p c b)" by (simp add: vector_block_key_def)
    ultimately have "bt_get s (vector_block_key ?p c b) = Some (encode (crc32 X) (chunks ?pb (?ms ! c) ! b))"
      using get by (simp add: entries_of_def)
    moreover have "decode (crc32 X) (encode (crc32 X) (chunks ?pb (?ms ! c) ! b)) = Inr (chunks ?pb (?ms ! c) ! b)"
    proof (rule chunk_decodes[OF _ p(4) _ per_block_le])
      show "\<forall>(i, v) \<in> set (?ms ! c). valid_id i \<and> valid_vector (ns_conf ns) v"
        using rows nth_mem[OF cb(1)] by fastforce
    qed (rule nth_mem[OF cb(2)])
    ultimately show ?thesis by blast
  qed
  with build_entries(2,3)[OF build] mm per_block_pos show ?thesis by blast
qed

text \<open>The rows scored from the index: the candidates of the snapshot that did not change.\<close>

lemma ann_candidates:
  assumes "searchable X n status entries snap s" "selects q (listing X n snap) sel"
    and "length (centroids status) \<le> q_probes q"
  shows "\<exists>st rows. centroid_ann X s q m status (gen_root n (generation status)) dirty sel = Inr st
    \<and> scored q m st = score_rows q m rows []
    \<and> mset rows = mset (candidates q (filter (\<lambda>d. \<not> bs_mem (doc_id d) dirty) (listing X n snap)))"
proof -
  let ?p = "gen_root n (generation status)" and ?docs = "listing X n snap"
  from vector_block_present[OF assms(1)] obtain members pb where mp: "0 < pb"
    "length (centroids status) = length members"
    "cluster_blocks status = map (\<lambda>rows. div_ceil (length rows) pb) members"
    "mset (concat members) = mset (vectors_of ?docs)"
    and blocks: "\<And>c b. c < length members \<Longrightarrow> b < length (chunks pb (members ! c)) \<Longrightarrow>
         \<exists>v. bt_get s (vector_block_key ?p c b) = Some v \<and> decode (crc32 X) v = Inr (chunks pb (members ! c) ! b)"
    by blast
  let ?order = "take (q_probes q) (probe_order status q m)"
  have "length (probe_order status q m) = length (centroids status)"
    using probe_order_all[of status q m] by (metis length_upt minus_nat.diff_0 size_mset)
  with assms(3) have all: "mset ?order = mset [0..<length members]"
    using probe_order_all[of status q m] by (simp add: mp(2))
  then have "set ?order \<subseteq> {..<length members}" by (metis atLeast_upt set_mset_mset order_refl)
  from ann_blocks[OF block_list[OF blocks mp(3,1) this], where q = q and m = m and dirty = dirty and selected = sel
      and best = "[]" and sc = 0]
  obtain sc where run: "centroid_ann X s q m status ?p dirty sel =
    Inr (score_rows q m (filter (keep_row dirty sel) (concat (concat (map (\<lambda>c. chunks pb (members ! c)) ?order)))) [], [], sc)"
    by (auto simp: centroid_ann_def)
  have dist: "distinct (map doc_id ?docs)"
    using assms(1) by (elim searchable_parts) (rule listing_distinct)
  have "mset (filter (keep_row dirty sel) (concat (concat (map (\<lambda>c. chunks pb (members ! c)) ?order))))
      = mset (filter (keep_row dirty sel) (vectors_of ?docs))"
    using mset_concat_order[OF all mp(1)] mp(4) by (simp only: mset_filter)
  with kept_vectors[of ?docs sel q dirty, OF selected_iff[OF assms(2) dist]] run show ?thesis
    by (intro exI conjI) (assumption, simp add: scored_def, simp)
qed

lemma filtered_candidates:
  assumes "searchable X n status entries snap s" "selects q (listing X n snap) (Some ids)"
    and "\<forall>i. bs_mem i dirty \<longleftrightarrow> dirty_id n s (idx_revision status) i"
  shows "\<exists>st rows. filtered_exact X s n q m ids dirty = Inr st
    \<and> scored q m st = score_rows q m rows []
    \<and> mset rows = mset (candidates q (filter (\<lambda>d. \<not> bs_mem (doc_id d) dirty) (listing X n snap)))"
proof -
  let ?docs = "listing X n snap" and ?ids = "filter (\<lambda>i. \<not> bs_mem i dirty) (keys_of ids)"
  from assms(1) have p: "docs_fine X n snap" "bt_ok snap" "docs_fine X n s" "bt_ok s" "covers n snap (idx_revision status) s"
    by (auto elim: searchable_parts)
  have sel: "bt_ok ids" "set (keys_of ids) = {doc_id d | d. d \<in> set ?docs \<and> matches (q_filter q) (attributes d)}"
    using assms(2) by (simp_all add: selects_def)
  have found: "\<exists>d. docs_of X s n i = Some d \<and> d \<in> set ?docs \<and> matches (q_filter q) (attributes d) \<and> doc_id d = i
      \<and> vector_at X s n i = Inr (vector d)" if "i \<in> set ?ids" for i
  proof -
    from that sel(2) obtain d where d: "d \<in> set ?docs" "matches (q_filter q) (attributes d)" "doc_id d = i"
      by (auto simp del: set_map)
    have "\<not> dirty_id n s (idx_revision status) i" using that assms(3) by (simp del: set_map)
    then have "docs_of X s n i = Some d"
      using clean_same(1)[OF p(5)] d listing_docs[OF p(1,2)] by metis
    with d document_at_fine(2)[OF p(3,4)] show ?thesis by blast
  qed
  then have "\<forall>i \<in> set ?ids. \<exists>d. docs_of X s n i = Some d \<and> matches (q_filter q) (attributes d) \<and> doc_id d = i
      \<and> vector_at X s n i = Inr (vector d)" by blast
  from filtered_rows[OF this, of m "([], [], 0)"] obtain st where st:
    "filtered_exact X s n q m ids dirty = Inr st" "scored q m st = score_rows q m (candidates q (docs_at X s n ?ids)) []"
    by (auto simp: filtered_exact_def scored_def)
  have "mset (docs_at X s n ?ids) = mset (filter (\<lambda>d. doc_id d \<in> set ?ids) (listing X n s))"
    using bt_ok_distinct[OF sel(1)] by (intro docs_at_listing[OF p(3,4)]) simp
  also have "\<dots> = mset (filter (\<lambda>d. doc_id d \<in> set (keys_of ids))
      (filter (\<lambda>d. \<not> dirty_id n s (idx_revision status) (doc_id d)) (listing X n s)))"
    using assms(3) by (simp add: conj_commute del: set_map)
  also have "\<dots> = mset (filter (\<lambda>d. doc_id d \<in> set (keys_of ids))
      (filter (\<lambda>d. \<not> dirty_id n s (idx_revision status) (doc_id d)) ?docs))"
    using clean_listing[OF p(5,3,1,4,2)] by (simp only: mset_filter)
  also have "\<dots> = mset (filter (\<lambda>d. matches (q_filter q) (attributes d)) (filter (\<lambda>d. \<not> bs_mem (doc_id d) dirty) ?docs))"
  proof -
    have "doc_id d \<in> set (keys_of ids) \<longleftrightarrow> matches (q_filter q) (attributes d)" if "d \<in> set ?docs" for d
      using selected_iff[OF assms(2) listing_distinct[OF p(1,2)] that] by (simp only: option.case bt_get_None_iff not_not)
    then have "filter (\<lambda>d. doc_id d \<in> set (keys_of ids)) (filter (\<lambda>d. \<not> dirty_id n s (idx_revision status) (doc_id d)) ?docs)
        = filter (\<lambda>d. matches (q_filter q) (attributes d)) (filter (\<lambda>d. \<not> bs_mem (doc_id d) dirty) ?docs)"
      using assms(3) by (simp only: filter_filter) (rule filter_cong, auto)
    then show ?thesis by (rule arg_cong)
  qed
  finally have "mset (candidates q (docs_at X s n ?ids))
      = mset (candidates q (filter (\<lambda>d. matches (q_filter q) (attributes d)) (filter (\<lambda>d. \<not> bs_mem (doc_id d) dirty) ?docs)))"
    by (rule candidates_mset_cong)
  also have "candidates q (filter (\<lambda>d. matches (q_filter q) (attributes d)) xs) = candidates q xs" for xs
    by (induction xs) (auto simp: candidates_def candidate_def)
  finally show ?thesis using st by blast
qed

subsection \<open>The query\<close>

text \<open>C7: A query through the index with every cluster probed is an exact query: on any store that the
  published index answers for, whatever was written, changed or deleted since the build, and
  whichever plan the filter selects, its ranking is the best \<open>top_k\<close> of the documents that now
  match the filter and have a vector. This needs the digest and the JSON encoder not to collide
  on the fields and values in play (\<open>no_collisions\<close>), and attribute maps as serde_json
  decodes them (\<open>attrs_ok\<close>).\<close>
theorem indexed_query_exact:
  assumes "searchable X n status entries snap s" and "stats_at X s n = Inr st"
    and "index_at X s n = Inr (Some status)" and "q_mode q \<noteq> Exact"
    and "length (centroids status) \<le> q_probes q" and "validate_filter (q_filter q) = Inr ()"
    and "attrs_ok (listing X n snap)" and "no_collisions X (listing X n snap) (q_filter q)"
  shows "\<exists>res. vector_query X s n schema q conf = Inr res
    \<and> ranks (hits res) = best_of q (metric schema) (candidates q (listing X n s))
    \<and> hits_from q (listing X n s) (hits res) \<and> indexed_revision res = idx_revision status"
proof -
  let ?m = "metric schema" and ?p = "gen_root n (generation status)" and ?docs = "listing X n snap"
  from assms(1) have p: "docs_fine X n snap" "bt_ok snap" "docs_fine X n s" "bt_ok s"
    "covers n snap (idx_revision status) s" "live_inv X n s" "change_ids_ok n s"
    by (auto elim: searchable_parts)
  have dist: "distinct (map doc_id ?docs)" by (rule listing_distinct[OF p(1,2)])
  from pending_spec[OF p(6,7,4)] obtain dirty where dirty: "pending s n (idx_revision status) = Inr dirty" "bt_ok dirty"
    "\<forall>i. bs_mem i dirty \<longleftrightarrow> dirty_id n s (idx_revision status) i" by blast
  obtain sel where sel: "filter_ids X s ?p (q_filter q) = Inr sel" "selects q ?docs sel"
    using assms(1)
  proof (rule searchable_parts)
    fix ns conf
    assume "\<And>k w. prefix ?p k \<Longrightarrow> bt_get s k = Some w \<longleftrightarrow>
      (k, w) \<in> set (entries_of X ?p (ns_conf ns) (members_of (ns_conf ns) conf status ?docs) ?docs)"
    from filter_ids_spec[OF assms(8,7) p(4) _ assms(6) dist this] assms(1) that show thesis
      by (auto simp: selects_def searchable_def)
  qed
  let ?clean = "filter (\<lambda>d. \<not> bs_mem (doc_id d) dirty) ?docs"
  have "\<exists>plan_name st0 rows. vector_plan X s n schema q conf (Some status) =
      rbind (fold_res (dirty_row X s n q ?m) (keys_of dirty) st0) (\<lambda>st'. Inr (plan_name, st'))
    \<and> scored q ?m st0 = score_rows q ?m rows [] \<and> mset rows = mset (candidates q ?clean)"
  proof (cases sel)
    case None
    from ann_candidates[OF assms(1) sel(2) assms(5), of ?m dirty] obtain st0 rows where
      "centroid_ann X s q ?m status ?p dirty sel = Inr st0" and row: "scored q ?m st0 = score_rows q ?m rows []"
      "mset rows = mset (candidates q ?clean)" by blast
    then have "vector_plan X s n schema q conf (Some status) =
        rbind (fold_res (dirty_row X s n q ?m) (keys_of dirty) st0) (\<lambda>st'. Inr (''centroid_ann'', st'))"
      using assms(4) dirty(1) sel(1) None by (simp add: vector_plan_def Let_def)
    with row show ?thesis by blast
  next
    case (Some ids)
    define exact where "exact \<longleftrightarrow> length ids \<le> filter_scan_threshold conf"
    from ann_candidates[OF assms(1) sel(2) assms(5), of ?m dirty]
      filtered_candidates[OF assms(1) sel(2)[unfolded Some] dirty(3), of ?m]
    obtain st0 rows where
      "(if exact then filtered_exact X s n q ?m ids dirty else centroid_ann X s q ?m status ?p dirty sel) = Inr st0"
      and row: "scored q ?m st0 = score_rows q ?m rows []" "mset rows = mset (candidates q ?clean)"
      by (cases exact) fastforce+
    then have "vector_plan X s n schema q conf (Some status) =
        rbind (fold_res (dirty_row X s n q ?m) (keys_of dirty) st0)
          (\<lambda>st'. Inr (if exact then ''filtered_exact'' else ''centroid_ann'', st'))"
      using assms(4) dirty(1) sel(1) Some by (cases exact) (simp_all add: vector_plan_def Let_def exact_def)
    with row show ?thesis by blast
  qed
  then obtain plan_name st0 rows where plan: "vector_plan X s n schema q conf (Some status) =
      rbind (fold_res (dirty_row X s n q ?m) (keys_of dirty) st0) (\<lambda>st'. Inr (plan_name, st'))"
    "scored q ?m st0 = score_rows q ?m rows []" "mset rows = mset (candidates q ?clean)" by blast
  from dirty_rows[OF p(3,4), of q ?m "keys_of dirty" st0] obtain st1 where st1:
    "fold_res (dirty_row X s n q ?m) (keys_of dirty) st0 = Inr st1"
    "scored q ?m st1 = score_rows q ?m (rows @ candidates q (docs_at X s n (keys_of dirty))) []"
    by (auto simp: plan(2) score_rows_append)
  let ?rows = "rows @ candidates q (docs_at X s n (keys_of dirty))"
  have mem: "doc_id d \<in> set (keys_of dirty) \<longleftrightarrow> dirty_id n s (idx_revision status) (doc_id d)" for d
    using dirty(3) by (simp only: bt_get_None_iff not_not)
  have "mset (candidates q (docs_at X s n (keys_of dirty)))
      = mset (candidates q (filter (\<lambda>d. dirty_id n s (idx_revision status) (doc_id d)) (listing X n s)))"
    using candidates_mset_cong[OF docs_at_listing[OF p(3,4) bt_ok_distinct[OF dirty(2)]]] by (simp only: mem)
  moreover have "mset (candidates q ?clean)
      = mset (candidates q (filter (\<lambda>d. \<not> dirty_id n s (idx_revision status) (doc_id d)) (listing X n s)))"
    using candidates_mset_cong[OF clean_listing[OF p(5,3,1,4,2)]] dirty(3) by simp
  ultimately have all: "mset ?rows = mset (candidates q (listing X n s))"
    using candidates_split[of q "listing X n s" "\<lambda>d. dirty_id n s (idx_revision status) (doc_id d)"]
    by (simp add: plan(3))
  then have "set ?rows \<subseteq> set (candidates q (listing X n s))" by (metis order_refl set_mset_mset)
  from hydrate_best[OF p(3,4) st1(2) this] obtain hs where "hydrate X s n (scored q ?m st1) = Inr hs"
    "ranks hs = best_of q ?m ?rows" "hits_from q (listing X n s) hs" by blast
  then show ?thesis
    using assms(2,3) plan(1) st1(1) best_of_mset[OF all] by (simp add: vector_query_def flush_rest_scored)
qed

end
