(* ===== verification/Examples.thy ===== *)
theory Examples
  imports Deletion Queries IndexKeys
begin

section \<open>Concrete instances of the properties\<close>

text \<open>
  A database with one empty namespace and a request of two upserts and a delete, over the
  sample library functions: each property is applied here with its hypotheses discharged.
\<close>

definition ex_conf :: ns_config where
  "ex_conf = \<lparr>dimensions = Some 2, metric = Dot, text_fields = [''body'']\<rparr>"
definition ex_db0 :: db where
  "ex_db0 = \<lparr>kv = [(FORMAT_KEY, FORMAT)], seqno = 0, closed = False, faults = []\<rparr>"
definition ex_ns :: namespace where "ex_ns = \<lparr>ns_name = ''n'', ns_conf = ex_conf\<rparr>"
definition ex_db1 :: db where
  "ex_db1 = \<lparr>kv = bt_put (namespace_key ''n'') (enc_ns sample_ext ex_ns) (kv ex_db0), seqno = 1, closed = False, faults = []\<rparr>"
definition ex_doc :: "string \<Rightarrow> f32 \<Rightarrow> document" where
  "ex_doc i x = \<lparr>doc_id = i, vector = Some [x, 0x3F800000], attributes = [(''k'', JString ''v'')]\<rparr>"
definition ex_req :: write_request where
  "ex_req = \<lparr>upsert = [ex_doc ''a'' 0x3F800000, ex_doc ''b'' 0x40000000], delete_ids = [''c'']\<rparr>"
definition ex_lim :: limits_config where
  "ex_lim = \<lparr>max_documents = - 1, max_namespace_bytes = - 1, max_pending_documents = - 1\<rparr>"

lemma ex_valid [simp]: "valid_id ''n''" "valid_config ex_conf"
  by (simp_all add: valid_id_def id_char_def valid_config_def ex_conf_def Let_def)
lemma ex_ok [simp]: "bt_ok (kv ex_db0)" "bt_ok (kv ex_db1)"
  by (simp_all add: ex_db0_def ex_db1_def key_defs)
lemma ex_clean [simp]: "clean m (kv ex_db0)"
  by (auto simp: clean_def ex_db0_def)
lemma ex_format [simp]: "bt_get (kv ex_db0) FORMAT_KEY = Some FORMAT" "bt_get (kv ex_db1) FORMAT_KEY = Some FORMAT"
  by (simp_all add: ex_db0_def ex_db1_def)
lemma ex_flags [simp]: "faults ex_db0 = []" "faults ex_db1 = []" "\<not> closed ex_db0" "\<not> closed ex_db1"
  by (simp_all add: ex_db0_def ex_db1_def)
lemma ex_ready [simp]: "check_ready ex_db0 = Inr ()" "check_ready ex_db1 = Inr ()"
  by (simp_all add: check_ready_def)
lemma ex_create: "create_namespace sample_ext ''n'' ex_conf ex_db0 = (Inr ex_ns, ex_db1)"
  by (simp add: create_namespace_def act_bind_def snapshot_def Let_def ex_ns_def ex_db1_def)
    (simp_all add: ex_db0_def key_defs Let_def act_bind_def)
lemma ex_bare [simp]: "bare ''n'' (kv ex_db1)"
  by (auto simp: bare_def ex_db1_def ex_db0_def)
lemma ex_namespace [simp]: "namespace_at sample_ext (kv ex_db1) ''n'' = Inr ex_ns"
  using sample_json_codec by (simp add: namespace_at_def) (simp add: ex_db1_def ex_db0_def)
lemma ex_live: "live_inv sample_ext ''n'' (kv ex_db1)"
  using bare_live[OF ex_bare ex_ok(2) ex_namespace] by (simp add: ex_ns_def)
lemma ex_serves [simp]: "serves sample_ext ''n'' ex_db1"
  using ex_live by (simp add: serves_def)
lemma ex_request_ok [simp]: "request_ok ''n'' ex_req"
  by (simp add: request_ok_def write_items_def ex_req_def ex_doc_def) (simp add: valid_id_def id_char_def Let_def)
lemma ex_stats [simp]: "stats_at sample_ext (kv ex_db1) ''n'' = Inr default_stats"
  using bare_gets(4)[OF ex_bare] by (simp add: stats_at_def)
lemma ex_allowed_at:
  "namespace_at sample_ext s ''n'' = Inr ex_ns \<Longrightarrow> stats_at sample_ext s ''n'' = Inr default_stats \<Longrightarrow>
    write_allowed sample_ext ex_lim ''n'' ex_req s"
  by (simp add: write_allowed_def default_stats_def over_quota_def ex_lim_def write_items_def ex_req_def
      item_accepted_def item_size_def ex_doc_def ex_ns_def ex_conf_def valid_vector_def f32_is_finite_def
      f32_inf_mag_def f32_mag_def s_enc_doc_def enc_pair_def enc_list_def enc_str_def)
lemmas ex_allowed = ex_allowed_at[OF ex_namespace ex_stats]
lemma ex_stored [simp]: "stored_exactly sample_ext (ex_doc i x)"
  unfolding stored_exactly_def sample_sel by (rule sample_doc_codec) (simp add: ex_doc_def mapped_def str.dec_enc)
lemma ex_write: "\<exists>r d. engine_write sample_ext ex_lim ''n'' ex_req ex_db1 = (Inr r, d)"
proof -
  obtain p where "prepare_write sample_ext ex_lim ''n'' ex_req (kv ex_db1) = Inr p"
    using prepare_write_iff[OF ex_ok(2) ex_request_ok ex_live, of ex_lim] ex_allowed by blast
  then show ?thesis by (cases p) (simp add: engine_write_def act_bind_Inr_iff snapshot_Inr)
qed

subsection \<open>Writes\<close>

theorem write_refines_witness:
  "\<exists>r d. engine_write sample_ext ex_lim ''n'' ex_req ex_db1 = (Inr r, d)
    \<and> docs_of sample_ext (kv d) ''n'' ''b'' = Some (ex_doc ''b'' 0x40000000)
    \<and> docs_of sample_ext (kv d) ''n'' ''c'' = None"
proof -
  obtain r d where w: "engine_write sample_ext ex_lim ''n'' ex_req ex_db1 = (Inr r, d)" using ex_write by blast
  from write_refines[OF w ex_serves sample_json_codec]
  have "docs_of sample_ext (kv d) ''n'' = spec_write ex_req (docs_of sample_ext (kv ex_db1) ''n'')"
    by (simp add: ex_req_def)
  with w show ?thesis by (simp add: spec_write_def ex_req_def find_doc_def ex_doc_def)
qed

theorem write_accepted_iff_witness:
  "\<exists>r d. engine_write sample_ext ex_lim ''n'' ex_req ex_db1 = (Inr r, d)"
  using write_accepted_iff[OF ex_serves ex_flags(2), of ex_lim ex_req] ex_allowed by simp

theorem write_atomic_witness:
  "let (r, d) = engine_write sample_ext ex_lim ''n'' ex_req (ex_db1\<lparr>faults := [FailDurable]\<rparr>) in
     docs_of sample_ext (kv d) ''n''
       \<in> {docs_of sample_ext (kv ex_db1) ''n'', spec_write ex_req (docs_of sample_ext (kv ex_db1) ''n'')}"
proof -
  obtain r d where w: "engine_write sample_ext ex_lim ''n'' ex_req (ex_db1\<lparr>faults := [FailDurable]\<rparr>) = (r, d)"
    by force
  have "serves sample_ext ''n'' (ex_db1\<lparr>faults := [FailDurable]\<rparr>)" using ex_serves by (simp add: serves_def)
  from write_atomic[OF w this sample_json_codec] w show ?thesis by (simp add: ex_req_def)
qed

theorem write_keeps_live_witness:
  "serves sample_ext ''n'' (snd (engine_write sample_ext ex_lim ''n'' ex_req ex_db1))"
  by (rule write_keeps_live[OF surjective_pairing ex_serves sample_json_codec])

theorem write_revision_witness:
  "\<exists>r d. engine_write sample_ext ex_lim ''n'' ex_req ex_db1 = (Inr r, d) \<and> unat (res_revision r) = 1
    \<and> bt_get (kv d) (change_key ''n'' ''c'') = Some (u64_to_le (res_revision r))"
proof -
  obtain r d where w: "engine_write sample_ext ex_lim ''n'' ex_req ex_db1 = (Inr r, d)" using ex_write by blast
  from write_revision[OF w ex_serves sample_json_codec] w show ?thesis
    by (auto simp: default_stats_def ex_req_def)
qed

subsection \<open>Reading\<close>

lemma ex_fine [simp]: "docs_fine sample_ext ''n'' (kv ex_db1)"
  using bare_scans(1)[OF ex_bare ex_ok(2)] by (simp add: docs_fine_def)

theorem write_keeps_readable_witness:
  "docs_fine sample_ext ''n'' (kv (snd (engine_write sample_ext ex_lim ''n'' ex_req ex_db1)))"
  by (rule write_keeps_readable[OF surjective_pairing ex_serves ex_fine sample_json_codec])
    (simp add: ex_req_def)

lemma ex_written:
  obtains r d where "engine_write sample_ext ex_lim ''n'' ex_req ex_db1 = (Inr r, d)"
    "serves sample_ext ''n'' d" "docs_fine sample_ext ''n'' (kv d)" "check_ready d = Inr ()"
    "namespace_at sample_ext (kv d) ''n'' = Inr ex_ns"
proof -
  obtain r d where w: "engine_write sample_ext ex_lim ''n'' ex_req ex_db1 = (Inr r, d)" using ex_write by blast
  from w obtain st b where b: "request_ok ''n'' ex_req" "check_ready ex_db1 = Inr ()"
    "prepare_write sample_ext ex_lim ''n'' ex_req (kv ex_db1) = Inr (st, b)" "kv d = apply_batch b (kv ex_db1)"
    "\<not> closed d" by (rule engine_write_Inr)
  have batch: "b = write_commit sample_ext ''n'' st ex_req" "live_inv sample_ext ''n'' (kv d)"
    using live_inv_write[OF ex_live ex_ok(2) b(1) sample_json_codec b(3)] unfolding b(4) by blast+
  have keep: "bt_get (kv d) k = bt_get (kv ex_db1) k" if "k \<in> {FORMAT_KEY, namespace_key ''n''}" for k
  proof -
    have "k \<notin> op_key ` set (write_ops sample_ext ''n'' (revision st) ex_req)"
      using that write_ops_keys[of _ sample_ext "''n''" "revision st" ex_req] by (fastforce simp: item_keys_def)
    with that show ?thesis by (auto simp: b(4) batch(1) write_commit_get get_apply_batch_other)
  qed
  have fine: "row_fine sample_ext ''n'' (kv d) (document_key ''n'' i, v)"
    if "bt_get (kv d) (document_key ''n'' i) = Some v" for i v
    unfolding b(4) by (rule write_row_fine[OF ex_ok(2) b(1,3) ex_live sample_json_codec ex_fine])
      (use that b(4) in \<open>simp_all add: ex_req_def\<close>)
  have ok: "bt_ok (kv d)" by (simp add: b(4))
  show thesis
  proof (rule that[OF w])
    show "serves sample_ext ''n'' d" using batch(2) ok by (simp add: serves_def)
    show "docs_fine sample_ext ''n'' (kv d)" using fine docs_fine_iff[OF ok] by blast
    show "check_ready d = Inr ()" using b(5) by (simp add: check_ready_def keep)
    show "namespace_at sample_ext (kv d) ''n'' = Inr ex_ns"
      using ex_namespace by (simp add: namespace_at_def keep)
  qed
qed

theorem pages_enumerate_witness:
  "\<exists>r d docs. engine_write sample_ext ex_lim ''n'' ex_req ex_db1 = (Inr r, d)
    \<and> walk sample_ext ''n'' 1 (length (scan_prefix (document_prefix ''n'') (kv d))) None d = Some docs
    \<and> sorted_wrt (<) (map doc_id docs)"
proof -
  obtain r d where d: "engine_write sample_ext ex_lim ''n'' ex_req ex_db1 = (Inr r, d)"
    "serves sample_ext ''n'' d" "docs_fine sample_ext ''n'' (kv d)" "check_ready d = Inr ()" by (rule ex_written)
  from pages_enumerate[OF _ _ d(4,2,3), of 1] d(1) show ?thesis by auto
qed

definition ex_query :: query_request where
  "ex_query = \<lparr>q_vector = [0x3F800000, 0x3F800000], q_top_k = 1,
     q_filter = \<lparr>eq_preds = [], range_preds = []\<rparr>, q_mode = Exact, q_probes = 4\<rparr>"

theorem exact_query_top_k_witness:
  "\<exists>r d res. engine_write sample_ext ex_lim ''n'' ex_req ex_db1 = (Inr r, d)
    \<and> vector_query sample_ext (kv d) ''n'' ex_conf ex_query (index_conf default_config) = Inr res
    \<and> length (hits res) \<le> 1"
proof -
  obtain r d where d: "engine_write sample_ext ex_lim ''n'' ex_req ex_db1 = (Inr r, d)"
    "serves sample_ext ''n'' d" "docs_fine sample_ext ''n'' (kv d)" by (rule ex_written)
  from d(1) obtain st b where b: "request_ok ''n'' ex_req"
    "prepare_write sample_ext ex_lim ''n'' ex_req (kv ex_db1) = Inr (st, b)" "kv d = apply_batch b (kv ex_db1)"
    by (rule engine_write_Inr)
  have "index_key ''n'' \<notin> op_key ` set b"
    using b(2) write_ops_keys[of _ sample_ext "''n''" "revision st" ex_req]
    by (elim prepare_write_Inr) (fastforce simp: item_keys_def)
  then have "index_at sample_ext (kv d) ''n'' = Inr None"
    using bare_gets(5)[OF ex_bare] by (simp add: index_at_def b(3) get_apply_batch_other)
  moreover obtain s where "stats_at sample_ext (kv d) ''n'' = Inr s"
    using d(2) by (auto simp: serves_def live_inv_def)
  ultimately obtain res where res: "vector_query sample_ext (kv d) ''n'' ex_conf ex_query (index_conf default_config) = Inr res"
    "ranks (hits res) = best_of ex_query (metric ex_conf) (candidates ex_query (listing sample_ext ''n'' (kv d)))"
    using exact_query_top_k[OF d(3), of s None ex_query ex_conf "index_conf default_config"] d(2)
    by (auto simp: serves_def)
  from arg_cong[OF res(2), of length] have "length (hits res) \<le> 1"
    by (simp add: ranks_def best_of_def ex_query_def)
  with d(1) res(1) show ?thesis by blast
qed

subsection \<open>Creating and deleting\<close>

theorem create_namespace_spec_witness:
  "\<exists>ns d. create_namespace sample_ext ''n'' ex_conf ex_db0 = (Inr ns, d) \<and> serves sample_ext ''n'' d
    \<and> create_namespace sample_ext ''n'' ex_conf d = (Inr ns, d)"
  using create_namespace_spec[OF ex_create ex_clean ex_ok(1) sample_json_codec ex_format(1), of ex_conf] ex_create
  by simp

lemma ex_reliable [simp]: "reliable ex_db1" "markers_ok (kv ex_db1)"
  by (simp_all add: reliable_def markers_ok_def scan_prefix_def ex_db1_def ex_db0_def key_defs)

theorem delete_completes_witness:
  "\<exists>d. delete_namespace ''n'' ex_db1 = (Inr (), d) \<and> reliable d"
  using delete_completes[OF ex_reliable(1) ex_ready(2) ex_valid(1) ex_reliable(2)] by blast

lemma ex_delete: "\<exists>d. delete_namespace ''n'' ex_db1 = (Inr (), d)"
proof -
  have "completes (act_bind (commit (intent ''n'')) (\<lambda>_. erase_namespace ''n''))"
    by (intro completes_bind completes_commit completes_erase)
  from this[unfolded completes_def, rule_format, OF ex_reliable(1)]
  obtain d where "act_bind (commit (intent ''n'')) (\<lambda>_. erase_namespace ''n'') ex_db1 = (Inr (), d)" by auto
  then show ?thesis
    by (auto simp: delete_namespace_def intent_def act_bind_def[of "act_lift _"] act_bind_def[of snapshot] snapshot_def)
qed

theorem delete_leaves_nothing_witness:
  "\<exists>d. delete_namespace ''n'' ex_db1 = (Inr (), d) \<and> clean ''n'' (kv d)"
  using ex_delete delete_leaves_nothing[OF _ ex_ok(2)] by blast

text \<open>The delete of a namespace whose erasure fails after its intent is durable.\<close>

definition ex_broken :: db where "ex_broken = snd (delete_namespace ''n'' (ex_db1\<lparr>faults := [NoFault, FailClean]\<rparr>))"

lemma ex_broken_delete:
  "delete_namespace ''n'' (ex_db1\<lparr>faults := [NoFault, FailClean]\<rparr>) = (Inl Storage, ex_broken)"
  "ex_broken = \<lparr>kv = apply_batch (intent ''n'') (kv ex_db1), seqno = 2, closed = False, faults = []\<rparr>"
proof -
  have "scan_prefix p (apply_batch (intent ''n'') (kv ex_db1)) = []"
    if "p \<in> {document_prefix ''n'', vector_prefix ''n'', change_prefix ''n'', gen_prefix ''n''}" for p
    using that by (auto simp: scan_prefix_def intent_def ex_db1_def ex_db0_def key_defs bt_del_def)
  then have run: "delete_namespace ''n'' (ex_db1\<lparr>faults := [NoFault, FailClean]\<rparr>) =
      (Inl Storage, \<lparr>kv = apply_batch (intent ''n'') (kv ex_db1), seqno = 2, closed = False, faults = []\<rparr>)"
    using ex_ready(2)
    by (simp add: delete_namespace_def act_bind_def snapshot_def check_ready_def commit_def Let_def
        erase_namespace_def erase_table_def flip: intent_def) (simp add: ex_db1_def)
  then show "delete_namespace ''n'' (ex_db1\<lparr>faults := [NoFault, FailClean]\<rparr>) = (Inl Storage, ex_broken)"
    "ex_broken = \<lparr>kv = apply_batch (intent ''n'') (kv ex_db1), seqno = 2, closed = False, faults = []\<rparr>"
    by (simp_all add: ex_broken_def)
qed

lemma ex_reopen: "bt_ok (kv d) \<Longrightarrow> markers_ok (kv d) \<Longrightarrow> \<exists>e. reopen [] d = (Inr (), e)"
proof -
  assume "bt_ok (kv d)" "markers_ok (kv d)"
  then have "completes (resume_deletions (scan_prefix ''z/'' (kv d)))"
    by (intro completes_resume) (auto simp: markers_ok_def list_all_iff)
  moreover have "reliable (d\<lparr>closed := False, faults := []\<rparr>)" by (simp add: reliable_def)
  ultimately show ?thesis by (fastforce simp: completes_def reopen_def resume_all_deletions_def)
qed

theorem interrupted_delete_resumes_witness:
  "\<exists>d. reopen [] ex_broken = (Inr (), d)
    \<and> (clean ''n'' (kv d) \<or> agree_on ''n'' (kv ex_db1) (kv d))"
proof -
  let ?d = "ex_db1\<lparr>faults := [NoFault, FailClean]\<rparr>"
  have pre: "bt_ok (kv ?d)" "markers_ok (kv ?d)" "bt_get (kv ?d) (deletion_key ''n'') = None"
    using bare_gets(6)[OF ex_bare] by simp_all
  from delete_markers_ok[OF ex_broken_delete(1) pre(1,2)] obtain d where "reopen [] ex_broken = (Inr (), d)"
    using ex_reopen by blast
  with interrupted_delete_resumes[OF ex_broken_delete(1) this pre(1,2) ex_valid(1) pre(3)] show ?thesis by auto
qed


definition ex_again :: db where
  "ex_again = \<lparr>kv = bt_put (namespace_key ''n'') (enc_ns sample_ext ex_ns) (kv ex_broken), seqno = 3,
     closed = False, faults = []\<rparr>"

lemma ex_again_store: "kv ex_again = [(FORMAT_KEY, FORMAT), (namespace_key ''n'', s_enc_ns ex_ns), (deletion_key ''n'', ''delete'')]"
  by (simp add: ex_again_def ex_broken_delete(2) intent_def ex_db1_def ex_db0_def key_defs bt_del_def)

lemma ex_create_again: "create_namespace sample_ext ''n'' ex_conf ex_broken = (Inr ex_ns, ex_again)"
proof -
  have "bt_get (kv ex_broken) (namespace_key ''n'') = None" "bt_get (kv ex_broken) FORMAT_KEY = Some FORMAT"
    by (simp_all add: ex_broken_delete(2) intent_def)
  moreover have "\<not> closed ex_broken" "faults ex_broken = []" by (simp_all add: ex_broken_delete(2))
  ultimately have "create_namespace sample_ext ''n'' ex_conf ex_broken =
      (Inr ex_ns, ex_broken\<lparr>kv := bt_put (namespace_key ''n'') (enc_ns sample_ext ex_ns) (kv ex_broken), seqno := seqno ex_broken + 1\<rparr>)"
    by (simp add: create_namespace_def act_bind_def snapshot_def check_ready_def Let_def ex_ns_def)
  then show ?thesis by (simp add: ex_again_def ex_broken_delete(2))
qed

lemma ex_again_live: "live_inv sample_ext ''n'' (kv ex_again)" "bt_ok (kv ex_again)"
proof -
  have "namespace_at sample_ext (kv ex_again) ''n'' = Inr ex_ns"
    by (simp add: namespace_at_def ex_again_store)
  moreover have "stats_at sample_ext (kv ex_again) ''n'' = Inr default_stats"
    by (simp add: stats_at_def ex_again_store)
  moreover have "scan_prefix p (kv ex_again) = []"
    if "p \<in> {document_prefix ''n'', vector_prefix ''n'', change_prefix ''n''}" for p
    using that by (auto simp: scan_prefix_def ex_again_store key_defs)
  ultimately show "live_inv sample_ext ''n'' (kv ex_again)"
    by (simp add: live_inv_def ex_ns_def counters_ok_def count_defs tally_def default_stats_def changes_ok_def
        vectors_have_docs_def) (simp add: ex_again_store)
  show "bt_ok (kv ex_again)" by (simp add: ex_again_store key_defs)
qed

theorem recreated_after_failed_delete_is_erased_witness:
  "\<exists>w d3 d4. engine_write sample_ext ex_lim ''n'' ex_req ex_again = (Inr w, d3)
    \<and> reopen [] d3 = (Inr (), d4) \<and> docs_of sample_ext (kv d4) ''n'' ''a'' = None"
proof -
  have "write_allowed sample_ext ex_lim ''n'' ex_req (kv ex_again)"
    by (rule ex_allowed_at) (simp_all add: namespace_at_def stats_at_def ex_again_store)
  then obtain p where "prepare_write sample_ext ex_lim ''n'' ex_req (kv ex_again) = Inr p"
    using prepare_write_iff[OF ex_again_live(2) ex_request_ok ex_again_live(1), of ex_lim] by blast
  moreover have "check_ready ex_again = Inr ()" "\<not> closed ex_again" "faults ex_again = []"
    by (simp_all add: check_ready_def ex_again_store) (simp_all add: ex_again_def)
  ultimately obtain w d3 where w: "engine_write sample_ext ex_lim ''n'' ex_req ex_again = (Inr w, d3)"
    by (cases p) (simp add: engine_write_def act_bind_Inr_iff snapshot_Inr)
  obtain st b where b: "request_ok ''n'' ex_req"
    "prepare_write sample_ext ex_lim ''n'' ex_req (kv ex_again) = Inr (st, b)" "kv d3 = apply_batch b (kv ex_again)"
    using w by (rule engine_write_Inr)
  have ok: "bt_ok (kv d3)" using ex_again_live(2) b(3) by simp
  have "k \<notin> op_key ` set b" if "prefix ''z/'' k" for k
    using b(2) write_ops_keys[of _ sample_ext "''n''" "revision st" ex_req] that
    by (elim prepare_write_Inr) (fastforce simp: item_keys_def key_defs)
  then have "bt_get (kv d3) k = bt_get (kv ex_again) k" if "prefix ''z/'' k" for k
    using that ex_again_live(2) b(3) by (simp add: get_apply_batch_other)
  moreover have "markers_ok (kv ex_again)" by (simp add: markers_ok_def ex_again_store scan_prefix_def key_defs)
  ultimately have "markers_ok (kv d3)" using ok ex_again_live(2) by (metis markers_ok_iff)
  with ok obtain d4 where d4: "reopen [] d3 = (Inr (), d4)" using ex_reopen by blast
  have "bt_get (kv ex_broken) (deletion_key ''n'') \<noteq> None" by (simp add: ex_broken_delete(2) intent_def)
  from recreated_after_failed_delete_is_erased[OF ex_broken_delete(1) this ex_create_again w d4 _ _ sample_json_codec]
  have "docs_of sample_ext (kv d4) ''n'' ''a'' = None" by simp
  with w d4 show ?thesis by blast
qed

end
