(* ===== verification/System.thy ===== *)
theory System
  imports Consistency
begin

section \<open>The engine as a transition system\<close>

text \<open>
  One database with its background task. A step is one critical section: a write, a
  create or a delete as a whole (they hold the commit mutex), or one commit of the rebuild
  or cleanup that holds the index mutex, which deletes also take. Before every step the
  storage may be given any failures to come, and at any point the process may stop and the
  database be opened again. \<open>engine_inv\<close> holds in every reachable state.
\<close>

record sys =
  sys_db :: db
  task :: "(string \<times> job) option"

definition inject :: "fault list \<Rightarrow> sys \<Rightarrow> db" where
  "inject fs \<sigma> = (sys_db \<sigma>)\<lparr>faults := fs\<rparr>"

definition next_task :: "string \<Rightarrow> job option result \<Rightarrow> (string \<times> job) option" where
  "next_task n r = (case r of Inr (Some j) \<Rightarrow> Some (n, j) | _ \<Rightarrow> None)"

definition index_exact :: "ext \<Rightarrow> string \<Rightarrow> index_config \<Rightarrow> string \<Rightarrow> store \<Rightarrow> bool" where
  "index_exact X gen conf n s =
     (case plan_build X gen conf n s of
        Inl _ \<Rightarrow> True
      | Inr (status, _) \<Rightarrow> dec_index X (enc_index X status) = Some status)"

inductive step :: "ext \<Rightarrow> limits_config \<Rightarrow> sys \<Rightarrow> sys \<Rightarrow> bool" for X lim where
  write_step: "engine_write X lim n req (inject fs \<sigma>) = (r, d') \<Longrightarrow>
    list_all (stored_exactly X) (upsert req) \<Longrightarrow> step X lim \<sigma> (\<sigma>\<lparr>sys_db := d'\<rparr>)"
| create_step: "create_namespace X n c (inject fs \<sigma>) = (r, d') \<Longrightarrow> step X lim \<sigma> (\<sigma>\<lparr>sys_db := d'\<rparr>)"
| delete_step: "task \<sigma> = None \<Longrightarrow> delete_namespace n (inject fs \<sigma>) = (r, d') \<Longrightarrow>
    step X lim \<sigma> (\<sigma>\<lparr>sys_db := d'\<rparr>)"
| build_step: "task \<sigma> = None \<Longrightarrow> valid_id n \<Longrightarrow> 1 \<le> clusters conf \<Longrightarrow> fresh_generation X n gen (kv (sys_db \<sigma>)) \<Longrightarrow>
    index_exact X gen conf n (kv (sys_db \<sigma>)) \<Longrightarrow> begin_build X gen conf n (inject fs \<sigma>) = (Inr j, d') \<Longrightarrow>
    step X lim \<sigma> (\<sigma>\<lparr>sys_db := d', task := Some (n, j)\<rparr>)"
| cleanup_step: "task \<sigma> = None \<Longrightarrow> valid_id n \<Longrightarrow> begin_cleanup X n (inject fs \<sigma>) = (r, d') \<Longrightarrow>
    step X lim \<sigma> (\<sigma>\<lparr>sys_db := d', task := next_task n r\<rparr>)"
| task_step: "task \<sigma> = Some (n, j) \<Longrightarrow> job_step X n j (inject fs \<sigma>) = (r, d') \<Longrightarrow>
    step X lim \<sigma> (\<sigma>\<lparr>sys_db := d', task := next_task n r\<rparr>)"
| reopen_step: "reopen fs (sys_db \<sigma>) = (r, d') \<Longrightarrow>
    step X lim \<sigma> (\<sigma>\<lparr>sys_db := d'\<lparr>closed := r \<noteq> Inr ()\<rparr>, task := None\<rparr>)"

inductive_cases step_cases [elim]: "step X lim \<sigma> \<sigma>'"

text \<open>A fresh database holds only its format record.\<close>

definition fresh_sys :: "sys \<Rightarrow> bool" where
  "fresh_sys \<sigma> \<longleftrightarrow> kv (sys_db \<sigma>) = [(FORMAT_KEY, FORMAT)] \<and> task \<sigma> = None"

inductive reachable :: "ext \<Rightarrow> limits_config \<Rightarrow> sys \<Rightarrow> bool" for X lim where
  reach_fresh: "fresh_sys \<sigma> \<Longrightarrow> reachable X lim \<sigma>"
| reach_step: "reachable X lim \<sigma> \<Longrightarrow> step X lim \<sigma> \<sigma>' \<Longrightarrow> reachable X lim \<sigma>'"

subsection \<open>The invariant\<close>

definition named :: "ext \<Rightarrow> string \<Rightarrow> store \<Rightarrow> bool" where
  "named X n s \<longleftrightarrow> (bt_get s (namespace_key n) = None
     \<or> (\<exists>ns. namespace_at X s n = Inr ns \<and> ns_name ns = n \<and> valid_config (ns_conf ns)))"

definition served :: "ext \<Rightarrow> string \<Rightarrow> store \<Rightarrow> bool" where
  "served X n s \<longleftrightarrow> good X n s \<and> index_ok X n s"

definition marked :: "string \<Rightarrow> store \<Rightarrow> bool" where
  "marked n s \<longleftrightarrow> bt_get s (deletion_key n) \<noteq> None"

definition ns_inv :: "ext \<Rightarrow> string \<Rightarrow> store \<Rightarrow> bool" where
  "ns_inv X n s \<longleftrightarrow> named X n s \<and> (marked n s \<or> clean n s \<or> served X n s)"

definition task_inv :: "ext \<Rightarrow> store \<Rightarrow> (string \<times> job) option \<Rightarrow> bool" where
  "task_inv X s t \<longleftrightarrow>
     (case t of None \<Rightarrow> True
      | Some (n, j) \<Rightarrow> valid_id n \<and> job_shape n j \<and> (marked n s \<or> served X n s \<and> job_inv X n s j))"

definition store_ok :: "store \<Rightarrow> bool" where
  "store_ok s \<longleftrightarrow> bt_ok s \<and> markers_ok s \<and> bt_get s FORMAT_KEY = Some FORMAT"

definition engine_inv :: "ext \<Rightarrow> sys \<Rightarrow> bool" where
  "engine_inv X \<sigma> \<longleftrightarrow> store_ok (kv (sys_db \<sigma>))
     \<and> (\<forall>n. valid_id n \<longrightarrow> ns_inv X n (kv (sys_db \<sigma>)))
     \<and> task_inv X (kv (sys_db \<sigma>)) (task \<sigma>)"

lemma inject_simps [simp]: "kv (inject fs \<sigma>) = kv (sys_db \<sigma>)" "closed (inject fs \<sigma>) = closed (sys_db \<sigma>)"
  by (simp_all add: inject_def)

lemma served_name: "served X n s \<Longrightarrow> bt_get s (namespace_key n) \<noteq> None"
  by (auto simp: served_def good_def live_inv_def namespace_at_def)

lemma clean_name: "clean n s \<Longrightarrow> bt_get s (namespace_key n) = None"
  by (simp add: clean_def)

lemma served_not_clean: "served X n s \<Longrightarrow> \<not> clean n s"
  using served_name clean_name by blast

text \<open>All of it is decided by the namespace's own keys.\<close>

lemma named_agree: "agree_on n s t \<Longrightarrow> named X n s \<Longrightarrow> named X n t"
  by (simp add: named_def agree_on_get agree_on_at)

lemma served_agree: "agree_on n s t \<Longrightarrow> bt_ok s \<Longrightarrow> bt_ok t \<Longrightarrow> served X n s \<Longrightarrow> served X n t"
  using good_agree index_ok_agree unfolding served_def by blast

lemma marked_agree: "agree_on n s t \<Longrightarrow> marked n t \<longleftrightarrow> marked n s"
  by (simp add: marked_def agree_on_get)

lemma clean_agree: "agree_on n s t \<Longrightarrow> clean n s \<Longrightarrow> clean n t"
  by (auto simp: clean_def agree_on_def)

lemma ns_inv_agree: "agree_on n s t \<Longrightarrow> bt_ok s \<Longrightarrow> bt_ok t \<Longrightarrow> ns_inv X n s \<Longrightarrow> ns_inv X n t"
  using named_agree marked_agree clean_agree served_agree unfolding ns_inv_def by blast

lemma task_inv_agree:
  assumes "task_inv X s (Some (n, j))" "agree_on n s t" "bt_ok s" "bt_ok t"
  shows "task_inv X t (Some (n, j))"
  using assms(1) marked_agree[OF assms(2)] served_agree[OF assms(2-4)] job_inv_agree[OF assms(2)]
  by (auto simp: task_inv_def)

text \<open>
  An operation of namespace \<open>n\<close> that leaves every other namespace alone keeps the
  invariant when it keeps the facts about \<open>n\<close>.
\<close>

lemma engine_inv_local:
  assumes inv: "engine_inv X \<sigma>" and ok: "store_ok s'"
    and others: "\<And>m. valid_id m \<Longrightarrow> m \<noteq> n \<Longrightarrow> agree_on m (kv (sys_db \<sigma>)) s'"
    and own: "valid_id n \<Longrightarrow> ns_inv X n s'"
    and "kv d' = s'"
    and task: "\<And>j. task \<sigma> = Some (n, j) \<Longrightarrow> t = task \<sigma> \<Longrightarrow> task_inv X s' (Some (n, j))"
    and task': "t \<noteq> task \<sigma> \<Longrightarrow> task_inv X s' t"
  shows "engine_inv X (\<sigma>\<lparr>sys_db := d', task := t\<rparr>)"
proof -
  let ?s = "kv (sys_db \<sigma>)"
  from inv ok have b: "bt_ok ?s" "bt_ok s'" by (simp_all add: engine_inv_def store_ok_def)
  have "ns_inv X m s'" if m: "valid_id m" for m
  proof (cases "m = n")
    case False
    with others[OF m] b have "ns_inv X m ?s \<Longrightarrow> ns_inv X m s'" by (blast intro: ns_inv_agree)
    with inv m show ?thesis by (simp add: engine_inv_def)
  qed (use own m in simp)
  moreover have "task_inv X s' t"
  proof (cases "t = task \<sigma>")
    case True
    then have t: "task_inv X ?s t" using inv by (simp add: engine_inv_def)
    show ?thesis
    proof (cases t)
      case None
      then show ?thesis by (simp add: task_inv_def)
    next
      case (Some p)
      obtain m j where p: "p = (m, j)" by force
      with t Some have m: "valid_id m" by (simp add: task_inv_def)
      show ?thesis
      proof (cases "m = n")
        case True
        with task[of j] \<open>t = task \<sigma>\<close> Some p show ?thesis by simp
      next
        case False
        with others[OF m] b t Some p show ?thesis by (auto intro: task_inv_agree)
      qed
    qed
  qed (rule task')
  ultimately show ?thesis using ok assms(5) by (simp add: engine_inv_def)
qed

subsection \<open>Each operation keeps the invariant\<close>

lemma store_ok_batch:
  assumes "store_ok s" "\<forall>x \<in> set b. op_key x \<noteq> FORMAT_KEY \<and> \<not> prefix ''z/'' (op_key x)"
  shows "store_ok (apply_batch b s)"
proof -
  have ok: "bt_ok s" using assms(1) by (simp add: store_ok_def)
  have get: "bt_get (apply_batch b s) k = bt_get s k" if "k = FORMAT_KEY \<or> prefix ''z/'' k" for k
    using that assms(2) by (intro get_apply_batch_other[OF ok]) auto
  have "scan_prefix ''z/'' (apply_batch b s) = scan_prefix ''z/'' s"
    using get ok by (intro scan_prefix_cong) auto
  with assms(1) get show ?thesis by (simp add: store_ok_def markers_ok_def)
qed

lemma not_marker: "\<not> prefix ''z/'' (document_key n i)" "\<not> prefix ''z/'' (vector_key n i)"
  "\<not> prefix ''z/'' (change_key n i)" "\<not> prefix ''z/'' (stats_key n)" "\<not> prefix ''z/'' (namespace_key n)"
  by (simp_all add: key_defs)

lemma write_keys:
  assumes "prepare_write X lim n req s = Inr (st', b)" "x \<in> set b"
  shows "(\<exists>i. op_key x \<in> item_keys n i) \<or> op_key x = stats_key n"
proof -
  from assms(1) have "b = write_ops X n (revision st') req @ [Put (stats_key n) (enc_stats X st')]"
    by (rule prepare_write_Inr)
  with assms(2) write_ops_keys[of x X n "revision st'" req] show ?thesis by auto
qed

lemma write_store_ok:
  assumes "store_ok s" "prepare_write X lim n req s = Inr (st', b)"
  shows "store_ok (apply_batch b s)"
proof (rule store_ok_batch[OF assms(1)], rule ballI)
  fix x
  assume "x \<in> set b"
  from write_keys[OF assms(2) this] show "op_key x \<noteq> FORMAT_KEY \<and> \<not> prefix ''z/'' (op_key x)"
    by (auto simp: item_keys_def not_marker)
qed

lemma write_single_keys:
  assumes "bt_ok s" "request_ok n req" "prepare_write X lim n req s = Inr (st', b)"
  shows "bt_get (apply_batch b s) (namespace_key n) = bt_get s (namespace_key n)"
    "bt_get (apply_batch b s) (deletion_key n) = bt_get s (deletion_key n)"
  by (rule write_get_other[OF assms]; simp add: item_keys_def)+

lemma served_write:
  assumes "served X n s" "bt_ok s" "request_ok n req" "json_codec X"
    and "prepare_write X lim n req s = Inr (st', b)" "list_all (stored_exactly X) (upsert req)"
  shows "served X n (apply_batch b s)"
  using good_write[OF _ assms(2-5)] index_ok_write[OF _ assms(2-5)] assms(1,6)
  by (simp add: served_def list_all_iff)

lemma inv_same_store:
  assumes "engine_inv X \<sigma>" "kv d' = kv (sys_db \<sigma>)" "t = task \<sigma> \<or> task_inv X (kv (sys_db \<sigma>)) t"
  shows "engine_inv X (\<sigma>\<lparr>sys_db := d', task := t\<rparr>)"
  using assms by (auto simp: engine_inv_def)

lemma write_step_inv:
  assumes inv: "engine_inv X \<sigma>" and json: "json_codec X"
    and w: "engine_write X lim n req (inject fs \<sigma>) = (r, d')"
    and exact: "list_all (stored_exactly X) (upsert req)"
  shows "engine_inv X (\<sigma>\<lparr>sys_db := d', task := task \<sigma>\<rparr>)"
  using engine_write_kv[OF w] unfolding inject_simps
proof (elim disjE exE conjE)
  assume "kv d' = kv (sys_db \<sigma>)"
  with inv show ?thesis by (rule inv_same_store) simp
next
  fix st' b
  let ?s = "kv (sys_db \<sigma>)"
  assume b: "request_ok n req" "prepare_write X lim n req ?s = Inr (st', b)" "kv d' = apply_batch b ?s"
  have n: "valid_id n" using b(1) by (simp add: request_ok_def)
  have ok: "store_ok ?s" "bt_ok ?s" using inv by (simp_all add: engine_inv_def store_ok_def)
  note single = write_single_keys[OF ok(2) b(1,2)]
  have name: "bt_get ?s (namespace_key n) \<noteq> None"
    using b(2) by (elim prepare_write_Inr) (auto simp: namespace_at_def)
  with inv n have nsi: "named X n ?s" "marked n ?s \<or> served X n ?s"
    using clean_name by (auto simp: engine_inv_def ns_inv_def)
  have mk: "marked n (apply_batch b ?s) \<longleftrightarrow> marked n ?s" by (simp add: marked_def single)
  have sv: "served X n ?s \<Longrightarrow> served X n (apply_batch b ?s)"
    using served_write[OF _ ok(2) b(1) json b(2) exact] .
  show ?thesis
  proof (rule engine_inv_local[OF inv write_store_ok[OF ok(1) b(2)] _ _ b(3)])
    show "agree_on m ?s (apply_batch b ?s)" if "valid_id m" "m \<noteq> n" for m
      using engine_write_agree[OF w _ that] ok(2) b(3) by simp
    show "ns_inv X n (apply_batch b ?s)"
      using nsi mk sv by (auto simp: ns_inv_def named_def namespace_at_def single)
    fix j
    assume "task \<sigma> = Some (n, j)"
    with inv have "task_inv X ?s (Some (n, j))" by (simp add: engine_inv_def)
    with sv mk job_inv_write[OF _ ok(2) b(1) json b(2), of j] show "task_inv X (apply_batch b ?s) (Some (n, j))"
      by (auto simp: task_inv_def)
  qed simp
qed

lemma bare_served:
  assumes "bare n s" "bt_ok s" "namespace_at X s n = Inr ns" "ns_name ns = n" "valid_config (ns_conf ns)"
  shows "served X n s"
  using bare_live[OF assms] bare_scans(1)[OF assms(1,2)] bare_gets(2,3,5)[OF assms(1)]
  by (simp add: served_def good_def docs_fine_def index_ok_def change_ids_ok_def vectors_fit_def vector_at_def)

lemma create_step_inv:
  assumes inv: "engine_inv X \<sigma>" and json: "json_codec X"
    and c: "create_namespace X n c (inject fs \<sigma>) = (r, d')"
  shows "engine_inv X (\<sigma>\<lparr>sys_db := d', task := task \<sigma>\<rparr>)"
  using create_outcome[OF c] unfolding inject_simps
proof (elim disjE conjE)
  assume "kv d' = kv (sys_db \<sigma>)"
  with inv show ?thesis by (rule inv_same_store) simp
next
  let ?s = "kv (sys_db \<sigma>)" and ?b = "[Put (namespace_key n) (enc_ns X \<lparr>ns_name = n, ns_conf = c\<rparr>)]"
  assume n: "valid_id n" "valid_config c" "bt_get ?s (namespace_key n) = None" "kv d' = apply_batch ?b ?s"
  have ok: "store_ok ?s" "bt_ok ?s" using inv by (simp_all add: engine_inv_def store_ok_def)
  have ns: "namespace_at X (apply_batch ?b ?s) n = Inr \<lparr>ns_name = n, ns_conf = c\<rparr>"
    using n json ok(2) by (simp add: namespace_at_def)
  have mk: "marked n (apply_batch ?b ?s) \<longleftrightarrow> marked n ?s" using ok(2) by (simp add: marked_def)
  have nosv: "\<not> served X n ?s" using served_name n(3) by blast
  have ok': "store_ok (apply_batch ?b ?s)"
    using ok(1) by (rule store_ok_batch) (simp add: not_marker)
  show ?thesis
  proof (rule engine_inv_local[OF inv ok' _ _ n(4)])
    show "agree_on m ?s (apply_batch ?b ?s)" if "valid_id m" "m \<noteq> n" for m
      by (rule agree_on_batch[OF ok(2) n(1)]) (use that in auto)
    have "served X n (apply_batch ?b ?s)" if "\<not> marked n ?s"
    proof -
      from inv n(1) that nosv have cl: "clean n ?s" by (auto simp: engine_inv_def ns_inv_def)
      then have "bare n (apply_batch ?b ?s)" using ok(2) by (auto simp: clean_def bare_def)
      from bare_served[OF this _ ns] ok(2) n(2) show ?thesis by simp
    qed
    with mk ns n(2) show "ns_inv X n (apply_batch ?b ?s)"
      by (auto simp: ns_inv_def named_def simp del: apply_batch_simps)
    fix j
    assume "task \<sigma> = Some (n, j)"
    with inv nosv mk show "task_inv X (apply_batch ?b ?s) (Some (n, j))"
      by (auto simp: engine_inv_def task_inv_def simp del: apply_batch_simps)
  qed simp
qed

lemma owned_erased_format:
  "erased (owned_by n) s t \<Longrightarrow> bt_ok s \<Longrightarrow> bt_get t FORMAT_KEY = bt_get s FORMAT_KEY"
  by (drule (1) erased_get[of _ _ _ FORMAT_KEY]) simp

lemma delete_step_inv:
  assumes inv: "engine_inv X \<sigma>" and idle: "task \<sigma> = None"
    and del: "delete_namespace n (inject fs \<sigma>) = (r, d')"
  shows "engine_inv X (\<sigma>\<lparr>sys_db := d', task := task \<sigma>\<rparr>)"
proof -
  let ?s = "kv (sys_db \<sigma>)"
  have ok: "store_ok ?s" "bt_ok ?s" "markers_ok ?s" using inv by (simp_all add: engine_inv_def store_ok_def)
  note out = delete_outcome[OF del, unfolded inject_simps, OF ok(2)]
  note mok = delete_markers_ok[OF del, unfolded inject_simps, OF ok(2,3)]
  let ?t = "apply_batch (intent n) ?s"
  show ?thesis
  proof (cases "kv d' = ?s")
    case True
    with inv show ?thesis by (rule inv_same_store) simp
  next
    case False
    with out have gone: "erased (\<lambda>k. owned_by n k \<and> k \<noteq> namespace_key n) ?t (kv d')"
      "bt_get (kv d') (namespace_key n) = None"
      "bt_get (kv d') (deletion_key n) = Some ''delete'' \<or> clean n (kv d')"
      by simp_all
    have "erased (owned_by n) ?t (kv d')" using gone(1) by (rule erased_mono) simp
    then have "bt_get (kv d') FORMAT_KEY = bt_get ?t FORMAT_KEY"
      using ok(2) by (intro owned_erased_format) simp_all
    with ok mok have ok': "store_ok (kv d')" by (simp add: store_ok_def intent_def)
    show ?thesis
    proof (rule engine_inv_local[OF inv ok' _ _ refl])
      show "agree_on m ?s (kv d')" if "valid_id m" "m \<noteq> n" for m
        using delete_agree[OF del _ that] ok(2) by simp
      show "ns_inv X n (kv d')" using gone(2,3) by (auto simp: ns_inv_def named_def marked_def)
    qed (simp_all add: idle)
  qed
qed

lemma job_keys_agree:
  assumes "bt_ok s" "valid_id n" "\<forall>x \<in> set b. job_key n (op_key x)" "valid_id m" "m \<noteq> n"
  shows "agree_on m s (apply_batch b s)"
  using assms job_key_owned by (intro agree_on_batch) blast+

lemma job_keys_gets:
  assumes "bt_ok s" "\<forall>x \<in> set b. job_key n (op_key x)"
  shows "bt_get (apply_batch b s) (document_key n i) = bt_get s (document_key n i)"
    "bt_get (apply_batch b s) (vector_key n i) = bt_get s (vector_key n i)"
    "bt_get (apply_batch b s) (namespace_key n) = bt_get s (namespace_key n)"
    "bt_get (apply_batch b s) (deletion_key n) = bt_get s (deletion_key n)"
  using assms job_key_other by (auto intro!: get_apply_batch_other; metis)+

lemma job_keys_store_ok:
  assumes "store_ok s" "\<forall>x \<in> set b. job_key n (op_key x)"
  shows "store_ok (apply_batch b s)"
proof (rule store_ok_batch[OF assms(1)], rule ballI)
  fix x
  assume "x \<in> set b"
  with assms(2) have "job_key n (op_key x)" by simp
  then show "op_key x \<noteq> FORMAT_KEY \<and> \<not> prefix ''z/'' (op_key x)"
    by (auto simp: job_key_def key_defs prefix_def)
qed

lemma task_step_inv:
  assumes inv: "engine_inv X \<sigma>" and json: "json_codec X" and t: "task \<sigma> = Some (n, j)"
    and st: "job_step X n j (inject fs \<sigma>) = (r, d')"
  shows "engine_inv X (\<sigma>\<lparr>sys_db := d', task := next_task n r\<rparr>)"
proof -
  let ?s = "kv (sys_db \<sigma>)"
  have ok: "store_ok ?s" "bt_ok ?s" using inv by (simp_all add: engine_inv_def store_ok_def)
  have ti: "valid_id n" "job_shape n j" "marked n ?s \<or> served X n ?s \<and> job_inv X n ?s j"
    using inv t by (auto simp: engine_inv_def task_inv_def)
  from job_step_plan[OF st, unfolded inject_simps]
  consider (same) e where "kv d' = ?s" "r = Inl e"
    | (plan) b nxt where "job_plan X n j ?s = Inr (b, nxt)" "kv d' = apply_batch b ?s" "r = Inr nxt \<or> (\<exists>e. r = Inl e)"
    by blast
  then show ?thesis
  proof cases
    case same
    with inv show ?thesis by (intro inv_same_store) (simp_all add: next_task_def task_inv_def)
  next
    case plan
    let ?s' = "apply_batch b ?s"
    have shape: "\<forall>x \<in> set b. job_key n (op_key x)" "nxt = Some j' \<Longrightarrow> job_shape n j'" for j'
      using job_plan_shape[OF plan(1) ti(2) ok(2)] by blast+
    note gets = job_keys_gets[OF ok(2) shape(1)]
    have keep: "served X n ?s' \<and> (nxt = Some j' \<longrightarrow> job_inv X n ?s' j')" if "\<not> marked n ?s" for j'
      using ti that job_plan_inv[OF plan(1) _ ok(2) ti(1) json] by (auto simp: served_def)
    have mk: "marked n ?s' \<longleftrightarrow> marked n ?s" by (simp add: marked_def gets)
    have next_inv: "task_inv X ?s' (next_task n r)"
      using plan(3) shape(2) keep mk ti(1)
      by (cases nxt) (auto simp: next_task_def task_inv_def)
    show ?thesis
    proof (rule engine_inv_local[OF inv job_keys_store_ok[OF ok(1) shape(1)] _ _ plan(2)])
      show "agree_on m ?s ?s'" if "valid_id m" "m \<noteq> n" for m
        using job_keys_agree[OF ok(2) ti(1) shape(1) that] .
      have "named X n ?s" using inv ti(1) by (simp add: engine_inv_def ns_inv_def)
      then show "ns_inv X n ?s'"
        using keep mk by (auto simp: ns_inv_def named_def namespace_at_def gets)
    qed (use next_inv t in auto)
  qed
qed

lemma resumed_store_ok:
  assumes "resume_all_deletions d = (r, d')" "store_ok (kv d)"
  shows "store_ok (kv d')"
proof -
  let ?P = "\<lambda>k. \<exists>n. valid_id n \<and> owned_by n k \<and> k \<noteq> namespace_key n"
  have ok: "bt_ok (kv d)" "markers_ok (kv d)" using assms(2) by (simp_all add: store_ok_def)
  have any: "valid_id ''n''" by (simp add: valid_id_def id_char_def)
  have ok': "bt_ok (kv d')" and er: "erased ?P (kv d) (kv d')"
    using resume_all_outcome(1,3)[OF assms(1) ok any] by blast+
  have "bt_get (kv d') FORMAT_KEY = bt_get (kv d) FORMAT_KEY"
    using erased_get[OF er ok(1), of FORMAT_KEY] by auto
  moreover have "bt_get (kv d) k \<noteq> None" if "bt_get (kv d') k \<noteq> None" for k
    using erased_get[OF er ok(1), of k] that by auto
  then have "markers_ok (kv d')"
    using ok(2) unfolding markers_ok_iff[OF ok(1)] markers_ok_iff[OF ok'] by blast
  ultimately show ?thesis using assms(2) ok' by (simp add: store_ok_def)
qed

lemma resumed_ns_inv:
  assumes "resume_all_deletions d = (r, d')" "store_ok (kv d)" "valid_id m" "ns_inv X m (kv d)"
  shows "ns_inv X m (kv d')"
proof -
  have ok: "bt_ok (kv d)" "markers_ok (kv d)" using assms(2) by (simp_all add: store_ok_def)
  note out = resume_all_outcome[OF assms(1) ok assms(3)]
  show ?thesis
  proof (cases "marked m (kv d)")
    case False
    then have "agree_on m (kv d) (kv d')" using out(2) by (simp add: marked_def)
    with ok(1) out(1) assms(4) show ?thesis by (blast intro: ns_inv_agree)
  next
    case True
    have name: "bt_get (kv d') (namespace_key m) = bt_get (kv d) (namespace_key m)"
      using namespace_not_erased[OF out(3) ok(1) assms(3)] .
    have nm: "named X m (kv d')"
      using assms(4) by (simp add: ns_inv_def named_def namespace_at_def name)
    from out(5) show ?thesis
    proof
      assume "bt_get (kv d') (deletion_key m) = bt_get (kv d) (deletion_key m)"
      with True nm show ?thesis by (simp add: ns_inv_def marked_def)
    next
      assume bare: "bare m (kv d')"
      show ?thesis
      proof (cases "bt_get (kv d') (namespace_key m)")
        case None
        with bare nm show ?thesis by (simp add: ns_inv_def clean_bare)
      next
        case (Some v)
        with nm obtain ns where "namespace_at X (kv d') m = Inr ns" "ns_name ns = m" "valid_config (ns_conf ns)"
          by (auto simp: named_def)
        from bare_served[OF bare out(1) this] nm show ?thesis by (simp add: ns_inv_def)
      qed
    qed
  qed
qed

lemma reopen_step_inv:
  assumes inv: "engine_inv X \<sigma>" and open_db: "reopen fs (sys_db \<sigma>) = (r, d')"
  shows "engine_inv X (\<sigma>\<lparr>sys_db := d'\<lparr>closed := c\<rparr>, task := None\<rparr>)"
proof -
  let ?d = "(sys_db \<sigma>)\<lparr>closed := False, faults := fs\<rparr>"
  have run: "resume_all_deletions ?d = (r, d')" using open_db by (simp add: reopen_def)
  have "store_ok (kv ?d)" using inv by (simp add: engine_inv_def)
  with resumed_store_ok[OF run] resumed_ns_inv[OF run] inv show ?thesis
    by (simp add: engine_inv_def task_inv_def)
qed

lemma begin_build_state: "begin_build X gen conf n d = (r, d') \<Longrightarrow> d' = d"
  by (auto simp: begin_build_def act_bind_def snapshot_def split: sum.splits prod.splits)

lemma build_step_inv:
  assumes inv: "engine_inv X \<sigma>" and idle: "task \<sigma> = None" and n: "valid_id n" and conf: "1 \<le> clusters conf"
    and fresh: "fresh_generation X n gen (kv (sys_db \<sigma>))" and exact: "index_exact X gen conf n (kv (sys_db \<sigma>))"
    and start: "begin_build X gen conf n (inject fs \<sigma>) = (Inr j, d')"
  shows "engine_inv X (\<sigma>\<lparr>sys_db := d', task := Some (n, j)\<rparr>)"
proof (rule inv_same_store[OF inv])
  let ?s = "kv (sys_db \<sigma>)"
  show "kv d' = ?s" using begin_build_state[OF start] by simp
  have ok: "bt_ok ?s" using inv by (simp add: engine_inv_def store_ok_def)
  from start obtain status entries where plan: "plan_build X gen conf n ?s = Inr (status, entries)"
    by (rule begin_build_Inr) simp
  then have name: "bt_get ?s (namespace_key n) \<noteq> None"
    by (elim plan_build_Inr) (auto simp: namespace_at_def)
  with inv n have "marked n ?s \<or> served X n ?s"
    using clean_name by (auto simp: engine_inv_def ns_inv_def)
  moreover have "dec_index X (enc_index X st) = Some st" if "plan_build X gen conf n ?s = Inr (st, es)" for st es
    using exact that by (simp add: index_exact_def)
  note begin_build_inv[OF start, unfolded inject_simps, OF fresh this conf ok]
  ultimately show "Some (n, j) = task \<sigma> \<or> task_inv X ?s (Some (n, j))"
    using n by (auto simp: task_inv_def served_def)
qed

lemma cleanup_step_inv:
  assumes inv: "engine_inv X \<sigma>" and n: "valid_id n"
    and start: "begin_cleanup X n (inject fs \<sigma>) = (r, d')"
  shows "engine_inv X (\<sigma>\<lparr>sys_db := d', task := next_task n r\<rparr>)"
proof (rule inv_same_store[OF inv])
  let ?s = "kv (sys_db \<sigma>)"
  note b = begin_cleanup_inv[OF start, unfolded inject_simps]
  show "kv d' = ?s" using b(1) by simp
  have "task_inv X ?s (next_task n r)"
  proof (cases "\<exists>j. r = Inr (Some j)")
    case True
    then obtain j where r: "r = Inr (Some j)" by blast
    have "bt_get ?s (staging_key n) \<noteq> None" using b(3)[OF r] .
    moreover have "bt_get ?s (staging_key n) = None" if "clean n ?s"
      using that by (simp add: clean_def)
    ultimately have "\<not> clean n ?s" by metis
    with inv n have "marked n ?s \<or> served X n ?s" by (auto simp: engine_inv_def ns_inv_def)
    with b(2)[OF r] n r show ?thesis by (auto simp: next_task_def task_inv_def)
  next
    case False
    then show ?thesis by (auto simp: next_task_def task_inv_def split: sum.splits option.splits)
  qed
  then show "next_task n r = task \<sigma> \<or> task_inv X ?s (next_task n r)" ..
qed

lemma same_task: "\<sigma>\<lparr>sys_db := d, task := task \<sigma>\<rparr> = \<sigma>\<lparr>sys_db := d\<rparr>"
  by simp

lemma step_inv:
  assumes "step X lim \<sigma> \<sigma>'" "json_codec X" "engine_inv X \<sigma>"
  shows "engine_inv X \<sigma>'"
  using assms(1)
proof cases
  case (write_step n req fs r d')
  with write_step_inv[OF assms(3,2)] show ?thesis by (simp only: same_task)
next
  case (create_step n c fs r d')
  with create_step_inv[OF assms(3,2)] show ?thesis by (simp only: same_task)
next
  case (delete_step n fs r d')
  have "engine_inv X (\<sigma>\<lparr>sys_db := d', task := task \<sigma>\<rparr>)"
    using assms(3) delete_step(2,3) by (rule delete_step_inv)
  with delete_step(1) show ?thesis by (simp only: same_task)
next
  case (build_step n gen conf fs j d')
  with build_step_inv[OF assms(3)] show ?thesis by blast
next
  case (cleanup_step n fs r d')
  with cleanup_step_inv[OF assms(3)] show ?thesis by blast
next
  case (task_step n j fs r d')
  with task_step_inv[OF assms(3,2)] show ?thesis by blast
next
  case (reopen_step fs r d')
  with reopen_step_inv[OF assms(3)] show ?thesis by blast
qed

lemma fresh_inv:
  assumes "fresh_sys \<sigma>"
  shows "engine_inv X \<sigma>"
proof -
  let ?s = "[(FORMAT_KEY, FORMAT)]"
  have "store_ok ?s" by (simp add: store_ok_def markers_ok_def scan_prefix_def FORMAT_KEY_def)
  moreover have "clean n ?s" for n by (auto simp: clean_def)
  moreover have "named X n ?s" for n by (simp add: named_def)
  ultimately show ?thesis using assms by (simp add: fresh_sys_def engine_inv_def ns_inv_def task_inv_def)
qed

lemma reachable_inv:
  assumes "reachable X lim \<sigma>" "json_codec X"
  shows "engine_inv X \<sigma>"
  using assms(1)
proof (induction rule: reachable.induct)
  case (reach_fresh \<sigma>)
  then show ?case by (rule fresh_inv)
next
  case (reach_step \<sigma> \<sigma>')
  then show ?case using step_inv assms(2) by blast
qed

subsection \<open>What holds in every reachable state\<close>

lemma reachable_served:
  assumes "reachable X lim \<sigma>" "json_codec X" "valid_id n" "bt_get (kv (sys_db \<sigma>)) (deletion_key n) = None"
  shows "clean n (kv (sys_db \<sigma>)) \<or> served X n (kv (sys_db \<sigma>))"
  using reachable_inv[OF assms(1,2)] assms(3,4) by (auto simp: engine_inv_def ns_inv_def marked_def)

text \<open>C8: In every reachable state, under any interleaving of writes, creates and deletes with the
  steps of rebuilds and cleanups, any storage failures and any crashes, a namespace without a
  deletion marker either has no key at all or is consistent: its counters are the sums over
  its tables, every stored row decodes, and its change records are not newer than its revision.\<close>
theorem reachable_namespaces:
  assumes "reachable X lim \<sigma>" and "json_codec X" and "valid_id n"
    and "bt_get (kv (sys_db \<sigma>)) (deletion_key n) = None"
  shows "clean n (kv (sys_db \<sigma>)) \<or> (live_inv X n (kv (sys_db \<sigma>)) \<and> docs_fine X n (kv (sys_db \<sigma>)))"
  using reachable_served[OF assms] by (auto simp: served_def good_def)

lemma served_index:
  assumes "served X n s" "index_at X s n = Inr (Some status)"
  obtains entries snap where "answers_for X n status entries snap s" "staged n status (puts entries) s"
proof -
  from assms(2) obtain v where v: "bt_get s (index_key n) = Some v" "dec_index X v = Some status"
    by (auto simp: index_at_def split: option.splits)
  with assms(1) obtain st entries snap where st: "v = enc_index X st" "answers_for X n st entries snap s"
    "staged n st (puts entries) s"
    by (auto simp: served_def index_ok_def)
  have "built X n st entries snap" using st(2) by (simp add: answers_for_def)
  from built_exact(1)[OF this] st v(2) have "st = status" by simp
  with st that show thesis by blast
qed

text \<open>C6: A published index is never stale without notice: in every reachable state it is exactly the
  output of \<open>build\<close> on some earlier consistent store (all its entries present, nothing else under
  the root of its generation), and every document that differs from that store has a change
  record newer than the index, so the overlay of a query sees it.\<close>
theorem published_index_is_overlaid:
  assumes "reachable X lim \<sigma>" and "json_codec X" and "valid_id n"
    and "bt_get (kv (sys_db \<sigma>)) (deletion_key n) = None"
    and "index_at X (kv (sys_db \<sigma>)) n = Inr (Some status)"
  shows "\<exists>snap conf entries. live_inv X n snap \<and> docs_fine X n snap
    \<and> plan_build X (generation status) conf n snap = Inr (status, entries)
    \<and> (\<forall>k. prefix (gen_root n (generation status)) k \<longrightarrow>
         bt_get (kv (sys_db \<sigma>)) k = bt_get (apply_batch (puts entries) []) k)
    \<and> (\<forall>i. document_at X (kv (sys_db \<sigma>)) n i \<noteq> document_at X snap n i \<longrightarrow>
         (\<exists>v q. bt_get (kv (sys_db \<sigma>)) (change_key n i) = Some v \<and> parse_revision v = Inr q
            \<and> idx_revision status < q))"
proof -
  let ?s = "kv (sys_db \<sigma>)"
  have "\<not> clean n ?s"
  proof
    assume "clean n ?s"
    then have "bt_get ?s (index_key n) = None" by (simp add: clean_def)
    with assms(5) show False by (simp add: index_at_def)
  qed
  with reachable_served[OF assms(1-4)] have "served X n ?s" by blast
  then obtain entries snap where a: "answers_for X n status entries snap ?s" "staged n status (puts entries) ?s"
    using assms(5) by (rule served_index)
  have cov: "covers n snap (idx_revision status) ?s" using a(1) by (simp add: answers_for_def)
  from a(1) obtain conf where "live_inv X n snap" "docs_fine X n snap"
    "plan_build X (generation status) conf n snap = Inr (status, entries)"
    by (auto simp: answers_for_def built_def good_def)
  moreover have "\<forall>k. prefix (gen_root n (generation status)) k \<longrightarrow> bt_get ?s k = bt_get (apply_batch (puts entries) []) k"
    using a(2) by (simp add: staged_def)
  moreover have "\<exists>v q. bt_get ?s (change_key n i) = Some v \<and> parse_revision v = Inr q \<and> idx_revision status < q"
    if "document_at X ?s n i \<noteq> document_at X snap n i" for i
    using cov document_at_cong[of ?s n i snap X] that unfolding covers_def by metis
  ultimately show ?thesis by blast
qed

text \<open>C9: Background work is invisible to readers: no step of a rebuild or a cleanup, successful, failed
  or crashed, changes any document of any namespace, or which namespaces exist.\<close>
theorem background_steps_invisible:
  assumes "reachable X lim \<sigma>" and "json_codec X" and "task \<sigma> = Some (n, j)"
    and "job_step X n j (inject fs \<sigma>) = (r, d')" and "valid_id m"
  shows "document_at X (kv d') m i = document_at X (kv (sys_db \<sigma>)) m i
    \<and> namespace_at X (kv d') m = namespace_at X (kv (sys_db \<sigma>)) m"
proof -
  let ?s = "kv (sys_db \<sigma>)"
  have inv: "bt_ok ?s" "valid_id n" "job_shape n j"
    using reachable_inv[OF assms(1,2)] assms(3) by (simp_all add: engine_inv_def store_ok_def task_inv_def)
  obtain b where b: "\<forall>x \<in> set b. job_key n (op_key x)" "kv d' = ?s \<or> kv d' = apply_batch b ?s"
    using job_step_plan[OF assms(4)] job_plan_shape[OF _ inv(3,1)] by (metis inject_simps(1) empty_iff list.set(1))
  show ?thesis
  proof (cases "m = n")
    case True
    with b job_keys_gets[OF inv(1) b(1)] show ?thesis
      by (auto simp: namespace_at_def intro!: document_at_cong)
  next
    case False
    with job_keys_agree[OF inv(1,2) b(1) assms(5)] have "agree_on m ?s (kv d')"
      using b(2) by (auto simp: agree_on_def)
    with agree_on_at[of m ?s "kv d'" X] show ?thesis by simp
  qed
qed

lemma create_agree:
  assumes "create_namespace X n c d = (r, d')" "bt_ok (kv d)" "valid_id m" "m \<noteq> n"
  shows "agree_on m (kv d) (kv d')"
  using create_outcome[OF assms(1)]
proof
  let ?b = "[Put (namespace_key n) (enc_ns X \<lparr>ns_name = n, ns_conf = c\<rparr>)]"
  assume c: "valid_id n \<and> valid_config c \<and> bt_get (kv d) (namespace_key n) = None \<and> kv d' = apply_batch ?b (kv d)"
  have "agree_on m (kv d) (apply_batch ?b (kv d))"
    by (intro agree_on_batch[OF assms(2), of n]) (use assms(3,4) c in auto)
  with c show ?thesis by simp
qed (simp add: agree_on_def)

text \<open>C10: Namespaces are isolated: an operation on one namespace, whatever its outcome, leaves every key
  of every other namespace as it was, so each of their readers answers as before.\<close>
theorem namespaces_isolated:
  assumes "bt_ok (kv d)" and "valid_id m" and "m \<noteq> n"
  shows "agree_on m (kv d) (kv (snd (engine_write X lim n req d)))
    \<and> agree_on m (kv d) (kv (snd (create_namespace X n c d)))
    \<and> agree_on m (kv d) (kv (snd (delete_namespace n d)))"
proof (intro conjI)
  show "agree_on m (kv d) (kv (snd (engine_write X lim n req d)))"
    by (rule engine_write_agree[OF surjective_pairing assms])
  show "agree_on m (kv d) (kv (snd (delete_namespace n d)))"
    by (rule delete_agree[OF surjective_pairing assms])
  show "agree_on m (kv d) (kv (snd (create_namespace X n c d)))"
    by (rule create_agree[OF surjective_pairing assms])
qed

subsection \<open>The pending counter during a cleanup\<close>


subsection \<open>What a whole rebuild or cleanup can change\<close>

text \<open>A relation that every batch of a job's keys keeps holds across the whole procedure.\<close>

definition job_rel :: "string \<Rightarrow> (store \<Rightarrow> store \<Rightarrow> bool) \<Rightarrow> bool" where
  "job_rel n R \<longleftrightarrow> reflp R \<and> transp R \<and> (\<forall>s b. bt_ok s \<longrightarrow> (\<forall>x \<in> set b. job_key n (op_key x)) \<longrightarrow> R s (apply_batch b s))"

lemma run_job_rel:
  assumes "job_rel n R" "job_shape n j" "bt_ok (kv d)"
  shows "R (kv d) (kv (snd (run_job X n fuel j d)))"
  using assms(2,3)
proof (induction fuel arbitrary: j d)
  case 0
  with assms(1) show ?case by (simp add: job_rel_def reflpD)
next
  case (Suc fuel)
  obtain r d1 where step: "job_step X n j d = (r, d1)" by force
  have one: "bt_ok (kv d1) \<and> R (kv d) (kv d1) \<and> (\<forall>j'. r = Inr (Some j') \<longrightarrow> job_shape n j')"
  proof (cases "kv d1 = kv d \<and> (\<exists>e. r = Inl e)")
    case False
    with job_step_plan[OF step] obtain b nxt where b: "job_plan X n j (kv d) = Inr (b, nxt)"
      "kv d1 = apply_batch b (kv d)" "r = Inr nxt \<or> (\<exists>e. r = Inl e)" by blast
    from job_plan_shape[OF b(1) Suc.prems] b Suc.prems(2) assms(1) show ?thesis by (auto simp: job_rel_def)
  qed (use Suc.prems assms(1) in \<open>auto simp: job_rel_def reflpD\<close>)
  show ?case
  proof (cases "\<exists>j'. r = Inr (Some j')")
    case True
    then obtain j' where r: "r = Inr (Some j')" by blast
    with one have "R (kv d1) (kv (snd (run_job X n fuel j' d1)))" by (intro Suc.IH) auto
    with one assms(1) have "R (kv d) (kv (snd (run_job X n fuel j' d1)))" unfolding job_rel_def by (blast dest: transpD)
    then show ?thesis by (simp add: act_bind_def step r)
  next
    case False
    with one step show ?thesis by (cases r) (auto simp: act_bind_def split: option.splits)
  qed
qed

lemma rebuild_rel:
  assumes "job_rel n R" "bt_ok (kv d)"
  shows "R (kv d) (kv (snd (rebuild_index X gen conf n d)))"
proof -
  have same: "R (kv d) (kv d)" using assms(1) by (simp add: job_rel_def reflpD)
  from build_in_steps[of X gen conf n d] obtain F where
    F: "act_bind (begin_build X gen conf n) (run_job X n F) d = act_bind (build_index_inner X gen conf n) (\<lambda>_. act_ret ()) d"
    by blast
  have "snd (build_index_inner X gen conf n d) = snd (act_bind (begin_build X gen conf n) (run_job X n F) d)"
    by (simp add: F) (simp add: act_bind_def split: prod.split sum.split)
  moreover have "R (kv d) (kv (snd (act_bind (begin_build X gen conf n) (run_job X n F) d)))"
  proof (cases "begin_build X gen conf n d")
    case (Pair r d')
    then have "d' = d" by (rule begin_build_state)
    with Pair begin_build_shape[of X gen conf n d _ d] run_job_rel[OF assms(1) _ assms(2)] same show ?thesis
      by (cases r) (simp_all add: act_bind_def)
  qed
  ultimately show ?thesis using same by (cases "validate_id n") (simp_all add: rebuild_index_def act_bind_def)
qed

lemma cleanup_rel:
  assumes "job_rel n R" "bt_ok (kv d)"
  shows "R (kv d) (kv (snd (resume_index_cleanup X n d)))"
proof -
  from cleanup_in_steps[of X n d] obtain F where
    F: "act_bind (begin_cleanup X n) (\<lambda>j. case j of None \<Rightarrow> act_ret () | Some j' \<Rightarrow> run_job X n F j') d = resume_index_cleanup X n d"
    by blast
  obtain r d' where b: "begin_cleanup X n d = (r, d')" by force
  note inv = begin_cleanup_inv[OF b]
  have "R (kv d) (kv d)" using assms(1) by (simp add: job_rel_def reflpD)
  with inv run_job_rel[OF assms(1) _ assms(2), of _ X F] show ?thesis
    unfolding F[symmetric] by (cases r) (auto simp: act_bind_def b split: option.splits)
qed

text \<open>No action closes the database.\<close>

definition keeps_open :: "'a act \<Rightarrow> bool" where
  "keeps_open m \<longleftrightarrow> (\<forall>d. closed (snd (m d)) = closed d)"

lemma keeps_open_bind: "keeps_open m \<Longrightarrow> (\<And>a. keeps_open (f a)) \<Longrightarrow> keeps_open (act_bind m f)"
  unfolding keeps_open_def act_bind_def by (auto split: prod.splits sum.splits) (metis snd_conv)+

lemma keeps_open_simps [simp]:
  "keeps_open (act_ret a)" "keeps_open (act_fail e)" "keeps_open (act_lift r)" "keeps_open (act_read g)"
  "keeps_open snapshot" "keeps_open (commit b)"
  by (auto simp: keeps_open_def snapshot_def commit_def Let_def split: list.splits fault.splits)

lemma keeps_open_for: "(\<And>x. keeps_open (f x)) \<Longrightarrow> keeps_open (act_for f xs)"
  by (induction xs) (auto intro: keeps_open_bind simp del: act_simps)

lemma keeps_open_all: "keeps_open (commit_all bs)"
  by (induction bs) (auto intro: keeps_open_bind simp del: act_simps)

lemma keeps_open_cleanup: "keeps_open (cleanup_inner X n active)"
  unfolding cleanup_inner_def drop_chunk_def case_prod_unfold
  by (intro keeps_open_bind keeps_open_simps keeps_open_all keeps_open_for)

lemma keeps_open_rebuild: "keeps_open (rebuild_index X gen conf n)"
  unfolding rebuild_index_def build_index_inner_def case_prod_unfold
  by (intro keeps_open_bind keeps_open_simps keeps_open_all keeps_open_cleanup)

lemma keeps_open_resume: "keeps_open (resume_index_cleanup X n)"
  unfolding resume_index_cleanup_def
  by (intro keeps_open_bind keeps_open_simps) (auto split: option.split intro!: keeps_open_bind keeps_open_cleanup simp del: act_simps)

end
