(* ===== verification/Scenario.thy ===== *)
theory Scenario
  imports Examples System
begin

section \<open>Reachable states of the sample database\<close>

text \<open>
  From the fresh database: a namespace is created, written, and an index is built for it
  while it is empty. The properties of \<open>System\<close> are applied to these states.
\<close>

definition ex_sys0 :: sys where "ex_sys0 = \<lparr>sys_db = ex_db0, task = None\<rparr>"
definition ex_sys1 :: sys where "ex_sys1 = \<lparr>sys_db = ex_db1, task = None\<rparr>"

lemma ex_inject [simp]: "inject [] ex_sys0 = ex_db0" "inject [] ex_sys1 = ex_db1"
  by (simp_all add: inject_def ex_sys0_def ex_sys1_def ex_db0_def ex_db1_def)

lemma ex_reach0: "reachable sample_ext ex_lim ex_sys0"
  by (rule reach_fresh) (simp add: fresh_sys_def ex_sys0_def ex_db0_def)

lemma ex_reach1: "reachable sample_ext ex_lim ex_sys1"
proof (rule reach_step[OF ex_reach0])
  have "ex_sys1 = ex_sys0\<lparr>sys_db := ex_db1\<rparr>" by (simp add: ex_sys0_def ex_sys1_def)
  then show "step sample_ext ex_lim ex_sys0 ex_sys1"
    using create_step[of sample_ext "''n''" ex_conf "[]" ex_sys0 "Inr ex_ns" ex_db1 ex_lim] ex_create
    by simp
qed

lemma ex_reach_write:
  assumes "engine_write sample_ext ex_lim ''n'' ex_req ex_db1 = (r, d)"
  shows "reachable sample_ext ex_lim \<lparr>sys_db = d, task = None\<rparr>"
proof (rule reach_step[OF ex_reach1])
  have "step sample_ext ex_lim ex_sys1 (ex_sys1\<lparr>sys_db := d\<rparr>)"
    by (rule write_step[of sample_ext ex_lim "''n''" ex_req "[]"]) (use assms in \<open>simp_all add: ex_req_def\<close>)
  then show "step sample_ext ex_lim ex_sys1 \<lparr>sys_db = d, task = None\<rparr>" by (simp add: ex_sys1_def)
qed

lemma ex_write_marker:
  assumes "engine_write sample_ext ex_lim ''n'' ex_req ex_db1 = (r, d)"
  shows "bt_get (kv d) (deletion_key ''n'') = None"
  using engine_write_kv[OF assms]
proof (elim disjE exE conjE)
  fix st' b
  assume "request_ok ''n'' ex_req" "prepare_write sample_ext ex_lim ''n'' ex_req (kv ex_db1) = Inr (st', b)"
    "kv d = apply_batch b (kv ex_db1)"
  with write_single_keys(2)[OF ex_ok(2) this(1,2)] show ?thesis by (simp only: bare_gets(6)[OF ex_bare])
qed (simp add: bare_gets(6)[OF ex_bare])

theorem reachable_namespaces_witness:
  "\<exists>r d. engine_write sample_ext ex_lim ''n'' ex_req ex_db1 = (Inr r, d)
    \<and> (clean ''n'' (kv d) \<or> live_inv sample_ext ''n'' (kv d) \<and> docs_fine sample_ext ''n'' (kv d))"
proof -
  obtain r d where w: "engine_write sample_ext ex_lim ''n'' ex_req ex_db1 = (Inr r, d)" using ex_write by blast
  from reachable_namespaces[OF ex_reach_write[OF w] sample_json_codec, of "''n''"] ex_write_marker[OF w] w
  show ?thesis by auto
qed

subsection \<open>Building an index of the empty namespace\<close>

definition ex_status :: index_status where
  "ex_status = default_index\<lparr>generation := ''g''\<rparr>"
definition ex_sys2 :: sys where
  "ex_sys2 = \<lparr>sys_db = ex_db1, task = Some (''n'', Staging ex_status [mark_staging ''n''])\<rparr>"
definition ex_db3 :: db where
  "ex_db3 = ex_db1\<lparr>kv := apply_batch (mark_staging ''n'') (kv ex_db1), seqno := 2\<rparr>"
definition ex_sys3 :: sys where "ex_sys3 = \<lparr>sys_db = ex_db3, task = Some (''n'', Staging ex_status [])\<rparr>"
definition ex_db4 :: db where
  "ex_db4 = ex_db3\<lparr>kv := apply_batch (publish sample_ext ''n'' ex_status) (kv ex_db3), seqno := 3\<rparr>"
definition ex_sys4 :: sys where "ex_sys4 = \<lparr>sys_db = ex_db4, task = Some (''n'', Cleaning ex_status)\<rparr>"

lemma ex_plan: "plan_build sample_ext ''g'' (index_conf default_config) ''n'' (kv ex_db1) = Inr (ex_status, [])"
  using bare_scans(1)[OF ex_bare ex_ok(2)]
  by (simp add: plan_build_def build_input_def build_def vectors_of_def train_def entry_bytes_def
      ex_status_def default_index_def default_stats_def)

lemma ex_begin: "begin_build sample_ext ''g'' (index_conf default_config) ''n'' ex_db1
    = (Inr (Staging ex_status [mark_staging ''n'']), ex_db1)"
  by (simp add: begin_build_def act_bind_def snapshot_def ex_plan)

lemma ex_fresh_generation: "fresh_generation sample_ext ''n'' ''g'' (kv ex_db1)"
proof -
  have "bt_get (kv ex_db1) k = None" if "prefix (gen_root ''n'' ''g'') k" for k
    using that ex_bare gen_root_owned[OF that] by (auto simp: bare_def key_defs)
  then show ?thesis
    using bare_gets(5)[OF ex_bare] by (simp add: fresh_generation_def gen_ok_def)
qed

lemma sample_index_exact: "index_exact sample_ext gen conf n s"
  by (auto simp: index_exact_def sample_ext_def sample_index_codec split: sum.split)

lemma ex_reach2: "reachable sample_ext ex_lim ex_sys2"
proof (rule reach_step[OF ex_reach1])
  have "step sample_ext ex_lim ex_sys1
      (ex_sys1\<lparr>sys_db := ex_db1, task := Some (''n'', Staging ex_status [mark_staging ''n''])\<rparr>)"
    by (rule build_step[where gen = "''g''" and conf = "index_conf default_config" and fs = "[]"])
      (use ex_begin ex_fresh_generation sample_index_exact in \<open>simp_all add: ex_sys1_def default_config_def\<close>,
       simp_all add: ex_inject(2)[unfolded ex_sys1_def])
  then show "step sample_ext ex_lim ex_sys1 ex_sys2" by (simp add: ex_sys1_def ex_sys2_def)
qed

lemma ex_inject2: "inject [] ex_sys2 = ex_db1" "inject [] ex_sys3 = ex_db3"
  by (simp_all add: inject_def ex_sys2_def ex_sys3_def ex_db3_def ex_db1_def)

lemma ex_commit_mark: "job_step sample_ext ''n'' (Staging ex_status [mark_staging ''n'']) ex_db1
    = (Inr (Some (Staging ex_status [])), ex_db3)"
  by (simp add: act_bind_def ex_db3_def) (simp add: ex_db1_def)

lemma ex_commit_publish: "job_step sample_ext ''n'' (Staging ex_status []) ex_db3
    = (Inr (Some (Cleaning ex_status)), ex_db4)"
  by (simp add: act_bind_def ex_db4_def commit_def Let_def) (simp add: ex_db3_def ex_db1_def)

lemma ex_reach3: "reachable sample_ext ex_lim ex_sys3"
proof (rule reach_step[OF ex_reach2])
  have "step sample_ext ex_lim ex_sys2
      (ex_sys2\<lparr>sys_db := ex_db3, task := next_task ''n'' (Inr (Some (Staging ex_status [])))\<rparr>)"
    by (rule task_step[of _ "''n''" "Staging ex_status [mark_staging ''n'']" _ "[]"])
      (simp add: ex_sys2_def, simp only: ex_inject2 ex_commit_mark)
  then show "step sample_ext ex_lim ex_sys2 ex_sys3" by (simp add: ex_sys2_def ex_sys3_def next_task_def)
qed

lemma ex_reach4: "reachable sample_ext ex_lim ex_sys4"
proof (rule reach_step[OF ex_reach3])
  have "step sample_ext ex_lim ex_sys3
      (ex_sys3\<lparr>sys_db := ex_db4, task := next_task ''n'' (Inr (Some (Cleaning ex_status)))\<rparr>)"
    by (rule task_step[of _ "''n''" "Staging ex_status []" _ "[]"])
      (simp add: ex_sys3_def, simp only: ex_inject2 ex_commit_publish)
  then show "step sample_ext ex_lim ex_sys3 ex_sys4" by (simp add: ex_sys3_def ex_sys4_def next_task_def)
qed

lemma ex_db4_gets: "index_at sample_ext (kv ex_db4) ''n'' = Inr (Some ex_status)"
  "bt_get (kv ex_db4) (deletion_key ''n'') = None"
proof -
  have "kv ex_db4 = apply_batch (publish sample_ext ''n'' ex_status) (apply_batch (mark_staging ''n'') (kv ex_db1))"
    by (simp add: ex_db4_def ex_db3_def)
  then show "index_at sample_ext (kv ex_db4) ''n'' = Inr (Some ex_status)"
    "bt_get (kv ex_db4) (deletion_key ''n'') = None"
    using bare_gets(6)[OF ex_bare] sample_index_codec[of ex_status]
    by (simp_all add: index_at_def publish_def mark_staging_def sample_ext_def)
qed

theorem published_index_is_overlaid_witness:
  "index_at sample_ext (kv ex_db4) ''n'' = Inr (Some ex_status) \<and>
    (\<exists>snap conf entries. live_inv sample_ext ''n'' snap
      \<and> plan_build sample_ext ''g'' conf ''n'' snap = Inr (ex_status, entries))"
  using published_index_is_overlaid[OF ex_reach4 sample_json_codec, of "''n''" ex_status] ex_db4_gets
  by (auto simp: ex_sys4_def ex_status_def)

theorem background_steps_invisible_witness:
  "document_at sample_ext (kv ex_db3) ''n'' ''a'' = document_at sample_ext (kv ex_db1) ''n'' ''a''"
  using background_steps_invisible[OF ex_reach2 sample_json_codec, of "''n''" _ "[]" _ ex_db3 "''n''" "''a''"]
    ex_commit_mark ex_inject2(1)
  by (simp add: ex_sys2_def)

theorem namespaces_isolated_witness:
  "agree_on ''m'' (kv ex_db1) (kv (snd (engine_write sample_ext ex_lim ''n'' ex_req ex_db1)))
    \<and> agree_on ''m'' (kv ex_db1) (kv (snd (delete_namespace ''n'' ex_db1)))"
  using namespaces_isolated[OF ex_ok(2), of "''m''" "''n''"] by (simp add: valid_id_def id_char_def)


end
