(* ===== verification/IndexExample.thy ===== *)
theory IndexExample
  imports IndexSearch Scenario
begin

section \<open>An index over the sample documents\<close>

text \<open>
  Every build succeeds under a large enough budget, and publishing its entries gives a store
  that the index answers for. Applied to the sample namespace with two documents, this is the
  closed instance of the theorem about indexed queries.
\<close>

subsection \<open>Builds succeed under a large enough budget\<close>

lemma build_rows_fit:
  assumes "\<forall>r \<in> set rows. row_fine X n s r"
  shows "\<exists>B used'. \<forall>budget \<ge> B. fold_res (build_row X s n budget) rows (docs, used)
    = Inr (docs @ map (row_doc X n s) rows, used')"
  using assms
proof (induction rows arbitrary: docs used)
  case (Cons r rows)
  obtain k v where r: "r = (k, v)" by force
  with Cons.prems have "row_fine X n s (k, v)" by simp
  then obtain doc w where d: "dec_doc X v = Some doc" "vector_at X s n (doc_id doc) = Inr w"
    "row_doc X n s r = doc\<lparr>vector := w\<rparr>" unfolding r by (rule row_fine_doc)
  let ?u = "used + length v + (case w of None \<Rightarrow> 0 | Some v \<Rightarrow> length v * 4) + 256"
  from Cons.IH[of "docs @ [row_doc X n s r]" ?u] Cons.prems obtain B used' where B:
    "\<And>budget. B \<le> budget \<Longrightarrow> fold_res (build_row X s n budget) rows (docs @ [row_doc X n s r], ?u)
      = Inr (docs @ map (row_doc X n s) (r # rows), used')" by auto
  have "build_row X s n budget r (docs, used) = Inr (docs @ [row_doc X n s r], ?u)" if "max B (8 * ?u) \<le> budget" for budget
  proof -
    have "?u \<le> budget div 8" using that div_le_mono[of "8 * ?u" budget 8] by simp
    then show ?thesis using d by (simp add: build_row_def r Let_def not_less)
  qed
  with B have "\<forall>budget \<ge> max B (8 * ?u). fold_res (build_row X s n budget) (r # rows) (docs, used)
      = Inr (docs @ map (row_doc X n s) (r # rows), used')" by simp
  then show ?case by blast
qed simp

lemma plan_build_fits:
  assumes "docs_fine X n s" "namespace_at X s n = Inr ns" "stats_at X s n = Inr st"
  shows "\<exists>B status entries. \<forall>budget \<ge> B.
    plan_build X gen (conf\<lparr>max_build_bytes := budget\<rparr>) n s = Inr (status, entries)"
proof -
  from build_rows_fit[of "scan_prefix (document_prefix n) s" X n s "[]" 0] assms(1) obtain B used where
    "\<And>budget. B \<le> budget \<Longrightarrow> fold_res (build_row X s n budget) (scan_prefix (document_prefix n) s) ([], 0)
      = Inr (listing X n s, used)" by (auto simp: docs_fine_def list_all_iff listing_def)
  then have input: "build_input X s n budget = Inr (listing X n s)" if "B \<le> budget" for budget
    using that by (simp add: build_input_def)
  obtain C status entries where
    "\<And>budget. C \<le> budget \<Longrightarrow>
      build X gen n (ns_conf ns) (revision st) (listing X n s) (conf\<lparr>max_build_bytes := budget\<rparr>) = Inr (status, entries)"
  proof -
    obtain status entries where "build X gen n (ns_conf ns) (revision st) (listing X n s) (conf\<lparr>max_build_bytes := budget\<rparr>)
        = (if budget < entry_bytes entries then Inl (Limit ''index output exceeds index.max_build_bytes'') else Inr (status, entries))"
      for budget
      by (rule that) (simp add: build_def Let_def case_prod_unfold)
    then have "build X gen n (ns_conf ns) (revision st) (listing X n s) (conf\<lparr>max_build_bytes := budget\<rparr>) = Inr (status, entries)"
      if "entry_bytes entries \<le> budget" for budget using that by simp
    then show thesis by (rule that)
  qed
  with input have "\<forall>budget \<ge> max B C. plan_build X gen (conf\<lparr>max_build_bytes := budget\<rparr>) n s = Inr (status, entries)"
    using assms(2,3) by (simp add: plan_build_def)
  then show ?thesis by blast
qed

subsection \<open>A published build is searchable\<close>

lemma publish_side:
  assumes "built X n status entries snap"
  shows "\<forall>x \<in> set (puts entries @ publish X n status). side_op n x"
  using built_keys[OF assms] gen_root_side[of n "generation status"]
  by (auto simp: puts_def publish_def) (simp add: side_op_def)

lemma published_searchable:
  assumes "built X n status entries snap" "fresh_generation X n (generation status) snap" "json_codec X"
    and "s = apply_batch (puts entries @ publish X n status) snap"
  shows "searchable X n status entries snap s \<and> index_at X s n = Inr (Some status)
    \<and> (\<exists>st. stats_at X s n = Inr st)"
proof -
  from assms(1) obtain conf where p: "plan_build X (generation status) conf n snap = Inr (status, entries)"
    "bt_ok snap" "good X n snap" by (auto simp: built_def)
  from p(1) obtain ns and st :: stats where st: "stats_at X snap n = Inr st" "idx_revision status = revision st"
    by (rule plan_build_Inr) blast
  let ?b = "puts entries @ publish X n status"
  note side = publish_side[OF assms(1)]
  have "answers_for X n status entries snap snap"
    using assms(1) st by (simp add: answers_for_def covers_def not_newer_def)
  then have answers: "answers_for X n status entries snap s"
    unfolding assms(4) by (rule answers_for_side[OF _ side p(2)])
  have "staged n status [] snap" using assms(2) by (simp add: staged_def fresh_generation_def)
  then have "staged n status (puts entries) (apply_batch (puts entries) snap)"
    using staged_batch_more[of n status "[]" snap "puts entries"] p(2) by simp
  then have "staged n status (puts entries) s"
    unfolding assms(4) apply_batch_append
    by (rule staged_batch_other) (simp_all add: p(2) publish_def not_gen_root)
  moreover have "good X n s" unfolding assms(4) by (rule good_side[OF p(3) side p(2)])
  moreover have "bt_get s (index_key n) = Some (enc_index X status)"
    using p(2) by (simp add: assms(4) publish_def)
  moreover have "stats_at X s n = stats_at X snap n"
    unfolding assms(4) stats_at_def side_gets(5)[OF side p(2)] ..
  ultimately show ?thesis
    using answers assms(3) built_exact(1)[OF assms(1)] st(1) p(2)
    by (simp add: searchable_def index_at_def) (simp add: assms(4))
qed

text \<open>So is every index published in a reachable state of the system.\<close>

lemma reachable_searchable:
  assumes "reachable X lim \<sigma>" "json_codec X" "valid_id n"
    and "bt_get (kv (sys_db \<sigma>)) (deletion_key n) = None" "index_at X (kv (sys_db \<sigma>)) n = Inr (Some status)"
  shows "\<exists>entries snap. searchable X n status entries snap (kv (sys_db \<sigma>))"
proof -
  let ?s = "kv (sys_db \<sigma>)"
  have ok: "bt_ok ?s" using reachable_inv[OF assms(1,2)] by (simp add: engine_inv_def store_ok_def)
  have "\<not> clean n ?s"
  proof
    assume "clean n ?s"
    then have "bt_get ?s (index_key n) = None" by (simp add: clean_def)
    with assms(5) show False by (simp add: index_at_def)
  qed
  with reachable_served[OF assms(1-4)] have served: "served X n ?s" by blast
  obtain entries snap where "answers_for X n status entries snap ?s" "staged n status (puts entries) ?s"
    using served assms(5) by (rule served_index)
  with served ok assms(2) show ?thesis by (auto simp: searchable_def served_def)
qed

subsection \<open>The sample documents\<close>

lemma ex_digest: "slash \<notin> set (digest sample_ext b)"
proof -
  have "slash \<notin> set (hex_padded 2 k)" for k by (simp add: hex_padded_def digits_rev_no_slash)
  then show ?thesis by (simp add: digest_def sample_ext_def)
qed

lemma ex_written_good:
  obtains r d where "engine_write sample_ext ex_lim ''n'' ex_req ex_db1 = (Inr r, d)" "good sample_ext ''n'' (kv d)"
    "bt_ok (kv d)" "\<And>i. docs_of sample_ext (kv d) ''n'' i =
       (if i = ''a'' then Some (ex_doc ''a'' 0x3F800000) else if i = ''b'' then Some (ex_doc ''b'' 0x40000000) else None)"
    "fresh_generation sample_ext ''n'' ''g'' (kv d)"
proof -
  obtain r d where w: "engine_write sample_ext ex_lim ''n'' ex_req ex_db1 = (Inr r, d)" using ex_write by blast
  from w obtain st b where b: "prepare_write sample_ext ex_lim ''n'' ex_req (kv ex_db1) = Inr (st, b)"
    "kv d = apply_batch b (kv ex_db1)" by (rule engine_write_Inr)
  have stored: "\<forall>doc \<in> set (upsert ex_req). stored_exactly sample_ext doc" by (simp add: ex_req_def)
  have "good sample_ext ''n'' (kv ex_db1)"
    using ex_live ex_fine bare_gets[OF ex_bare] by (simp add: good_def change_ids_ok_def vectors_fit_def vector_at_def)
  from good_write[OF this ex_ok(2) ex_request_ok sample_json_codec b(1) stored] have "good sample_ext ''n'' (kv d)"
    by (simp add: b(2))
  moreover have "bt_ok (kv d)" by (simp add: b(2))
  moreover have "docs_of sample_ext (kv d) ''n'' i =
      (if i = ''a'' then Some (ex_doc ''a'' 0x3F800000) else if i = ''b'' then Some (ex_doc ''b'' 0x40000000) else None)" for i
  proof -
    have "document_at sample_ext (kv ex_db1) ''n'' i = Inr None"
      using bare_gets[OF ex_bare] by (simp add: document_at_def attributes_at_def)
    then show ?thesis
      using document_after_write[OF ex_ok(2) ex_request_ok b(1) ex_live sample_json_codec stored, of i]
      by (simp add: docs_of_def b(2) ex_req_def find_doc_def ex_doc_def)
  qed
  moreover have "bt_get (kv d) k = None" if k: "prefix (gen_root ''n'' ''g'') k" for k
  proof -
    have "bt_get (kv ex_db1) k = None" using ex_fresh_generation k by (simp add: fresh_generation_def)
    then show ?thesis
      using write_get_other[OF ex_ok(2) ex_request_ok b(1)] gen_root_not_item[OF ex_valid(1) k] by (simp add: b(2))
  qed
  then have "fresh_generation sample_ext ''n'' ''g'' (kv d)"
    using write_index_key[OF ex_ok(2) ex_request_ok b(1)] bare_gets(5)[OF ex_bare]
    by (simp add: fresh_generation_def gen_ok_def b(2))
  ultimately show thesis by (rule that[OF w])
qed

definition ex_filter :: filter_spec where
  "ex_filter = \<lparr>eq_preds = [(''k'', JString ''v'')], range_preds = []\<rparr>"
definition ex_ann :: query_request where
  "ex_ann = \<lparr>q_vector = [0x3F800000, 0x3F800000], q_top_k = 1, q_filter = ex_filter, q_mode = Ann, q_probes = 4\<rparr>"
definition one_cluster :: "nat \<Rightarrow> index_config" where
  "one_cluster budget = (index_conf default_config)\<lparr>clusters := 1, max_build_bytes := budget\<rparr>"

text \<open>The sample documents are written, an index with one cluster is built of them and
  published, and a filtered query is answered through it.\<close>

theorem indexed_query_exact_witness:
  "\<exists>r d budget status entries res. engine_write sample_ext ex_lim ''n'' ex_req ex_db1 = (Inr r, d)
    \<and> plan_build sample_ext ''g'' (one_cluster budget) ''n'' (kv d) = Inr (status, entries)
    \<and> vector_query sample_ext (apply_batch (puts entries @ publish sample_ext ''n'' status) (kv d))
         ''n'' ex_conf ex_ann (index_conf default_config) = Inr res
    \<and> length (hits res) = 1 \<and> indexed_revision res = idx_revision status"
proof -
  obtain r d where w: "engine_write sample_ext ex_lim ''n'' ex_req ex_db1 = (Inr r, d)"
    and g: "good sample_ext ''n'' (kv d)" "bt_ok (kv d)" "fresh_generation sample_ext ''n'' ''g'' (kv d)"
    and docs: "\<And>i. docs_of sample_ext (kv d) ''n'' i =
       (if i = ''a'' then Some (ex_doc ''a'' 0x3F800000) else if i = ''b'' then Some (ex_doc ''b'' 0x40000000) else None)"
    by (rule ex_written_good) blast
  have fine: "docs_fine sample_ext ''n'' (kv d)" using g(1) by (simp add: good_def)
  from g(1) obtain ns and st :: stats where "namespace_at sample_ext (kv d) ''n'' = Inr ns" "stats_at sample_ext (kv d) ''n'' = Inr st"
    unfolding good_def live_inv_def by blast
  from plan_build_fits[OF fine this, of "''g''" "one_cluster 0"] obtain budget status entries where
    plan: "plan_build sample_ext ''g'' (one_cluster budget) ''n'' (kv d) = Inr (status, entries)"
    by (auto simp: one_cluster_def)
  then have gen: "generation status = ''g''" by (rule plan_build_Inr)
  have built: "built sample_ext ''n'' status entries (kv d)"
    using g plan gen by (auto simp: built_def gen_ok_def sample_ext_def sample_index_codec one_cluster_def intro!: exI[of _ "one_cluster budget"])
  let ?s = "apply_batch (puts entries @ publish sample_ext ''n'' status) (kv d)" and ?L = "listing sample_ext ''n'' (kv d)"
  from published_searchable[OF built _ sample_json_codec refl] g(3) gen obtain st2 :: stats where
    s: "searchable sample_ext ''n'' status entries (kv d) ?s" "index_at sample_ext ?s ''n'' = Inr (Some status)"
    "stats_at sample_ext ?s ''n'' = Inr st2" by auto
  have mem: "doc \<in> set ?L \<longleftrightarrow> doc = ex_doc ''a'' 0x3F800000 \<or> doc = ex_doc ''b'' 0x40000000" for doc
    unfolding listing_docs[OF fine g(2)] docs by (auto simp: ex_doc_def)
  have attrs: "attributes doc = [(''k'', JString ''v'')]" if "doc \<in> set ?L" for doc
    using that by (auto simp: mem ex_doc_def)
  then have ok: "attrs_ok ?L" by (auto simp: attrs_ok_def list_all_iff)
  have "set (used_fields ?L ex_filter) = {''k''}" "set (used_values ?L ex_filter) = {JString ''v''}"
    using attrs by (auto simp: used_fields_def used_values_def ex_filter_def)
  then have nc: "no_collisions sample_ext ?L ex_filter"
    by (simp add: no_collisions_def ex_digest ex_filter_def)
  have probes: "length (centroids status) \<le> q_probes ex_ann"
    using plan by (rule plan_build_Inr) (auto dest: cluster_count simp: ex_ann_def one_cluster_def)
  have "validate_filter ex_filter = Inr ()" by (simp add: validate_filter_def ex_filter_def)
  with indexed_query_exact[OF s(1,3,2) _ probes _ ok, of ex_conf "index_conf default_config"] nc
  obtain res where res: "vector_query sample_ext ?s ''n'' ex_conf ex_ann (index_conf default_config) = Inr res"
    "ranks (hits res) = best_of ex_ann Dot (candidates ex_ann (listing sample_ext ''n'' ?s))"
    "indexed_revision res = idx_revision status"
    by (auto simp: ex_ann_def ex_conf_def)
  have "docs_fine sample_ext ''n'' ?s" "bt_ok ?s" using s(1) by (simp_all add: searchable_def good_def)
  moreover have "docs_of sample_ext ?s ''n'' ''a'' = Some (ex_doc ''a'' 0x3F800000)"
    using docs[of "''a''"] document_at_cong[OF side_gets(1,2)[OF publish_side[OF built] g(2)]] by (simp add: docs_of_def)
  ultimately have "ex_doc ''a'' 0x3F800000 \<in> set (listing sample_ext ''n'' ?s)"
    using listing_docs by (fastforce simp: ex_doc_def)
  then have "(''a'', [0x3F800000, 0x3F800000]) \<in> set (candidates ex_ann (listing sample_ext ''n'' ?s))"
    by (force simp: candidates_iff ex_doc_def ex_ann_def ex_filter_def matches_def)
  then have "length (best_of ex_ann Dot (candidates ex_ann (listing sample_ext ''n'' ?s))) = 1"
    by (cases "candidates ex_ann (listing sample_ext ''n'' ?s)") (auto simp: best_of_def ex_ann_def)
  then have "length (ranks (hits res)) = 1" by (simp only: res(2))
  then have "length (hits res) = 1" by (simp add: ranks_def)
  with w plan res(1,3) show ?thesis by blast
qed

end
