(* ===== verification/Backup.thy ===== *)
theory Backup
  imports Wire Engine
begin

section \<open>Backup files (backup.rs)\<close>

text \<open>
  A backup is a header, one length-prefixed record per row of a snapshot in key order, and a
  footer with the number of records and the SHA-256 of everything before it. The digest is a
  parameter \<open>sha\<close>; an incremental hasher is the bytes it was fed, and \<open>finalize\<close> applies
  \<open>sha\<close> to them. A file is the bytes not yet read.
\<close>

definition HEADER :: bytes where
  "HEADER = ''GMBAK'' @ [CHR 0x02, CHR 0x0D, CHR 0x0A]"

definition MAX_RECORD :: nat where "MAX_RECORD = 16 * 1024 * 1024"

lemma length_HEADER [simp]: "length HEADER = 8"
  by (simp add: HEADER_def)

subsection \<open>Export\<close>

definition encode_record :: "string \<times> bytes \<Rightarrow> bytes" where
  "encode_record r =
     u32_to_le (of_nat (length (fst r))) @ u32_to_le (of_nat (length (snd r))) @ fst r @ snd r"

definition end_marker :: bytes where "end_marker = u32_to_le (- 1)"

definition footer :: "(bytes \<Rightarrow> bytes) \<Rightarrow> bytes \<Rightarrow> u64 \<Rightarrow> bytes" where
  "footer sha hashed count = end_marker @ u64_to_le count @ sha hashed"

text \<open>The stream: its state is the iterator, the bytes hashed, the count and whether the
  footer has been sent; every step gives one chunk.\<close>

type_synonym export_state = "(string \<times> bytes) list \<times> bytes \<times> u64 \<times> bool"

definition export_step :: "(bytes \<Rightarrow> bytes) \<Rightarrow> export_state \<Rightarrow> (bytes \<times> export_state) option" where
  "export_step sha st =
     (case st of (iter, hashed, count, finished) \<Rightarrow>
        if finished then None
        else (case iter of
            row # rest \<Rightarrow>
              (let b = encode_record row in Some (b, (rest, hashed @ b, count + 1, False)))
          | [] \<Rightarrow> Some (footer sha hashed count, ([], hashed, count, True))))"

function unfold_export :: "(bytes \<Rightarrow> bytes) \<Rightarrow> export_state \<Rightarrow> bytes list" where
  "unfold_export sha st =
     (case export_step sha st of None \<Rightarrow> [] | Some (b, st') \<Rightarrow> b # unfold_export sha st')"
  by pat_completeness auto
termination
  by (relation "measure (\<lambda>(sha, iter, hashed, count, finished). 2 * length iter + (if finished then 0 else 1))")
    (auto simp: export_step_def Let_def split: if_splits list.splits)

declare unfold_export.simps [simp del]

definition export_file :: "(bytes \<Rightarrow> bytes) \<Rightarrow> store \<Rightarrow> bytes" where
  "export_file sha s = HEADER @ concat (unfold_export sha (s, HEADER, 0, False))"

text \<open>\<open>Engine::export\<close>: a query slot, a snapshot, and the stream over it.\<close>

definition engine_export :: "(bytes \<Rightarrow> bytes) \<Rightarrow> nat \<Rightarrow> bytes act" where
  "engine_export sha slots =
     (if slots = 0 then act_fail Busy
      else act_bind snapshot (\<lambda>s. act_ret (export_file sha s)))"

subsection \<open>Reading records\<close>

definition read_record :: "bytes \<Rightarrow> ((string \<times> bytes) option \<times> bytes) result" where
  "read_record bs =
     rbind (take_exact Io 4 bs) (\<lambda>(k4, r1).
       let key_len = u32_from_le k4 in
       if key_len = - 1 then Inr (None, r1)
       else rbind (take_exact Io 4 r1) (\<lambda>(v4, r2).
         let value_len = unat (u32_from_le v4) in
         if key_len = 0 \<or> 2048 < key_len \<or> MAX_RECORD < value_len
         then Inl (Corrupt ''invalid backup record length'')
         else rbind (take_exact Io (unat key_len) r2) (\<lambda>(key, r3).
              rbind (take_exact Io value_len r3) (\<lambda>(value, r4).
              Inr (Some (key, value), r4)))))"

lemma read_record_shorter: "read_record bs = Inr (Some row, r) \<Longrightarrow> length r < length bs"
  by (auto simp: read_record_def Let_def take_exact_def split: if_splits)

text \<open>What the loop of \<open>verify\<close> keeps: the bytes hashed, the count, whether the format row was
  seen, and the previous key.\<close>

function verify_loop :: "bytes \<Rightarrow> bytes \<Rightarrow> u64 \<Rightarrow> bool \<Rightarrow> string \<Rightarrow> (bytes \<times> u64 \<times> bool \<times> bytes) result" where
  "verify_loop bs hashed count format previous =
     (case read_record bs of
        Inl e \<Rightarrow> Inl e
      | Inr (None, r) \<Rightarrow> Inr (hashed, count, format, r)
      | Inr (Some (key, val), r) \<Rightarrow>
          if key \<le> previous then Inl (Corrupt ''backup keys must be strictly ordered'')
          else if key = FORMAT_KEY \<and> val \<noteq> FORMAT
          then Inl (Corrupt ''backup is not a complete v2 database'')
          else verify_loop r
            (hashed @ u32_to_le (of_nat (length key)) @ u32_to_le (of_nat (length val)) @ key @ val)
            (count + 1) (format \<or> key = FORMAT_KEY) key)"
  by pat_completeness auto
termination
  by (relation "measure (\<lambda>(bs, _). length bs)") (auto dest: read_record_shorter)

declare verify_loop.simps [simp del]

definition verify :: "(bytes \<Rightarrow> bytes) \<Rightarrow> bytes \<Rightarrow> unit result" where
  "verify sha file =
     rbind (take_exact Io 8 file) (\<lambda>(header, r).
       if header \<noteq> HEADER then Inl (Corrupt ''unsupported backup format'')
       else rbind (verify_loop r header 0 False []) (\<lambda>(hashed, count, format, r').
         rbind (take_exact Io 40 r') (\<lambda>(foot, trailing).
           if \<not> format \<or> count \<noteq> u64_from_le (take 8 foot) \<or> sha hashed \<noteq> drop 8 foot \<or> trailing \<noteq> []
           then Inl (Corrupt ''backup count, checksum, or footer is invalid'')
           else Inr ())))"

subsection \<open>The records of a file\<close>

definition record_ok :: "string \<times> bytes \<Rightarrow> bool" where
  "record_ok r \<longleftrightarrow> 0 < length (fst r) \<and> length (fst r) \<le> 2048 \<and> length (snd r) \<le> MAX_RECORD"

lemma record_sizes:
  assumes "record_ok r"
  shows "unat (of_nat (length (fst r)) :: u32) = length (fst r)" "unat (of_nat (length (snd r)) :: u32) = length (snd r)"
  using assms by (auto simp: record_ok_def MAX_RECORD_def unat_of_nat take_bit_nat_eq_self)

lemma u32_max: "unat (- 1 :: u32) = 2 ^ 32 - 1"
  by (simp add: unsigned_minus_1_eq_mask mask_eq_exp_minus_1)

lemma read_record_encode:
  assumes "record_ok r"
  shows "read_record (encode_record r @ rest) = Inr (Some r, rest)"
proof -
  let ?k = "of_nat (length (fst r)) :: u32"
  note sz = record_sizes[OF assms]
  have "?k \<noteq> - 1" "?k \<noteq> 0" "\<not> 2048 < ?k"
    using assms sz(1) by (auto simp: record_ok_def word_less_nat_alt u32_max dest: arg_cong[where f = unat])
  then show ?thesis
    using assms sz by (simp add: read_record_def encode_record_def Let_def record_ok_def)
qed

interpretation backup_row: wire_codec encode_record
  "\<lambda>bs. case read_record bs of Inl e \<Rightarrow> Inl e | Inr (None, r) \<Rightarrow> Inl Io | Inr (Some x, r) \<Rightarrow> Inr (x, r)" record_ok
  by unfold_locales (simp add: read_record_encode)

lemma read_record_end: "read_record (end_marker @ rest) = Inr (None, rest)"
  by (simp add: read_record_def end_marker_def Let_def)

lemma read_record_None: "read_record bs = Inr (None, r) \<Longrightarrow> bs = end_marker @ r"
  by (auto simp: read_record_def end_marker_def Let_def take_exact_Inr_iff split: if_splits
      dest: u32_to_le_from_le)

lemma read_record_Some:
  assumes "read_record bs = Inr (Some row, r)"
  shows "record_ok row \<and> bs = encode_record row @ r"
proof -
  from assms obtain k4 v4 where s: "bs = k4 @ v4 @ fst row @ snd row @ r" "length k4 = 4" "length v4 = 4"
    "u32_from_le k4 \<noteq> 0" "\<not> 2048 < u32_from_le k4" "\<not> MAX_RECORD < unat (u32_from_le v4)"
    "length (fst row) = unat (u32_from_le k4)" "length (snd row) = unat (u32_from_le v4)"
    by (fastforce simp: read_record_def Let_def take_exact_Inr_iff split: if_splits)
  have "u32_to_le (of_nat (length (fst row))) = k4" "u32_to_le (of_nat (length (snd row))) = v4"
    using s by (simp_all add: u32_to_le_from_le)
  moreover have "record_ok row"
    using s(4-8) unat_eq_zero[of "u32_from_le k4"] by (auto simp: record_ok_def word_less_nat_alt)
  ultimately show ?thesis using s(1) by (simp add: encode_record_def)
qed

subsection \<open>What \<open>verify\<close> accepts\<close>

abbreviation encode_rows :: "(string \<times> bytes) list \<Rightarrow> bytes" where
  "encode_rows rows \<equiv> concat (map encode_record rows)"

lemma unfold_export_rows:
  "concat (unfold_export sha (rows, hashed, count, False)) =
    encode_rows rows @ footer sha (hashed @ encode_rows rows) (count + of_nat (length rows))"
proof (induction rows arbitrary: hashed count)
  case Nil
  then show ?case by (simp add: unfold_export.simps export_step_def)
next
  case (Cons row rows)
  have "unfold_export sha (row # rows, hashed, count, False) =
      encode_record row # unfold_export sha (rows, hashed @ encode_record row, count + 1, False)"
    by (subst unfold_export.simps) (simp add: export_step_def Let_def)
  with Cons[of "hashed @ encode_record row" "count + 1"] show ?case by (simp add: algebra_simps)
qed

lemma export_file_eq:
  "export_file sha s = HEADER @ encode_rows s @ footer sha (HEADER @ encode_rows s) (of_nat (length s))"
  by (simp add: export_file_def unfold_export_rows)

text \<open>What the loop demands of the rows after the key \<open>previous\<close>.\<close>

fun rows_follow :: "string \<Rightarrow> (string \<times> bytes) list \<Rightarrow> bool" where
  "rows_follow previous [] \<longleftrightarrow> True"
| "rows_follow previous (r # rows) \<longleftrightarrow>
     record_ok r \<and> previous < fst r \<and> (fst r = FORMAT_KEY \<longrightarrow> snd r = FORMAT) \<and> rows_follow (fst r) rows"

lemma verify_loop_prefix:
  assumes "rows_follow previous rows"
  shows "verify_loop (encode_rows rows @ rest) hashed count format previous =
    verify_loop rest (hashed @ encode_rows rows) (count + of_nat (length rows)) (format \<or> FORMAT_KEY \<in> fst ` set rows)
      (last (previous # map fst rows))"
  using assms
proof (induction rows arbitrary: hashed count format previous)
  case (Cons r rows)
  obtain k v where r: "r = (k, v)" by force
  have "verify_loop (encode_record r @ encode_rows rows @ rest) hashed count format previous =
      verify_loop (encode_rows rows @ rest) (hashed @ encode_record r) (count + 1) (format \<or> k = FORMAT_KEY) k"
  proof -
    have "u32_to_le (of_nat (length k)) @ u32_to_le (of_nat (length v)) @ k @ v = encode_record (k, v)"
      by (simp add: encode_record_def)
    moreover from Cons.prems have "record_ok (k, v)" "\<not> k \<le> previous" "\<not> (k = FORMAT_KEY \<and> v \<noteq> FORMAT)"
      by (auto simp: r not_le)
    ultimately show ?thesis by (subst verify_loop.simps) (auto simp: r read_record_encode)
  qed
  with Cons.IH[of k "hashed @ encode_record r" "count + 1" "format \<or> k = FORMAT_KEY"] Cons.prems
  show ?case by (simp add: r algebra_simps eq_commute)
qed simp

lemma verify_loop_rows:
  assumes "rows_follow previous rows"
  shows "verify_loop (encode_rows rows @ end_marker @ rest) hashed count format previous =
    Inr (hashed @ encode_rows rows, count + of_nat (length rows), format \<or> FORMAT_KEY \<in> fst ` set rows, rest)"
  using verify_loop_prefix[OF assms] by (simp add: verify_loop.simps[of "end_marker @ rest"] read_record_end)

lemma read_record_oversized:
  assumes "0 < length k" "length k \<le> 2048" "MAX_RECORD < length v" "length v < 2 ^ 32"
  shows "read_record (encode_record (k, v) @ rest) = Inl (Corrupt ''invalid backup record length'')"
proof -
  have k: "unat (of_nat (length k) :: u32) = length k" and v: "unat (of_nat (length v) :: u32) = length v"
    using assms by (simp_all add: unat_of_nat take_bit_nat_eq_self)
  have "(of_nat (length k) :: u32) \<noteq> - 1"
    using assms(2) by (auto simp: u32_max k dest!: arg_cong[where f = unat])
  then show ?thesis
    using assms v by (simp add: read_record_def encode_record_def Let_def)
qed

lemma verify_loop_Inr:
  assumes "verify_loop bs hashed count format previous = Inr (h, c, f, rest)"
  shows "\<exists>rows. bs = encode_rows rows @ end_marker @ rest \<and> rows_follow previous rows"
  using assms
proof (induction bs hashed count format previous rule: verify_loop.induct)
  case (1 bs hashed count format previous)
  show ?case
  proof (cases "read_record bs")
    case (Inr x)
    obtain o' r where x: "x = (o', r)" by force
    show ?thesis
    proof (cases o')
      case None
      with "1.prems" Inr x have "bs = encode_rows [] @ end_marker @ rest"
        by (simp add: verify_loop.simps[of bs] read_record_None)
      then show ?thesis by (metis rows_follow.simps(1))
    next
      case (Some row)
      obtain k v where row: "row = (k, v)" by force
      have read: "read_record bs = Inr (Some (k, v), r)" using Inr x Some row by simp
      from read_record_Some[OF read] have ok: "record_ok (k, v)" "bs = encode_record (k, v) @ r" by simp_all
      from "1.prems" have cond: "\<not> k \<le> previous" "\<not> (k = FORMAT_KEY \<and> v \<noteq> FORMAT)"
        and rec: "verify_loop r (hashed @ u32_to_le (of_nat (length k)) @ u32_to_le (of_nat (length v)) @ k @ v)
          (count + 1) (format \<or> k = FORMAT_KEY) k = Inr (h, c, f, rest)"
        by (simp_all add: verify_loop.simps[of bs] read split: if_splits)
      from "1.IH"[OF read refl refl refl cond rec] obtain rows where
        "r = encode_rows rows @ end_marker @ rest" "rows_follow k rows" by blast
      then have "bs = encode_rows ((k, v) # rows) @ end_marker @ rest \<and> rows_follow previous ((k, v) # rows)"
        using ok cond by simp
      then show ?thesis by blast
    qed
  qed (use "1.prems" in \<open>simp add: verify_loop.simps[of bs]\<close>)
qed

text \<open>The rows that a file can hold.\<close>

definition backup_rows :: "store \<Rightarrow> bool" where
  "backup_rows s \<longleftrightarrow> bt_ok s \<and> bt_get s FORMAT_KEY = Some FORMAT \<and> list_all record_ok s"

lemma rows_follow_iff:
  "rows_follow previous rows \<longleftrightarrow> bt_ok rows \<and> (\<forall>r \<in> set rows. previous < fst r)
    \<and> list_all record_ok rows \<and> (\<forall>v. (FORMAT_KEY, v) \<in> set rows \<longrightarrow> v = FORMAT)"
proof (induction rows arbitrary: previous)
  case (Cons r rows)
  obtain k v where r: "r = (k, v)" by force
  show ?case unfolding rows_follow.simps Cons.IH by (auto simp: r)
qed simp

lemma backup_rows_follow:
  "backup_rows s \<longleftrightarrow> rows_follow [] s \<and> FORMAT_KEY \<in> fst ` set s"
proof -
  have "[] < fst r" if "record_ok r" for r :: "string \<times> bytes" using that by (cases "fst r") (auto simp: record_ok_def)
  moreover have "bt_ok s \<Longrightarrow> bt_get s FORMAT_KEY = Some FORMAT \<longleftrightarrow>
      FORMAT_KEY \<in> fst ` set s \<and> (\<forall>v. (FORMAT_KEY, v) \<in> set s \<longrightarrow> v = FORMAT)"
    by (auto simp: bt_get_iff[symmetric]) (metis bt_get_in fst_conv image_eqI)
  ultimately show ?thesis unfolding backup_rows_def rows_follow_iff by (auto simp: list_all_iff)
qed

lemma verify_Inr_rows:
  assumes "verify sha file = Inr ()"
  shows "\<exists>s. file = export_file sha s \<and> backup_rows s"
proof -
  from assms obtain r h c f r' foot where v: "file = HEADER @ r" "verify_loop r HEADER 0 False [] = Inr (h, c, f, r')"
    "r' = foot" "length foot = 40" "f" "c = u64_from_le (take 8 foot)" "sha h = drop 8 foot"
    by (auto simp: verify_def take_exact_Inr_iff split: if_splits)
  from verify_loop_Inr[OF v(2)] obtain rows where rows: "r = encode_rows rows @ end_marker @ r'" "rows_follow [] rows" by blast
  from verify_loop_rows[OF rows(2), of r' HEADER 0 False] v(2) rows(1)
  have st: "h = HEADER @ encode_rows rows" "c = of_nat (length rows)" "FORMAT_KEY \<in> fst ` set rows"
    using v(5) by simp_all
  have "u64_to_le c = take 8 foot" using v(4,6) by (simp add: u64_to_le_from_le)
  then have "foot = u64_to_le c @ sha h" using v(7) by (metis append_take_drop_id)
  then have "file = export_file sha rows"
    using v(1,3) rows(1) st by (simp add: export_file_eq footer_def)
  moreover have "backup_rows rows" using rows(2) st(3) by (simp add: backup_rows_follow)
  ultimately show ?thesis by blast
qed

lemma verify_export:
  assumes "\<forall>b. length (sha b) = 32" "backup_rows s"
  shows "verify sha (export_file sha s) = Inr ()"
proof -
  from assms(2) have s: "rows_follow [] s" "FORMAT_KEY \<in> fst ` set s" by (simp_all add: backup_rows_follow)
  then show ?thesis
    using assms(1) verify_loop_rows[OF s(1), of "u64_to_le (of_nat (length s)) @ sha (HEADER @ encode_rows s)" HEADER 0 False]
    by (simp add: verify_def export_file_eq footer_def take_exact_def)
qed

text \<open>C16: A backup file is accepted exactly when it is, byte for byte, the export of some complete
  database: rows in strictly increasing key order, among them the format row, each key at most
  2048 bytes and each value at most 16 MiB. So a truncated, extended, reordered or altered file
  is refused unless it is itself such an export.\<close>
theorem verify_exact:
  assumes "\<forall>b. length (sha b) = 32"
  shows "verify sha file = Inr () \<longleftrightarrow> (\<exists>s. file = export_file sha s \<and> backup_rows s)"
  using verify_Inr_rows verify_export[OF assms] by blast

text \<open>The sample digest: the byte sum, padded.\<close>

definition sample_sha :: "bytes \<Rightarrow> bytes" where
  "sample_sha b = hex_padded 32 (sum_list (map of_char b))"

lemma length_sample_sha [simp]: "length (sample_sha b) = 32"
  by (simp add: sample_sha_def)

theorem verify_exact_witness:
  "verify sample_sha (export_file sample_sha [(FORMAT_KEY, FORMAT), (''n/a'', ''x'')]) = Inr ()"
proof -
  have "backup_rows [(FORMAT_KEY, FORMAT), (''n/a'', ''x'')]"
    by (simp add: backup_rows_def record_ok_def FORMAT_KEY_def FORMAT_def MAX_RECORD_def)
  then show ?thesis using verify_exact[of sample_sha] by auto
qed

end
