(* ===== verification/Files.thy ===== *)
theory Files
  imports Backup
begin

section \<open>Files on the host, and downloading a backup (backup.rs)\<close>

text \<open>
  The files a process touches outside the database: the partial and the finished download, and
  (in \<open>Assembly\<close>) lock files and the identity file of a cache. Every file operation may fail,
  a write also after some of its bytes, and the process may be killed at any of them: the list
  \<open>io_faults\<close> says what happens to the next operations, an exhausted list means success.
\<close>

subsection \<open>Paths and the file system\<close>

text \<open>A path by its components, as \<open>std::path\<close> sees it; the root of an absolute path is one.\<close>

type_synonym path = "string list"

abbreviation root_dir :: path where "root_dir \<equiv> [''/'']"
abbreviation cur_dir :: path where "cur_dir \<equiv> [''.'']"

definition path_parent :: "path \<Rightarrow> path option" where
  "path_parent p = (if p = [] \<or> p = root_dir then None else Some (butlast p))"

datatype io_fault = Works | Fails nat | Killed nat

record host =
  files :: "(path, bytes) btree"
  locks :: "path list"
  io_faults :: "io_fault list"
  dead :: bool

type_synonym 'a io = "host \<Rightarrow> 'a result \<times> host"

definition io_bind :: "'a io \<Rightarrow> ('a \<Rightarrow> 'b io) \<Rightarrow> 'b io" where
  "io_bind m f h = (case m h of (Inl e, h') \<Rightarrow> (Inl e, h') | (Inr a, h') \<Rightarrow> f a h')"

definition io_lift :: "'a result \<Rightarrow> 'a io" where "io_lift r h = (r, h)"

text \<open>What happens to an operation: \<open>None\<close> success, \<open>Some n\<close> failure after \<open>n\<close> bytes.\<close>

definition take_fault :: "host \<Rightarrow> nat option \<times> host" where
  "take_fault h =
     (if dead h then (Some 0, h)
      else (case io_faults h of
          [] \<Rightarrow> (None, h)
        | Works # fs \<Rightarrow> (None, h\<lparr>io_faults := fs\<rparr>)
        | Fails n # fs \<Rightarrow> (Some n, h\<lparr>io_faults := fs\<rparr>)
        | Killed n # fs \<Rightarrow> (Some n, h\<lparr>io_faults := fs, dead := True\<rparr>)))"

text \<open>An operation with its effect on the files when it works and when it fails.\<close>

definition file_op :: "(host \<Rightarrow> 'a result) \<Rightarrow> (host \<Rightarrow> host) \<Rightarrow> (nat \<Rightarrow> host \<Rightarrow> host) \<Rightarrow> 'a io" where
  "file_op check done broken h =
     (case take_fault h of
        (Some n, h') \<Rightarrow> (Inl Io, if dead h then h' else broken n h')
      | (None, h') \<Rightarrow> (case check h' of Inl e \<Rightarrow> (Inl e, h') | Inr a \<Rightarrow> (Inr a, done h')))"

definition set_file :: "path \<Rightarrow> bytes \<Rightarrow> host \<Rightarrow> host" where
  "set_file p b h = h\<lparr>files := bt_put p b (files h)\<rparr>"

abbreviation file_at :: "host \<Rightarrow> path \<Rightarrow> bytes option" where
  "file_at h p \<equiv> bt_get (files h) p"

definition contents :: "host \<Rightarrow> path \<Rightarrow> bytes" where
  "contents h p = (case file_at h p of None \<Rightarrow> [] | Some b \<Rightarrow> b)"

text \<open>The empty path names no file and no directory.\<close>

definition create_new :: "path \<Rightarrow> unit io" where
  "create_new p = file_op (\<lambda>h. if p = [] \<or> file_at h p \<noteq> None then Inl Io else Inr ()) (set_file p []) (\<lambda>_ h. h)"

definition append_file :: "path \<Rightarrow> bytes \<Rightarrow> unit io" where
  "append_file p b = file_op (\<lambda>_. Inr ()) (\<lambda>h. set_file p (contents h p @ b) h)
     (\<lambda>n h. set_file p (contents h p @ take n b) h)"

definition touch_op :: "path \<Rightarrow> unit io" where
  "touch_op p = file_op (\<lambda>_. if p = [] then Inl Io else Inr ()) (\<lambda>h. h) (\<lambda>_ h. h)"

definition read_file :: "path \<Rightarrow> bytes io" where
  "read_file p = file_op (\<lambda>h. case file_at h p of None \<Rightarrow> Inl Io | Some b \<Rightarrow> Inr b) (\<lambda>h. h) (\<lambda>_ h. h)"

definition hard_link :: "path \<Rightarrow> path \<Rightarrow> unit io" where
  "hard_link p q = file_op (\<lambda>h. if q = [] \<or> file_at h p = None \<or> file_at h q \<noteq> None then Inl Io else Inr ())
     (\<lambda>h. set_file q (contents h p) h) (\<lambda>_ h. h)"

definition remove_file :: "path \<Rightarrow> unit io" where
  "remove_file p = file_op (\<lambda>h. if file_at h p = None then Inl Io else Inr ())
     (\<lambda>h. h\<lparr>files := bt_del p (files h)\<rparr>) (\<lambda>_ h. h)"

subsection \<open>The download\<close>

text \<open>
  \<open>fetch\<close> is the request: no answer or an error status, or the body in chunks, any of which may
  be a transport error. \<open>unique\<close> is the UUID in the name of the partial file.
\<close>

type_synonym fetch = "string \<Rightarrow> string option \<Rightarrow> bytes option list option"

fun write_chunks :: "path \<Rightarrow> bytes option list \<Rightarrow> unit io" where
  "write_chunks p [] = io_lift (Inr ())"
| "write_chunks p (None # cs) = io_lift (Inl Network)"
| "write_chunks p (Some b # cs) = io_bind (append_file p b) (\<lambda>_. write_chunks p cs)"

definition partial_name :: "string \<Rightarrow> string" where
  "partial_name unique = ''.gm-backup-'' @ unique @ ''.partial''"

definition output_dir :: "path \<Rightarrow> path" where
  "output_dir out = (case path_parent out of None \<Rightarrow> cur_dir | Some p \<Rightarrow> p)"

text \<open>The body goes to the partial file, which is synced and read again from its start.\<close>

definition receive :: "path \<Rightarrow> bytes option list \<Rightarrow> bytes io" where
  "receive temporary body =
     io_bind (create_new temporary) (\<lambda>_.
     io_bind (write_chunks temporary body) (\<lambda>_.
     io_bind (touch_op temporary) (\<lambda>_.
     io_bind (touch_op temporary) (\<lambda>_.
     read_file temporary))))"

definition download_to ::
  "(bytes \<Rightarrow> bytes) \<Rightarrow> bool \<Rightarrow> fetch \<Rightarrow> path \<Rightarrow> path \<Rightarrow> string \<Rightarrow> path \<Rightarrow> string option \<Rightarrow> unit io"
where
  "download_to sha client fetch parent temporary url out token =
     io_bind (io_lift (if client then Inr () else Inl Network)) (\<lambda>_.
     io_bind (io_lift (ok_or Network (fetch (trim_slashes url @ ''/v1/export'') token))) (\<lambda>body.
     io_bind (receive temporary body) (\<lambda>content.
     io_bind (io_lift (verify sha content)) (\<lambda>_.
     io_bind (hard_link temporary out) (\<lambda>_.
     touch_op parent)))))"

definition download ::
  "(bytes \<Rightarrow> bytes) \<Rightarrow> bool \<Rightarrow> fetch \<Rightarrow> string \<Rightarrow> string \<Rightarrow> path \<Rightarrow> string option \<Rightarrow> unit io"
where
  "download sha client fetch unique url out token h =
     (let parent = output_dir out;
          temporary = parent @ [partial_name unique];
          (r, h1) = download_to sha client fetch parent temporary url out token h in
      (r, snd (remove_file temporary h1)))"

subsection \<open>What each operation can change\<close>

text \<open>The files other than those in \<open>ps\<close> stay, and so do the locks; no fault comes from nowhere.\<close>

definition only_files :: "path set \<Rightarrow> host \<Rightarrow> host \<Rightarrow> bool" where
  "only_files ps h h' \<longleftrightarrow> bt_ok (files h) \<longrightarrow> bt_ok (files h') \<and> locks h' = locks h
     \<and> (io_faults h = [] \<and> \<not> dead h \<longrightarrow> io_faults h' = [] \<and> \<not> dead h')
     \<and> (\<forall>p. p \<notin> ps \<longrightarrow> file_at h' p = file_at h p)"

lemma only_files_refl [simp]: "only_files ps h h"
  by (simp add: only_files_def)

lemma only_files_trans: "only_files ps h h1 \<Longrightarrow> only_files ps h1 h2 \<Longrightarrow> only_files ps h h2"
  by (simp add: only_files_def)

lemma only_files_mono: "only_files ps h h1 \<Longrightarrow> ps \<subseteq> qs \<Longrightarrow> only_files qs h h1"
  by (auto simp: only_files_def)

lemma take_fault_cases:
  assumes "take_fault h = (x, h')"
  shows "files h' = files h \<and> locks h' = locks h \<and> (dead h \<longrightarrow> h' = h \<and> x \<noteq> None)
    \<and> (io_faults h = [] \<and> \<not> dead h \<longrightarrow> x = None \<and> h' = h)"
  using assms by (auto simp: take_fault_def split: if_splits list.splits io_fault.splits)

lemma file_op_cases:
  assumes "file_op check done broken h = (r, h')"
  obtains (fails) n h1 where "take_fault h = (Some n, h1)" "r = Inl Io" "h' = (if dead h then h1 else broken n h1)"
  | (refused) e h1 where "take_fault h = (None, h1)" "check h1 = Inl e" "r = Inl e" "h' = h1"
  | (works) a h1 where "take_fault h = (None, h1)" "check h1 = Inr a" "r = Inr a" "h' = done h1"
  using assms by (auto simp: file_op_def split: prod.splits option.splits sum.splits)

lemma set_file_simps [simp]:
  "locks (set_file p b h) = locks h" "io_faults (set_file p b h) = io_faults h" "dead (set_file p b h) = dead h"
  "files (set_file p b h) = bt_put p b (files h)"
  by (simp_all add: set_file_def)

lemma only_files_set [simp]: "p \<in> ps \<Longrightarrow> only_files ps h (set_file p b h)"
  by (auto simp: only_files_def)

text \<open>An operation relates every host to the one it leaves.\<close>

definition io_rel :: "(host \<Rightarrow> host \<Rightarrow> bool) \<Rightarrow> 'a io \<Rightarrow> bool" where
  "io_rel R m \<longleftrightarrow> (\<forall>h. R h (snd (m h)))"

abbreviation io_keeps :: "path set \<Rightarrow> 'a io \<Rightarrow> bool" where
  "io_keeps ps \<equiv> io_rel (only_files ps)"

lemma io_relD: "io_rel R m \<Longrightarrow> m h = (r, h') \<Longrightarrow> R h h'"
  unfolding io_rel_def by (metis snd_conv)

lemmas io_keepsD = io_relD[of "only_files ps" for ps]

lemma io_rel_op:
  assumes "transp R" "\<And>h x h1. take_fault h = (x, h1) \<Longrightarrow> R h h1" "\<And>g. R g (done g)" "\<And>n g. R g (broken n g)"
  shows "io_rel R (file_op check done broken)"
  unfolding io_rel_def
proof
  fix h
  obtain r h' where run: "file_op check done broken h = (r, h')" by force
  then have "R h h'"
    using assms(2) transpD[OF assms(1) assms(2) assms(3)] transpD[OF assms(1) assms(2) assms(4)]
    by (cases rule: file_op_cases) (auto split: if_splits)
  with run show "R h (snd (file_op check done broken h))" by simp
qed

lemma io_keeps_op:
  assumes "\<And>g. only_files ps g (done g)" "\<And>n g. only_files ps g (broken n g)"
  shows "io_keeps ps (file_op check done broken)"
proof (rule io_rel_op)
  show "transp (only_files ps)" by (blast intro: transpI only_files_trans)
  show "only_files ps h h1" if "take_fault h = (x, h1)" for h x h1
    using take_fault_cases[OF that] by (auto simp: only_files_def)
qed (rule assms)+

lemma io_bind_iff:
  "io_bind m f h = (r, h') \<longleftrightarrow> (\<exists>e. m h = (Inl e, h') \<and> r = Inl e) \<or> (\<exists>a h1. m h = (Inr a, h1) \<and> f a h1 = (r, h'))"
  by (auto simp: io_bind_def split: prod.splits sum.splits)

lemma io_bind_Inr_iff:
  "io_bind m f h = (Inr b, h') \<longleftrightarrow> (\<exists>a h1. m h = (Inr a, h1) \<and> f a h1 = (Inr b, h'))"
  by (simp add: io_bind_iff)

lemma io_rel_bind:
  assumes "transp R" "io_rel R m" "\<And>a. io_rel R (f a)"
  shows "io_rel R (io_bind m f)"
  unfolding io_rel_def
proof
  fix h
  obtain r h' where run: "io_bind m f h = (r, h')" by force
  then have "snd (io_bind m f h) = h'" by simp
  with run show "R h (snd (io_bind m f h))"
    using assms(2,3) by (auto simp: io_bind_iff dest: io_relD intro: transpD[OF assms(1)])
qed

lemma io_keeps_bind:
  "io_keeps ps m \<Longrightarrow> (\<And>a. io_keeps ps (f a)) \<Longrightarrow> io_keeps ps (io_bind m f)"
  by (rule io_rel_bind) (blast intro: transpI only_files_trans)+

lemma io_keeps_simps [simp]:
  "io_keeps ps (io_lift r)" "io_keeps ps (touch_op p)" "io_keeps ps (read_file p)"
  "p \<in> ps \<Longrightarrow> io_keeps ps (create_new p)" "p \<in> ps \<Longrightarrow> io_keeps ps (append_file p b)"
  "q \<in> ps \<Longrightarrow> io_keeps ps (hard_link p q)" "p \<in> ps \<Longrightarrow> io_keeps ps (remove_file p)"
  unfolding touch_op_def read_file_def create_new_def append_file_def hard_link_def remove_file_def
       apply (simp add: io_rel_def io_lift_def)
      apply (rule io_keeps_op; simp add: only_files_def)+
  done

lemma io_keeps_chunks: "io_keeps {p} (write_chunks p cs)"
  by (induction p cs rule: write_chunks.induct) (auto intro: io_keeps_bind)

subsection \<open>What the partial file holds\<close>

lemma create_new_Inr: "create_new p h = (Inr u, h') \<Longrightarrow> bt_ok (files h) \<Longrightarrow> file_at h p = None \<and> file_at h' p = Some []"
  unfolding create_new_def by (erule file_op_cases) (auto dest: take_fault_cases split: if_splits)

lemma append_file_Inr:
  "append_file p b h = (Inr u, h') \<Longrightarrow> bt_ok (files h) \<Longrightarrow> file_at h p = Some c \<Longrightarrow> file_at h' p = Some (c @ b)"
  unfolding append_file_def by (erule file_op_cases) (auto simp: contents_def dest: take_fault_cases)

lemma touch_op_files: "touch_op p h = (r, h') \<Longrightarrow> files h' = files h"
  unfolding touch_op_def by (erule file_op_cases) (auto dest: take_fault_cases split: if_splits)

lemma read_file_Inr: "read_file p h = (Inr b, h') \<Longrightarrow> files h' = files h \<and> file_at h p = Some b"
  unfolding read_file_def by (erule file_op_cases) (auto dest: take_fault_cases split: option.splits)

lemma hard_link_cases:
  assumes "hard_link p q h = (r, h')" "bt_ok (files h)"
  shows "(\<exists>e. r = Inl e) \<and> files h' = files h
    \<or> r = Inr () \<and> file_at h q = None \<and> file_at h' q = file_at h p \<and> file_at h p \<noteq> None"
  using assms unfolding hard_link_def
  by (elim file_op_cases) (auto simp: contents_def dest: take_fault_cases split: if_splits option.splits)

lemma write_chunks_Inr:
  "write_chunks p cs h = (Inr u, h') \<Longrightarrow> bt_ok (files h) \<Longrightarrow> file_at h p = Some c \<Longrightarrow>
    file_at h' p = Some (c @ concat (map the cs)) \<and> None \<notin> set cs"
proof (induction p cs arbitrary: h c rule: write_chunks.induct)
  case (3 p b cs)
  from 3(2) obtain h1 v where h1: "append_file p b h = (Inr v, h1)" "write_chunks p cs h1 = (Inr u, h')"
    by (auto simp: io_bind_iff)
  from append_file_Inr[OF h1(1) 3(3,4)] io_keepsD[OF io_keeps_simps(5)[of p "{p}"] h1(1)] 3(1)[OF h1(2)] 3(3)
  show ?case by (auto simp: only_files_def)
qed (auto simp: io_lift_def)

subsection \<open>A download publishes a verified backup or nothing\<close>

lemma io_lift_iff [simp]: "io_lift x h = (r, h') \<longleftrightarrow> x = r \<and> h' = h"
  by (auto simp: io_lift_def)

lemma receive_keeps: "io_keeps {t} (receive t body)"
  unfolding receive_def by (intro io_keeps_bind io_keeps_chunks) simp_all

lemma receive_Inr:
  assumes "receive t body h = (Inr c, h')" "bt_ok (files h)"
  shows "c = concat (map the body) \<and> file_at h' t = Some c \<and> None \<notin> set body"
proof -
  from assms(1) obtain u1 h1 u2 h2 u3 h3 u4 h4 where
    run: "create_new t h = (Inr u1, h1)" "write_chunks t body h1 = (Inr u2, h2)" "touch_op t h2 = (Inr u3, h3)"
      "touch_op t h3 = (Inr u4, h4)" "read_file t h4 = (Inr c, h')"
    by (auto simp: receive_def io_bind_iff)
  have "bt_ok (files h1)"
    using io_keepsD[OF io_keeps_simps(4)[of t "{t}"] run(1)] assms(2) by (simp add: only_files_def)
  with write_chunks_Inr[OF run(2), of "[]"] create_new_Inr[OF run(1) assms(2)]
    touch_op_files[OF run(3)] touch_op_files[OF run(4)] read_file_Inr[OF run(5)] show ?thesis by simp
qed

text \<open>What is known of the output after a download; the body was received whole.\<close>

definition published :: "(bytes \<Rightarrow> bytes) \<Rightarrow> bytes option list option \<Rightarrow> path \<Rightarrow> host \<Rightarrow> host \<Rightarrow> bool" where
  "published sha reply out h h' \<longleftrightarrow> file_at h out = None
     \<and> (\<exists>s body. reply = Some (map Some body) \<and> concat body = export_file sha s \<and> backup_rows s
         \<and> file_at h' out = Some (export_file sha s))"

lemma download_to_outcome:
  assumes "download_to sha client fetch parent t url out token h = (r, h')" "bt_ok (files h)" "t \<noteq> out"
  shows "only_files {t, out} h h' \<and> (r \<noteq> Inr () \<and> file_at h' out = file_at h out
    \<or> published sha (fetch (trim_slashes url @ ''/v1/export'') token) out h h')"
proof -
  let ?reply = "fetch (trim_slashes url @ ''/v1/export'') token"
  show ?thesis
  proof (cases "client \<and> ?reply \<noteq> None")
    case False
    with assms(1) show ?thesis by (auto simp: download_to_def io_bind_iff split: if_splits)
  next
    case True
    then obtain body where body: "?reply = Some body" by blast
    obtain c h1 where rc: "receive t body h = (c, h1)" by force
    note k1 = io_keepsD[OF receive_keeps rc]
    then have same: "file_at h1 out = file_at h out" and ok: "bt_ok (files h1)" and k: "only_files {t, out} h h1"
      using assms(2,3) by (auto simp: only_files_def)
    show ?thesis
    proof (cases "\<exists>b. c = Inr b \<and> verify sha b = Inr ()")
      case False
      with assms(1) True body rc same k show ?thesis by (auto simp: download_to_def io_bind_iff)
    next
      case True
      then obtain b where b: "c = Inr b" "verify sha b = Inr ()" by blast
      obtain l h2 where link: "hard_link t out h1 = (l, h2)" by force
      note k2 = io_keepsD[OF io_keeps_simps(6)[of out "{t, out}" t] link, simplified]
      from receive_Inr[OF rc[unfolded b(1)] assms(2)] have
        r: "b = concat (map the body)" "file_at h1 t = Some b" "None \<notin> set body" by simp_all
      obtain s where s: "b = export_file sha s" "backup_rows s" using verify_Inr_rows[OF b(2)] by blast
      have run: "l = Inr () \<and> touch_op parent h2 = (r, h') \<or> (\<exists>e. l = Inl e \<and> r = Inl e \<and> h' = h2)"
        using assms(1) \<open>client \<and> ?reply \<noteq> None\<close> body rc b link by (auto simp: download_to_def io_bind_iff)
      from hard_link_cases[OF link ok] show ?thesis
      proof (elim disjE exE conjE)
        fix e
        assume "l = Inl e" "files h2 = files h1"
        with run same only_files_trans[OF k k2] show ?thesis by auto
      next
        assume l: "l = Inr ()" "file_at h1 out = None" "file_at h2 out = file_at h1 t"
        then have t: "touch_op parent h2 = (r, h')" using run by simp
        have "map (Some \<circ> the) body = body" using r(3) by (intro map_idI) (auto simp: comp_def, metis option.exhaust_sel)
        then have "body = map Some (map the body)" by simp
        then have "published sha ?reply out h h'"
          using l same r s touch_op_files[OF t] body unfolding published_def by (intro conjI) (auto intro!: exI[of _ s] exI[of _ "map the body"])
        moreover have "only_files {t, out} h h'"
          using only_files_trans[OF only_files_trans[OF k k2] io_keepsD[OF io_keeps_simps(2) t]] .
        ultimately show ?thesis by simp
      qed
    qed
  qed
qed

text \<open>C18: A download publishes a verified backup or nothing. Whatever the server sends and whichever file
  operation fails, or the process is killed at, no file but the output and the partial file
  changes; the output appears only if it did not exist, and then it is the whole body received
  and, byte for byte, the export of a complete database; an existing output is never touched and
  success is reported only when the output was published. Without a fault the partial file is gone.\<close>
theorem download_publishes_verified:
  assumes "download sha client fetch unique url out token h = (r, h')" "bt_ok (files h)"
    "out \<noteq> output_dir out @ [partial_name unique]"
  shows "(\<forall>p. p \<noteq> out \<and> p \<noteq> output_dir out @ [partial_name unique] \<longrightarrow> file_at h' p = file_at h p)
    \<and> (r \<noteq> Inr () \<and> file_at h' out = file_at h out
       \<or> file_at h out = None \<and> (\<exists>s body. fetch (trim_slashes url @ ''/v1/export'') token = Some (map Some body)
           \<and> concat body = export_file sha s \<and> backup_rows s \<and> file_at h' out = Some (export_file sha s)))
    \<and> (io_faults h = [] \<and> \<not> dead h \<longrightarrow> file_at h' (output_dir out @ [partial_name unique]) = None)"
proof -
  let ?t = "output_dir out @ [partial_name unique]"
  obtain h1 where h1: "download_to sha client fetch (output_dir out) ?t url out token h = (r, h1)"
    "h' = snd (remove_file ?t h1)" using assms(1) by (auto simp: download_def Let_def split: prod.splits)
  obtain x where rem: "remove_file ?t h1 = (x, h')" using h1(2) by (metis prod.collapse)
  note out = download_to_outcome[OF h1(1) assms(2) assms(3)[symmetric]]
  then have k1: "only_files {?t, out} h h1" by simp
  then have ok: "bt_ok (files h1)" using assms(2) by (simp add: only_files_def)
  have k2: "only_files {?t} h1 h'" using io_keepsD[OF io_keeps_simps(7) rem] by simp
  then have same: "file_at h' out = file_at h1 out" using ok assms(3) by (auto simp: only_files_def)
  have "file_at h' ?t = None" if "io_faults h = []" "\<not> dead h"
  proof -
    have "io_faults h1 = []" "\<not> dead h1" using k1 assms(2) that by (simp_all add: only_files_def)
    with rem ok show ?thesis
      by (auto simp: remove_file_def file_op_def take_fault_def split: sum.splits if_splits)
  qed
  moreover have "only_files {?t, out} h h'"
    using only_files_trans[OF k1 only_files_mono[OF k2]] by simp
  ultimately show ?thesis
    using out assms(2) by (auto simp: same published_def only_files_def)
qed

lemma file_op_reliable:
  "io_faults h = [] \<Longrightarrow> \<not> dead h \<Longrightarrow> file_op check done broken h = (case check h of Inl e \<Rightarrow> (Inl e, h) | Inr a \<Rightarrow> (Inr a, done h))"
  by (simp add: file_op_def take_fault_def)

lemma write_chunks_reliable:
  assumes "io_faults h = []" "\<not> dead h" "bt_ok (files h)" "file_at h p = Some c"
  shows "\<exists>h'. write_chunks p (map Some body) h = (Inr (), h') \<and> io_faults h' = [] \<and> \<not> dead h'"
  using assms
proof (induction body arbitrary: h c)
  case (Cons b body)
  have "append_file p b h = (Inr (), set_file p (c @ b) h)"
    using Cons.prems by (simp add: append_file_def file_op_reliable contents_def)
  moreover from Cons.IH[of "set_file p (c @ b) h" "c @ b"] Cons.prems
  have "\<exists>h'. write_chunks p (map Some body) (set_file p (c @ b) h) = (Inr (), h') \<and> io_faults h' = [] \<and> \<not> dead h'" by simp
  ultimately show ?case by (auto simp: io_bind_def)
qed simp

lemma receive_reliable:
  assumes "io_faults h = []" "\<not> dead h" "bt_ok (files h)" "file_at h t = None" "t \<noteq> []"
  shows "\<exists>h'. receive t (map Some body) h = (Inr (concat body), h') \<and> io_faults h' = [] \<and> \<not> dead h'"
proof -
  have c: "create_new t h = (Inr (), set_file t [] h)"
    using assms by (simp add: create_new_def file_op_reliable)
  from write_chunks_reliable[of "set_file t [] h" t "[]" body] assms obtain h' where
    w: "write_chunks t (map Some body) (set_file t [] h) = (Inr (), h')" "io_faults h' = []" "\<not> dead h'" by auto
  have "file_at h' t = Some (concat (map the (map Some body)))"
    using write_chunks_Inr[OF w(1), of "[]"] assms(3) by auto
  then have "file_at h' t = Some (concat body)" by (simp add: comp_def)
  with c w assms(5) show ?thesis
    by (simp add: receive_def io_bind_def touch_op_def read_file_def file_op_reliable)
qed

text \<open>Known defect: a backup written to a bare file name is reported as failed. The parent of a
  one-component relative path is the empty path, which cannot be opened to be synced; so with no
  fault at all the verified backup is published under the name asked for, and the command still
  ends in an I/O error (and trying again ends in one too, because the output now exists).\<close>
theorem bare_output_reported_failed:
  assumes "io_faults h = []" "\<not> dead h" "bt_ok (files h)" "\<forall>b. length (sha b) = 32" "backup_rows s"
    "fetch (trim_slashes url @ ''/v1/export'') token = Some (map Some body)" "concat body = export_file sha s"
    "file_at h [partial_name unique] = None" "file_at h [name] = None" "name \<noteq> ''/''" "name \<noteq> partial_name unique"
  shows "\<exists>h'. download sha True fetch unique url [name] token h = (Inl Io, h')
    \<and> file_at h' [name] = Some (export_file sha s)"
proof -
  let ?t = "[partial_name unique]"
  have dir: "output_dir [name] = []" using assms(10) by (simp add: output_dir_def path_parent_def)
  from receive_reliable[of h ?t body] assms obtain h1 where
    h1: "receive ?t (map Some body) h = (Inr (concat body), h1)" "io_faults h1 = []" "\<not> dead h1" by auto
  have keep: "only_files {?t} h h1" by (rule io_keepsD[OF receive_keeps h1(1)])
  then have ok: "bt_ok (files h1)" and new: "file_at h1 [name] = None"
    using assms(3,9,11) by (auto simp: only_files_def)
  have t: "file_at h1 ?t = Some (export_file sha s)"
    using receive_Inr[OF h1(1) assms(3)] assms(7) by simp
  have "verify sha (concat body) = Inr ()" using verify_export[OF assms(4,5)] assms(7) by simp
  then have "download_to sha True fetch [] ?t url [name] token h = (Inl Io, set_file [name] (export_file sha s) h1)"
    using h1 t new assms(6)
    by (simp add: download_to_def io_bind_def io_lift_def hard_link_def touch_op_def file_op_reliable contents_def)
  then show ?thesis
    using h1(2,3) ok t assms(11)
    by (simp add: download_def dir Let_def remove_file_def file_op_reliable)
qed

text \<open>With a directory to sync and nothing failing, the download succeeds.\<close>

lemma download_reliable:
  assumes "io_faults h = []" "\<not> dead h" "bt_ok (files h)" "verify sha (concat body) = Inr ()"
    "fetch (trim_slashes url @ ''/v1/export'') token = Some (map Some body)"
    "file_at h (output_dir out @ [partial_name unique]) = None" "file_at h out = None" "out \<noteq> output_dir out @ [partial_name unique]"
    "output_dir out \<noteq> []" "out \<noteq> []"
  obtains h' where "download sha True fetch unique url out token h = (Inr (), h')" "file_at h' out = Some (concat body)"
    "io_faults h' = []" "\<not> dead h'" "bt_ok (files h')" "locks h' = locks h"
proof -
  let ?t = "output_dir out @ [partial_name unique]"
  from receive_reliable[of h ?t body] assms(1-3,6) obtain h1 where
    h1: "receive ?t (map Some body) h = (Inr (concat body), h1)" "io_faults h1 = []" "\<not> dead h1" by auto
  have keep: "only_files {?t} h h1" by (rule io_keepsD[OF receive_keeps h1(1)])
  then have ok: "bt_ok (files h1)" "locks h1 = locks h" and new: "file_at h1 out = None"
    using assms(3,7,8) by (auto simp: only_files_def)
  have t: "file_at h1 ?t = Some (concat body)" using receive_Inr[OF h1(1) assms(3)] by simp
  have "download_to sha True fetch (output_dir out) ?t url out token h = (Inr (), set_file out (concat body) h1)"
    using h1 t new assms(4,5,9,10)
    by (simp add: download_to_def io_bind_def io_lift_def hard_link_def touch_op_def file_op_reliable contents_def)
  then have "download sha True fetch unique url out token h =
      (Inr (), (set_file out (concat body) h1)\<lparr>files := bt_del ?t (bt_put out (concat body) (files h1))\<rparr>)"
    using h1(2,3) ok t assms(8) by (simp add: download_def Let_def remove_file_def file_op_reliable)
  then show thesis by (rule that) (use h1 ok assms(8) in auto)
qed

subsection \<open>Concrete instances\<close>

definition empty_host :: host where
  "empty_host = \<lparr>files = [], locks = [], io_faults = [], dead = False\<rparr>"

definition small_backup :: store where
  "small_backup = [(FORMAT_KEY, FORMAT), (''n/a'', ''x'')]"

lemma small_backup_rows: "backup_rows small_backup"
  by (simp add: backup_rows_def record_ok_def small_backup_def FORMAT_KEY_def FORMAT_def MAX_RECORD_def)

abbreviation sample_fetch :: fetch where
  "sample_fetch \<equiv> (\<lambda>_ _. Some (map Some [export_file sample_sha small_backup]))"

theorem bare_output_reported_failed_witness:
  "\<exists>h'. download sample_sha True sample_fetch ''u'' ''http://w/'' [''b.gmb''] None empty_host = (Inl Io, h')
    \<and> file_at h' [''b.gmb''] = Some (export_file sample_sha small_backup)"
  using bare_output_reported_failed[of empty_host sample_sha small_backup sample_fetch "''http://w/''" None
      "[export_file sample_sha small_backup]" "''u''" "''b.gmb''"] small_backup_rows
  by (simp add: empty_host_def partial_name_def)

text \<open>Whatever fails, a file that already has the name is left alone.\<close>

theorem download_publishes_verified_witness:
  "\<forall>faults. file_at (snd (download sample_sha True sample_fetch ''u'' ''http://w/'' [''.'', ''b.gmb''] None
    (empty_host\<lparr>files := [([''.'', ''b.gmb''], ''old'')], io_faults := faults\<rparr>))) [''.'', ''b.gmb''] = Some ''old''"
proof
  fix faults
  let ?h = "empty_host\<lparr>files := [([''.'', ''b.gmb''], ''old'')], io_faults := faults\<rparr>"
  obtain r h' where run: "download sample_sha True sample_fetch ''u'' ''http://w/'' [''.'', ''b.gmb''] None ?h = (r, h')" by force
  have dir: "output_dir [''.'', ''b.gmb''] = [''.'']" by (simp add: output_dir_def path_parent_def)
  have "file_at ?h [''.'', ''b.gmb''] = Some ''old''" "bt_ok (files ?h)" by (simp_all add: empty_host_def)
  with download_publishes_verified[OF run] have "file_at h' [''.'', ''b.gmb''] = Some ''old''"
    by (auto simp: dir partial_name_def)
  then show "file_at (snd (download sample_sha True sample_fetch ''u'' ''http://w/''
      [''.'', ''b.gmb''] None ?h)) [''.'', ''b.gmb''] = Some ''old''"
    by (simp only: run snd_conv)
qed

end
