(* ===== verification/Lifecycle.thy ===== *)
theory Lifecycle
  imports Backup Deletion
begin

section \<open>Opening a database (engine.rs) and migrating a v1 one (backup.rs)\<close>

text \<open>
  The row \<open>meta/format\<close> says what a database is: complete, being migrated, being restored,
  or not one at all. \<open>initialize_format\<close> decides on it when the engine opens, before
  interrupted deletions are resumed. \<open>migrate_v1\<close> moves vectors out of the documents of a v1
  database and writes change records and counters, in batches of 128 documents.
\<close>

definition V1_FORMAT :: bytes where "V1_FORMAT = ''gengis-mimi:1''"
definition MIGRATING :: bytes where "MIGRATING = ''gengis-mimi:migrating:1:2''"
definition RESTORING :: bytes where "RESTORING = ''gengis-mimi:restoring:2''"

lemma formats_differ [simp]:
  "FORMAT \<noteq> V1_FORMAT" "FORMAT \<noteq> MIGRATING" "FORMAT \<noteq> RESTORING" "RESTORING \<noteq> FORMAT"
  "RESTORING \<noteq> V1_FORMAT" "RESTORING \<noteq> MIGRATING" "V1_FORMAT \<noteq> FORMAT" "MIGRATING \<noteq> FORMAT"
  by (simp_all add: FORMAT_def V1_FORMAT_def MIGRATING_def RESTORING_def)

subsection \<open>Migration\<close>

text \<open>One document: its vector moves to a row of its own, or is already there.\<close>

definition migrate_vector ::
  "ext \<Rightarrow> namespace \<Rightarrow> store \<Rightarrow> document \<Rightarrow> stats \<times> batch \<Rightarrow> (stats \<times> batch) result"
where
  "migrate_vector X ns s doc acc =
     (let (st, b) = acc; key = vector_key (ns_name ns) (doc_id doc) in
      case vector doc of
        Some v \<Rightarrow> rbind (validate_vector (ns_conf ns) v) (\<lambda>_.
          let encoded = encode_vector (crc32 X) v in
          Inr (st\<lparr>stat_bytes := stat_bytes st + of_nat (length encoded)\<rparr>, b @ [Put key encoded]))
      | None \<Rightarrow> (case bt_get s key of
            Some encoded \<Rightarrow> Inr (st\<lparr>stat_bytes := stat_bytes st + of_nat (length encoded)\<rparr>, b)
          | None \<Rightarrow> Inr (st, b)))"

definition migrate_row ::
  "ext \<Rightarrow> namespace \<Rightarrow> store \<Rightarrow> string \<times> bytes \<Rightarrow> stats \<times> batch \<Rightarrow> (stats \<times> batch) result"
where
  "migrate_row X ns s rw acc =
     rbind (ok_or Encoding (dec_doc X (snd rw))) (\<lambda>doc.
     rbind (migrate_vector X ns s doc acc) (\<lambda>(st, b).
       let encoded = enc_doc X (doc\<lparr>vector := None\<rparr>) in
       Inr (st\<lparr>stat_bytes := stat_bytes st + of_nat (length encoded), documents := documents st + 1,
               pending_documents := pending_documents st + 1\<rparr>,
            b @ [Put (document_key (ns_name ns) (doc_id doc)) encoded,
                 Put (change_key (ns_name ns) (doc_id doc)) (u64_to_le 1)])))"

fun migrate_rows ::
  "ext \<Rightarrow> namespace \<Rightarrow> (string \<times> bytes) list \<Rightarrow> stats \<times> batch \<Rightarrow> nat \<Rightarrow> (stats \<times> batch) act"
where
  "migrate_rows X ns [] acc count = act_ret acc"
| "migrate_rows X ns (rw # rows) acc count =
     act_bind (act_read (\<lambda>s. migrate_row X ns s rw acc)) (\<lambda>(st, b).
       if count + 1 = 128
       then act_bind (commit b) (\<lambda>_. migrate_rows X ns rows (st, []) 0)
       else migrate_rows X ns rows (st, b) (count + 1))"

definition migrate_namespace :: "ext \<Rightarrow> string \<times> bytes \<Rightarrow> unit act" where
  "migrate_namespace X rw =
     act_bind (act_lift (ok_or Encoding (dec_ns X (snd rw)))) (\<lambda>ns.
     act_bind (act_read (\<lambda>s. Inr (scan_prefix (document_prefix (ns_name ns)) s))) (\<lambda>docs.
     act_bind (migrate_rows X ns docs (default_stats\<lparr>revision := 1\<rparr>, []) 0) (\<lambda>(st, b).
     act_bind (commit (b @ [Put (stats_key (ns_name ns)) (enc_stats X st)])) (\<lambda>_. act_ret ()))))"

definition migrate_v1 :: "ext \<Rightarrow> unit act" where
  "migrate_v1 X =
     act_bind (commit [Put FORMAT_KEY MIGRATING]) (\<lambda>_.
     act_bind (act_read (\<lambda>s. Inr (scan_prefix ''n/'' s))) (\<lambda>rows.
     act_bind (act_for (migrate_namespace X) rows) (\<lambda>_.
     act_bind (commit [Put FORMAT_KEY FORMAT]) (\<lambda>_. act_ret ()))))"

subsection \<open>Opening\<close>

definition initialize_format :: "ext \<Rightarrow> bool \<Rightarrow> unit act" where
  "initialize_format X allowed =
     act_bind (act_read (\<lambda>s. Inr (bt_get s FORMAT_KEY))) (\<lambda>found. case found of
         Some v \<Rightarrow>
           if v = FORMAT then act_ret ()
           else if (v = V1_FORMAT \<or> v = MIGRATING) \<and> allowed then migrate_v1 X
           else act_fail (Config ''unsupported storage format; use the migrate command for a v1 database'')
       | None \<Rightarrow>
           act_bind (act_read (\<lambda>s. Inr s)) (\<lambda>existing.
             if existing \<noteq> []
             then act_fail (Config ''database prefix contains an unrecognized keyspace'')
             else act_bind (commit [Put FORMAT_KEY FORMAT]) (\<lambda>_. act_ret ())))"

text \<open>The part of \<open>open_inner\<close> after the database is built.\<close>

definition open_engine :: "ext \<Rightarrow> bool \<Rightarrow> unit act" where
  "open_engine X allowed = act_bind (initialize_format X allowed) (\<lambda>_. resume_all_deletions)"

subsection \<open>What opening decides\<close>

text \<open>Every action leaves an ordered store behind.\<close>

definition stays_ordered :: "store \<Rightarrow> store \<Rightarrow> bool" where
  "stays_ordered s t \<longleftrightarrow> (bt_ok s \<longrightarrow> bt_ok t)"

lemma stays_ordered_order [simp]: "reflp stays_ordered" "transp stays_ordered"
  by (auto simp: stays_ordered_def reflp_def transp_def)

lemma keeps_pure [simp]: "reflp R \<Longrightarrow> keeps R (act_ret a)" "reflp R \<Longrightarrow> keeps R (act_read f)"
  "reflp R \<Longrightarrow> keeps R (act_lift x)" "reflp R \<Longrightarrow> keeps R (act_fail e)"
  by (auto simp: keeps_def reflp_def)

lemma keeps_for:
  assumes "reflp R" "transp R" "\<And>x. x \<in> set xs \<Longrightarrow> keeps R (f x)"
  shows "keeps R (act_for f xs)"
  using assms(3) by (induction xs) (auto intro!: keeps_bind[OF assms(2)] simp: assms(1) simp del: act_simps)

lemma ordered_commit [simp]: "keeps stays_ordered (commit b)"
  by (rule keeps_commit) (simp_all add: stays_ordered_def)

lemma ordered_migrate_rows: "keeps stays_ordered (migrate_rows X ns rows acc count)"
  by (induction rows arbitrary: acc count)
    (auto intro!: keeps_bind simp del: act_simps split: prod.split)

lemma ordered_migrate_namespace: "keeps stays_ordered (migrate_namespace X rw)"
  unfolding migrate_namespace_def
  by (intro keeps_bind stays_ordered_order keeps_pure ordered_migrate_rows) (auto intro!: keeps_bind simp del: act_simps)

lemma keepsD: "keeps R m \<Longrightarrow> m d = (r, d') \<Longrightarrow> R (kv d) (kv d')"
  by (auto simp: keeps_def)

lemma commit_format: "commit [Put FORMAT_KEY v] d = (Inr q, d') \<Longrightarrow> bt_ok (kv d) \<Longrightarrow> bt_get (kv d') FORMAT_KEY = Some v"
  by (auto dest!: commit_Inr)

lemma migrate_v1_format:
  assumes "migrate_v1 X d = (Inr (), d')" "bt_ok (kv d)"
  shows "bt_get (kv d') FORMAT_KEY = Some FORMAT"
proof -
  from assms(1) obtain rows q d1 d2 q' where d: "commit [Put FORMAT_KEY MIGRATING] d = (Inr q, d1)"
    "act_for (migrate_namespace X) rows d1 = (Inr (), d2)" "commit [Put FORMAT_KEY FORMAT] d2 = (Inr q', d')"
    by (auto simp: migrate_v1_def act_bind_Inr_iff)
  have "keeps stays_ordered (act_for (migrate_namespace X) rows)"
    by (intro keeps_for stays_ordered_order ordered_migrate_namespace)
  from keepsD[OF this d(2)] keepsD[OF ordered_commit d(1)] assms(2)
  have "bt_ok (kv d2)" by (simp add: stays_ordered_def)
  with commit_format[OF d(3)] show ?thesis by simp
qed

text \<open>C32: Opening decides by the format row. A store that is not empty and not a complete v2
  database (with migration allowed, also not a v1 one or an interrupted migration) is refused
  with a configuration error and left as it was; so a half-restored database or a foreign
  keyspace is never served or changed. If initialisation succeeds, the format row is v2.\<close>
theorem open_decides_by_format:
  assumes "bt_ok (kv d)"
  shows "(if kv d = [] \<or> bt_get (kv d) FORMAT_KEY = Some FORMAT
            \<or> (allowed \<and> bt_get (kv d) FORMAT_KEY \<in> {Some V1_FORMAT, Some MIGRATING})
          then \<forall>d'. initialize_format X allowed d = (Inr (), d') \<longrightarrow> bt_get (kv d') FORMAT_KEY = Some FORMAT
          else \<exists>m. open_engine X allowed d = (Inl (Config m), d))"
proof (cases "kv d = [] \<or> bt_get (kv d) FORMAT_KEY = Some FORMAT
    \<or> (allowed \<and> bt_get (kv d) FORMAT_KEY \<in> {Some V1_FORMAT, Some MIGRATING})")
  case False
  then have "\<exists>m. initialize_format X allowed d = (Inl (Config m), d)"
    by (cases "bt_get (kv d) FORMAT_KEY") (auto simp: initialize_format_def act_bind_def)
  with False show ?thesis by (auto simp: open_engine_def act_bind_def)
next
  case True
  have "bt_get (kv d') FORMAT_KEY = Some FORMAT" if "initialize_format X allowed d = (Inr (), d')" for d'
  proof (cases "bt_get (kv d) FORMAT_KEY")
    case None
    with that obtain q where "commit [Put FORMAT_KEY FORMAT] d = (Inr q, d')"
      by (auto simp: initialize_format_def act_bind_Inr_iff split: if_splits)
    then show ?thesis using assms by (rule commit_format)
  next
    case (Some v)
    with that have "v = FORMAT \<and> d' = d \<or> migrate_v1 X d = (Inr (), d')"
      by (auto simp: initialize_format_def act_bind_Inr_iff split: if_splits)
    with Some migrate_v1_format[OF _ assms] show ?thesis by auto
  qed
  with True show ?thesis by simp
qed

theorem open_decides_by_format_witness:
  "\<forall>X. \<exists>m. open_engine X True \<lparr>kv = [(''x'', ''y'')], seqno = 0, closed = False, faults = []\<rparr>
    = (Inl (Config m), \<lparr>kv = [(''x'', ''y'')], seqno = 0, closed = False, faults = []\<rparr>)"
  using open_decides_by_format[of "\<lparr>kv = [(''x'', ''y'')], seqno = 0, closed = False, faults = []\<rparr>" True]
  by (simp add: FORMAT_KEY_def)

end
