(* ===== verification/Assembly.thy ===== *)
theory Assembly
  imports Files Lifecycle Index
begin

section \<open>Assembling and closing an engine (engine.rs)\<close>

text \<open>
  \<open>Engine::open\<close> validates the configuration, locks the data directory, locks the cache
  directory and ties it to one storage location and prefix, builds the database, and decides on
  its format. The operating system and the S3 client are parameters (\<open>platform\<close>): where a
  path leads, the endpoint in the environment, whether the client and the database can be built.
\<close>

datatype storage_identity = LocalId path | S3Id string string "string option"

record platform =
  canon :: "string \<Rightarrow> path option"
  display :: "path \<Rightarrow> string"
  env_endpoint :: "string option"
  s3_built :: bool
  db_built :: bool
  identity_json :: "storage_identity \<times> string \<Rightarrow> bytes"
  parse_worker :: "string \<Rightarrow> string + url"

record engine =
  database_identity :: string
  engine_locks :: "path list"

subsection \<open>The operations\<close>

definition lock_name :: string where "lock_name = ''.gengis-mimi.lock''"
definition identity_name :: string where "identity_name = ''gengis-mimi-cache.json''"

definition make_dirs :: "unit io" where
  "make_dirs = file_op (\<lambda>_. Inr ()) (\<lambda>h. h) (\<lambda>_ h. h)"

definition open_create :: "path \<Rightarrow> unit io" where
  "open_create p = file_op (\<lambda>_. Inr ()) (\<lambda>h. if file_at h p = None then set_file p [] h else h) (\<lambda>_ h. h)"

definition try_lock :: "path \<Rightarrow> string \<Rightarrow> unit io" where
  "try_lock p shown h =
     (if p \<in> set (locks h) then (Inl (Config (''cannot exclusively lock directory '' @ shown)), h)
      else (Inr (), h\<lparr>locks := p # locks h\<rparr>))"

definition lock_directory :: "path \<Rightarrow> string \<Rightarrow> unit io" where
  "lock_directory p shown = io_bind (open_create (p @ [lock_name])) (\<lambda>_. try_lock p shown)"

definition read_optional :: "path \<Rightarrow> bytes option io" where
  "read_optional p = file_op (\<lambda>h. Inr (file_at h p)) (\<lambda>h. h) (\<lambda>_ h. h)"

text \<open>\<open>fs::write\<close> truncates first; a failure leaves a part of the content.\<close>

definition write_whole :: "path \<Rightarrow> bytes \<Rightarrow> unit io" where
  "write_whole p b = file_op (\<lambda>_. Inr ()) (set_file p b) (\<lambda>n. set_file p (take n b))"

definition open_storage :: "platform \<Rightarrow> config \<Rightarrow> (storage_identity \<times> path list) io" where
  "open_storage P conf =
     (case storage conf of
        Local p \<Rightarrow>
          io_bind make_dirs (\<lambda>_.
          io_bind (io_lift (ok_or Io (canon P p))) (\<lambda>dir.
          io_bind (lock_directory dir p) (\<lambda>_.
          io_lift (Inr (LocalId dir, [dir])))))
      | S3 bkt reg ep http \<Rightarrow>
          io_lift (if s3_built P then Inr (S3Id bkt reg (case ep of None \<Rightarrow> env_endpoint P | Some e \<Rightarrow> Some e), [])
                   else Inl ObjectStore))"

definition check_overlap :: "platform \<Rightarrow> config \<Rightarrow> path \<Rightarrow> unit result" where
  "check_overlap P conf cache =
     (case storage conf of
        Local p \<Rightarrow> rbind (ok_or Io (canon P p)) (\<lambda>data.
          if prefix data cache \<or> prefix cache data
          then Inl (Config ''cache and durable data directories must not overlap'') else Inr ())
      | S3 bkt reg ep http \<Rightarrow> Inr ())"

text \<open>The identity file of a cache: compared when it exists, written otherwise.\<close>

definition tie_cache :: "path \<Rightarrow> bytes \<Rightarrow> unit io" where
  "tie_cache p identity =
     io_bind (read_optional p) (\<lambda>found. case found of
         Some existing \<Rightarrow>
           io_lift (if existing \<noteq> identity
             then Inl (Config ''cache belongs to a different storage configuration; choose a new cache_dir'') else Inr ())
       | None \<Rightarrow> write_whole p identity)"

definition bind_cache :: "platform \<Rightarrow> config \<Rightarrow> storage_identity \<Rightarrow> path list io" where
  "bind_cache P conf ident =
     (case cache_dir (database conf) of
        None \<Rightarrow> io_lift (Inr [])
      | Some c \<Rightarrow>
          io_bind make_dirs (\<lambda>_.
          io_bind (io_lift (ok_or Io (canon P c))) (\<lambda>cache.
          io_bind (io_lift (check_overlap P conf cache)) (\<lambda>_.
          io_bind (lock_directory cache (display P cache)) (\<lambda>_.
          io_bind (tie_cache (cache @ [identity_name]) (identity_json P (ident, db_prefix (database conf)))) (\<lambda>_.
          io_lift (Inr [cache])))))))"

definition assemble :: "platform \<Rightarrow> ext \<Rightarrow> config \<Rightarrow> engine io" where
  "assemble P X conf =
     io_bind (io_lift (validate (parse_worker P) conf)) (\<lambda>_.
     io_bind (open_storage P conf) (\<lambda>(ident, data_lock).
     io_bind (bind_cache P conf ident) (\<lambda>cache_lock.
     io_lift (if db_built P
       then Inr \<lparr>database_identity = digest X (identity_json P (ident, db_prefix (database conf))), engine_locks = data_lock @ cache_lock\<rparr>
       else Inl Storage))))"

text \<open>The database is opened anew. An error closes or drops what was opened, and with it the locks.\<close>

definition open_inner :: "platform \<Rightarrow> ext \<Rightarrow> config \<Rightarrow> host \<times> db \<Rightarrow> engine result \<times> host \<times> db" where
  "open_inner P X conf = (\<lambda>(h, d).
     case assemble P X conf h of
       (Inl e, h') \<Rightarrow> (Inl e, h'\<lparr>locks := locks h\<rparr>, d)
     | (Inr eng, h') \<Rightarrow>
         (case open_engine X (migrate (database conf)) (d\<lparr>closed := False\<rparr>) of
            (Inl e, d') \<Rightarrow> (Inl e, h'\<lparr>locks := locks h\<rparr>, d'\<lparr>closed := True\<rparr>)
          | (Inr _, d') \<Rightarrow> (Inr eng, h', d')))"

definition unlock :: "path \<Rightarrow> unit io" where
  "unlock p = file_op (\<lambda>_. Inr ()) (\<lambda>h. h\<lparr>locks := removeAll p (locks h)\<rparr>) (\<lambda>_ h. h)"

fun unlock_all :: "path list \<Rightarrow> unit io" where
  "unlock_all [] = io_lift (Inr ())"
| "unlock_all (p # ps) = io_bind (unlock p) (\<lambda>_. unlock_all ps)"

text \<open>\<open>Engine::close\<close>: the result of closing the database comes after the locks are given up.\<close>

definition close_engine :: "bool \<Rightarrow> engine \<Rightarrow> host \<times> db \<Rightarrow> unit result \<times> host \<times> db" where
  "close_engine flushed eng = (\<lambda>(h, d).
     let (r, h') = io_bind (unlock_all (engine_locks eng)) (\<lambda>_. io_lift (if flushed then Inr () else Inl Storage)) h in
     (r, h', d\<lparr>closed := True\<rparr>))"

subsection \<open>Files only appear; locks are exclusive\<close>

definition adds_files :: "host \<Rightarrow> host \<Rightarrow> bool" where
  "adds_files h h' \<longleftrightarrow> bt_ok (files h) \<longrightarrow> bt_ok (files h') \<and> (\<forall>p b. file_at h p = Some b \<longrightarrow> file_at h' p = Some b)"

lemma adds_files_order: "adds_files h h" "transp adds_files"
  by (auto simp: adds_files_def transp_def)

lemma adds_files_trans: "adds_files h h1 \<Longrightarrow> adds_files h1 h2 \<Longrightarrow> adds_files h h2"
  by (auto simp: adds_files_def)

lemma adds_op:
  assumes "\<And>g. adds_files g (done g)" "\<And>n g. adds_files g (broken n g)"
  shows "io_rel adds_files (file_op check done broken)"
  by (rule io_rel_op) (auto simp: adds_files_order assms dest!: take_fault_cases, auto simp: adds_files_def)

lemma adds_simple [simp]:
  "io_rel adds_files (io_lift r)" "io_rel adds_files make_dirs" "io_rel adds_files (open_create p)"
  "io_rel adds_files (try_lock p shown)" "io_rel adds_files (read_optional p)" "io_rel adds_files (unlock p)"
proof -
  show "io_rel adds_files (io_lift r)" "io_rel adds_files (try_lock p shown)"
    by (auto simp: io_rel_def io_lift_def try_lock_def adds_files_def)
  show "io_rel adds_files make_dirs" "io_rel adds_files (open_create p)" "io_rel adds_files (read_optional p)"
    "io_rel adds_files (unlock p)"
    unfolding make_dirs_def open_create_def read_optional_def unlock_def
    by (rule adds_op; auto simp: adds_files_def)+
qed

lemma read_optional_Inr: "read_optional p h = (Inr x, h') \<Longrightarrow> files h' = files h \<and> locks h' = locks h \<and> x = file_at h p"
  unfolding read_optional_def by (erule file_op_cases) (auto dest: take_fault_cases)

lemma write_whole_cases:
  assumes "write_whole p b h = (r, h')" "bt_ok (files h)" "file_at h p = None"
  shows "adds_files h h' \<and> locks h' = locks h \<and> (r = Inr () \<longrightarrow> file_at h' p = Some b)"
  using assms unfolding write_whole_def
  by (elim file_op_cases) (auto simp: adds_files_def dest!: take_fault_cases)

lemma tie_cache_cases:
  assumes "tie_cache p identity h = (r, h')" "bt_ok (files h)"
  shows "adds_files h h' \<and> (r = Inr () \<longrightarrow> locks h' = locks h \<and> file_at h' p = Some identity)"
proof -
  obtain x h1 where x: "read_optional p h = (x, h1)" by force
  have k: "adds_files h h1" by (rule io_relD[OF adds_simple(5) x])
  show ?thesis
  proof (cases x)
    case (Inl e)
    with assms(1) x k show ?thesis by (auto simp: tie_cache_def io_bind_def)
  next
    case (Inr found)
    note r = read_optional_Inr[OF x[unfolded Inr]]
    show ?thesis
    proof (cases found)
      case (Some old)
      then have same: "file_at h p = Some old" using r by simp
      from assms(1) x Inr Some have "h' = h1 \<and> (r = Inr () \<longrightarrow> old = identity)"
        by (auto simp: tie_cache_def io_bind_def split: if_splits)
      with k r same show ?thesis by simp
    next
      case None
      with assms(1) x Inr have w: "write_whole p identity h1 = (r, h')" by (simp add: tie_cache_def io_bind_def)
      with write_whole_cases[OF w] r None assms(2) adds_files_trans[OF k] show ?thesis by auto
    qed
  qed
qed

lemma make_dirs_Inr: "make_dirs h = (Inr u, h') \<Longrightarrow> files h' = files h \<and> locks h' = locks h"
  unfolding make_dirs_def by (erule file_op_cases) (auto dest: take_fault_cases)

lemma adds_lock [simp]: "io_rel adds_files (lock_directory p shown)"
  unfolding lock_directory_def by (intro io_rel_bind adds_files_order adds_simple)

lemma lock_directory_Inr:
  assumes "lock_directory p shown h = (Inr u, h')"
  shows "p \<notin> set (locks h) \<and> locks h' = p # locks h"
proof -
  from assms obtain v h1 where l: "open_create (p @ [lock_name]) h = (Inr v, h1)" "try_lock p shown h1 = (Inr u, h')"
    by (auto simp: lock_directory_def io_bind_iff)
  have "locks h1 = locks h"
    using l(1) unfolding open_create_def by (elim file_op_cases) (auto dest: take_fault_cases)
  with l(2) show ?thesis by (auto simp: try_lock_def split: if_splits)
qed

text \<open>The directories an engine works on: its data directory and its cache.\<close>

definition own_dirs :: "platform \<Rightarrow> config \<Rightarrow> path set" where
  "own_dirs P conf =
     (case storage conf of Local p \<Rightarrow> set_option (canon P p) | S3 _ _ _ _ \<Rightarrow> {})
     \<union> (case cache_dir (database conf) of None \<Rightarrow> {} | Some c \<Rightarrow> set_option (canon P c))"

text \<open>The location of the database as the code identifies it.\<close>

definition location :: "platform \<Rightarrow> config \<Rightarrow> storage_identity \<times> string" where
  "location P conf =
     (case storage conf of Local p \<Rightarrow> LocalId (the (canon P p))
      | S3 bkt reg ep http \<Rightarrow> S3Id bkt reg (case ep of None \<Rightarrow> env_endpoint P | Some e \<Rightarrow> Some e),
      db_prefix (database conf))"

lemma open_storage_cases:
  assumes "open_storage P conf h = (r, h')"
  shows "adds_files h h' \<and> (\<forall>ident ls. r = Inr (ident, ls) \<longrightarrow> ident = fst (location P conf) \<and> locks h' = rev ls @ locks h
    \<and> distinct ls \<and> set ls \<inter> set (locks h) = {}
    \<and> set ls = (case storage conf of Local p \<Rightarrow> set_option (canon P p) | S3 _ _ _ _ \<Rightarrow> {}))"
proof (cases "storage conf")
  case (Local p)
  have "io_rel adds_files (open_storage P conf)"
    by (auto simp: open_storage_def Local intro!: io_rel_bind adds_files_order)
  with io_relD[OF this assms] assms show ?thesis
    by (auto simp: open_storage_def Local io_bind_Inr_iff location_def dest!: make_dirs_Inr lock_directory_Inr)
next
  case (S3 bkt reg ep http)
  with assms show ?thesis by (auto simp: open_storage_def location_def adds_files_order split: if_splits)
qed

lemma adds_tie [simp]: "io_rel adds_files (tie_cache p identity)"
  unfolding io_rel_def using tie_cache_cases[OF surjective_pairing] by (auto simp: adds_files_def)

lemma adds_bind_cache [simp]: "io_rel adds_files (bind_cache P conf ident)"
  by (auto simp: bind_cache_def intro!: io_rel_bind adds_files_order split: option.split)

lemma bind_cache_Inr:
  assumes "bind_cache P conf ident h = (Inr ls, h')" "bt_ok (files h)"
  shows "locks h' = rev ls @ locks h \<and> distinct ls \<and> set ls \<inter> set (locks h) = {}
    \<and> set ls = (case cache_dir (database conf) of None \<Rightarrow> {} | Some c \<Rightarrow> set_option (canon P c))
    \<and> (\<forall>cache \<in> set ls. file_at h' (cache @ [identity_name]) = Some (identity_json P (ident, db_prefix (database conf)))
        \<and> check_overlap P conf cache = Inr ())"
proof (cases "cache_dir (database conf)")
  case None
  with assms show ?thesis by (simp add: bind_cache_def)
next
  case (Some c)
  with assms(1) obtain u1 h1 cache u3 h3 u4 where run: "make_dirs h = (Inr u1, h1)" "canon P c = Some cache"
    "check_overlap P conf cache = Inr ()" "lock_directory cache (display P cache) h1 = (Inr u3, h3)"
    "tie_cache (cache @ [identity_name]) (identity_json P (ident, db_prefix (database conf))) h3 = (Inr u4, h')" "ls = [cache]"
    by (auto simp: bind_cache_def io_bind_Inr_iff)
  have "adds_files h h3"
    using io_relD[OF adds_simple(2) run(1)] io_relD[OF adds_lock run(4)] by (rule adds_files_trans)
  then have "bt_ok (files h3)" using assms(2) by (simp add: adds_files_def)
  with tie_cache_cases[OF run(5)] make_dirs_Inr[OF run(1)] lock_directory_Inr[OF run(4)] run(2,3,6) Some
  show ?thesis by simp
qed

lemma adds_assemble [simp]: "io_rel adds_files (assemble P X conf)"
proof -
  have "io_rel adds_files (open_storage P conf)"
    unfolding io_rel_def using open_storage_cases[OF surjective_pairing] by auto
  then show ?thesis
    by (auto simp: assemble_def intro!: io_rel_bind adds_files_order split: prod.split)
qed

lemma assemble_Inr:
  assumes "assemble P X conf h = (Inr eng, h')" "bt_ok (files h)"
  shows "locks h' = rev (engine_locks eng) @ locks h" "distinct (engine_locks eng)" "set (engine_locks eng) \<inter> set (locks h) = {}"
    "set (engine_locks eng) = own_dirs P conf"
    "\<And>c cache. cache_dir (database conf) = Some c \<Longrightarrow> canon P c = Some cache \<Longrightarrow>
      file_at h' (cache @ [identity_name]) = Some (identity_json P (location P conf)) \<and> check_overlap P conf cache = Inr ()"
    "database_identity eng = digest X (identity_json P (location P conf))"
proof -
  from assms(1) obtain ident l1 h1 l2 where run: "open_storage P conf h = (Inr (ident, l1), h1)"
    "bind_cache P conf ident h1 = (Inr l2, h')"
    "eng = \<lparr>database_identity = digest X (identity_json P (ident, db_prefix (database conf))), engine_locks = l1 @ l2\<rparr>"
    by (auto simp: assemble_def io_bind_Inr_iff split: if_splits)
  note o = open_storage_cases[OF run(1)]
  then have "bt_ok (files h1)" using assms(2) by (simp add: adds_files_def)
  note b = bind_cache_Inr[OF run(2) this]
  have ident: "(ident, db_prefix (database conf)) = location P conf" using o by (simp add: location_def)
  show "locks h' = rev (engine_locks eng) @ locks h" "distinct (engine_locks eng)"
    "set (engine_locks eng) \<inter> set (locks h) = {}" "set (engine_locks eng) = own_dirs P conf"
    using o b run(3) by (auto simp: own_dirs_def)
  show "database_identity eng = digest X (identity_json P (location P conf))" using run(3) ident by simp
  show "file_at h' (cache @ [identity_name]) = Some (identity_json P (location P conf)) \<and> check_overlap P conf cache = Inr ()"
    if "cache_dir (database conf) = Some c" "canon P c = Some cache" for c cache
    using b ident that by simp
qed

subsection \<open>Directories belong to one engine\<close>

lemma open_inner_cases:
  assumes "open_inner P X conf (h, d) = (r, h', d')"
  obtains (refused) e h1 where "assemble P X conf h = (Inl e, h1)" "r = Inl e" "h' = h1\<lparr>locks := locks h\<rparr>" "d' = d"
  | (not_opened) e eng h1 where "assemble P X conf h = (Inr eng, h1)" "r = Inl e" "h' = h1\<lparr>locks := locks h\<rparr>"
      "\<exists>d1. open_engine X (migrate (database conf)) (d\<lparr>closed := False\<rparr>) = (Inl e, d1) \<and> d' = d1\<lparr>closed := True\<rparr>"
  | (opened) eng where "assemble P X conf h = (Inr eng, h')" "r = Inr eng"
      "open_engine X (migrate (database conf)) (d\<lparr>closed := False\<rparr>) = (Inr (), d')"
  using assms by (auto simp: open_inner_def split: prod.splits sum.splits)

lemma open_inner_Inr: "open_inner P X conf (h, d) = (Inr eng, h', d') \<Longrightarrow> assemble P X conf h = (Inr eng, h')"
  by (erule open_inner_cases) simp_all

lemma open_inner_adds: "open_inner P X conf (h, d) = (r, h', d') \<Longrightarrow> adds_files h h'"
  by (erule open_inner_cases) (auto dest!: io_relD[OF adds_assemble] simp: adds_files_def)

text \<open>C23: A directory belongs to one engine. While an engine is open, no second one, of whatever
  configuration, opens on its data directory or its cache: the attempt fails before the database
  is touched and leaves the locks as they were. And the cache of an engine never lies inside its
  data directory or contains it.\<close>
theorem directories_exclusive:
  assumes "open_inner P X conf (h, d) = (Inr eng, h1, d1)" "bt_ok (files h)" "bt_ok (files h2)"
    "set (engine_locks eng) \<subseteq> set (locks h2)" "own_dirs P conf \<inter> own_dirs P' conf' \<noteq> {}"
  shows "(\<exists>e h3. open_inner P' X' conf' (h2, d2) = (Inl e, h3, d2) \<and> locks h3 = locks h2)
    \<and> (\<forall>p c data cache. storage conf = Local p \<and> canon P p = Some data \<and> cache_dir (database conf) = Some c
        \<and> canon P c = Some cache \<longrightarrow> \<not> prefix data cache \<and> \<not> prefix cache data)"
proof
  note a = assemble_Inr[OF open_inner_Inr[OF assms(1)] assms(2)]
  obtain r h3 d3 where run: "open_inner P' X' conf' (h2, d2) = (r, h3, d3)" by (metis prod.collapse)
  have "\<nexists>eng' h'. assemble P' X' conf' h2 = (Inr eng', h')"
    using assemble_Inr(3,4)[OF _ assms(3)] a(4) assms(4,5) by blast
  with run have "(\<exists>e. r = Inl e) \<and> d3 = d2 \<and> locks h3 = locks h2"
    by (cases rule: open_inner_cases) auto
  with run show "\<exists>e h3. open_inner P' X' conf' (h2, d2) = (Inl e, h3, d2) \<and> locks h3 = locks h2" by auto
  show "\<forall>p c data cache. storage conf = Local p \<and> canon P p = Some data \<and> cache_dir (database conf) = Some c
      \<and> canon P c = Some cache \<longrightarrow> \<not> prefix data cache \<and> \<not> prefix cache data"
  proof (intro allI impI, elim conjE)
    fix p c data cache
    assume c: "storage conf = Local p" "canon P p = Some data" "cache_dir (database conf) = Some c" "canon P c = Some cache"
    from a(5)[OF c(3,4)] have "check_overlap P conf cache = Inr ()" ..
    with c show "\<not> prefix data cache \<and> \<not> prefix cache data" by (simp add: check_overlap_def split: if_splits)
  qed
qed

subsection \<open>A cache belongs to one database\<close>

text \<open>What happens on a host: engines open and close, processes stop and start, operations fail.\<close>

inductive boot_step :: "host \<Rightarrow> host \<Rightarrow> bool" where
  open_host: "open_inner P X conf (h, d) = (r, h', d') \<Longrightarrow> boot_step h h'"
| close_host: "close_engine flushed eng (h, d) = (r, h', d') \<Longrightarrow> boot_step h h'"
| restart_host: "boot_step h (h\<lparr>locks := ls, io_faults := fs, dead := x\<rparr>)"

lemma adds_close: "close_engine flushed eng (h, d) = (r, h', d') \<Longrightarrow> adds_files h h'"
proof -
  have "io_rel adds_files (unlock_all ps)" for ps
    by (induction ps) (auto intro: io_rel_bind adds_files_order)
  then have "io_rel adds_files (io_bind (unlock_all ps) (\<lambda>_. io_lift x))" for ps x
    by (auto intro: io_rel_bind adds_files_order)
  then show "close_engine flushed eng (h, d) = (r, h', d') \<Longrightarrow> adds_files h h'"
    unfolding close_engine_def by (auto simp: Let_def split: prod.splits dest!: io_relD[rotated])
qed

lemma adds_steps: "boot_step\<^sup>*\<^sup>* h h' \<Longrightarrow> adds_files h h'"
proof (induction rule: rtranclp_induct)
  case (step y z)
  from step(2) have "adds_files y z"
    by cases (auto dest: open_inner_adds adds_close simp: adds_files_def)
  with step(3) show ?case by (rule adds_files_trans)
qed (simp add: adds_files_order)

text \<open>C17: A cache belongs to one database. Once an engine has opened on a cache directory, then after any
  sequence of starts, stops, crashes and file errors an engine opens on that directory only if it
  serves the same storage location and prefix; so blocks cached from one bucket or prefix are
  never read as those of another.\<close>
theorem cache_stays_bound:
  assumes "open_inner P X conf (h, d) = (Inr eng, h1, d1)" "bt_ok (files h)" "boot_step\<^sup>*\<^sup>* h1 h2"
    "open_inner P' X conf' (h2, d2) = (Inr eng', h3, d3)" "inj (identity_json P)" "identity_json P' = identity_json P"
    "cache_dir (database conf) = Some c" "canon P c = Some cache" "cache_dir (database conf') = Some c'" "canon P' c' = Some cache"
  shows "location P' conf' = location P conf \<and> database_identity eng' = database_identity eng"
proof -
  let ?q = "cache @ [identity_name]"
  note a = assemble_Inr[OF open_inner_Inr[OF assms(1)] assms(2)]
  have at: "file_at h1 ?q = Some (identity_json P (location P conf))" using a(5) assms(7,8) by simp
  have ok1: "bt_ok (files h1)" using open_inner_adds[OF assms(1)] assms(2) by (simp add: adds_files_def)
  have ok2: "bt_ok (files h2)" "file_at h2 ?q = Some (identity_json P (location P conf))"
    using adds_steps[OF assms(3)] ok1 at by (auto simp: adds_files_def)
  note b = assemble_Inr[OF open_inner_Inr[OF assms(4)] ok2(1)]
  have "file_at h3 ?q = Some (identity_json P (location P' conf'))" using b(5) assms(6,9,10) by simp
  moreover have "file_at h3 ?q = Some (identity_json P (location P conf))"
    using open_inner_adds[OF assms(4)] ok2 by (auto simp: adds_files_def)
  ultimately have "location P' conf' = location P conf" using assms(5) by (simp add: inj_eq)
  then show ?thesis using a(6) b(6) assms(6) by simp
qed

text \<open>The identity file is written in place. If that write stops part way, the cache directory is
  refused from then on, to the very configuration that created it, until someone removes the
  file.\<close>
lemma torn_identity_blocks:
  assumes "tie_cache (cache @ [identity_name]) (identity_json P (location P conf)) h = (Inl Io, h1)"
    "bt_ok (files h)" "file_at h1 (cache @ [identity_name]) = Some b" "b \<noteq> identity_json P (location P conf)"
    "boot_step\<^sup>*\<^sup>* h1 h2" "cache_dir (database conf) = Some c" "canon P c = Some cache"
  shows "\<exists>e h3 d3. open_inner P X conf (h2, d2) = (Inl e, h3, d3)"
proof -
  have "bt_ok (files h1)" using tie_cache_cases[OF assms(1,2)] assms(2) by (simp add: adds_files_def)
  with adds_steps[OF assms(5)] assms(3) have h2: "bt_ok (files h2)" "file_at h2 (cache @ [identity_name]) = Some b"
    by (auto simp: adds_files_def)
  obtain r h3 d3 where run: "open_inner P X conf (h2, d2) = (r, h3, d3)" by (metis prod.collapse)
  have "r \<noteq> Inr eng" for eng
  proof
    assume "r = Inr eng"
    with run have r: "open_inner P X conf (h2, d2) = (Inr eng, h3, d3)" by simp
    from assemble_Inr(5)[OF open_inner_Inr[OF r] h2(1) assms(6,7)] have "file_at h3 (cache @ [identity_name]) \<noteq> Some b"
      using assms(4) by simp
    with open_inner_adds[OF r] h2 show False by (auto simp: adds_files_def)
  qed
  with run show ?thesis by (cases r) auto
qed

subsection \<open>Concrete instances\<close>

text \<open>An identity text that can be read back.\<close>

definition sample_identity :: "storage_identity \<times> string \<Rightarrow> bytes" where
  "sample_identity = (\<lambda>(i, pre). enc_str pre @ (case i of
       LocalId p \<Rightarrow> CHR ''L'' # enc_list enc_str p
     | S3Id bkt reg ep \<Rightarrow> CHR ''S'' # enc_str bkt @ enc_str reg @ enc_list enc_str (case ep of None \<Rightarrow> [] | Some e \<Rightarrow> [e])))"

lemma enc_list_str_inj: "enc_list enc_str as = enc_list enc_str bs \<longleftrightarrow> as = bs"
proof
  assume e: "enc_list enc_str as = enc_list enc_str bs"
  have r: "read_list read_str (enc_list enc_str xs) = Inr (xs, [])" for xs
    using read_list_enc[of xs read_str enc_str "[]"] by (simp add: str.dec_enc)
  from arg_cong[OF e, of "read_list read_str"] show "as = bs" by (simp add: r)
qed simp

lemma enc_str_inj: "enc_str a = enc_str b \<longleftrightarrow> a = b"
  using str.enc_append_inj[of a "[]" b "[]"] by auto

lemma inj_sample_identity: "inj sample_identity"
proof (rule injI)
  fix a b :: "storage_identity \<times> string"
  assume e: "sample_identity a = sample_identity b"
  obtain i p j q where ab: "a = (i, p)" "b = (j, q)" by (metis prod.collapse)
  have "p = q \<and> (case i of LocalId p \<Rightarrow> CHR ''L'' # enc_list enc_str p
       | S3Id bkt reg ep \<Rightarrow> CHR ''S'' # enc_str bkt @ enc_str reg @ enc_list enc_str (case ep of None \<Rightarrow> [] | Some e \<Rightarrow> [e]))
     = (case j of LocalId p \<Rightarrow> CHR ''L'' # enc_list enc_str p
       | S3Id bkt reg ep \<Rightarrow> CHR ''S'' # enc_str bkt @ enc_str reg @ enc_list enc_str (case ep of None \<Rightarrow> [] | Some e \<Rightarrow> [e]))"
    by (rule str.enc_append_inj) (use e in \<open>simp_all add: sample_identity_def ab\<close>)
  then show "a = b"
    by (auto simp: ab enc_list_str_inj enc_str_inj dest!: str.enc_append_inj[OF TrueI TrueI]
        split: storage_identity.splits option.splits)
qed

definition sample_platform :: platform where
  "sample_platform = \<lparr>canon = (\<lambda>p. Some [''/'', p]), display = concat, env_endpoint = None, s3_built = True, db_built = True,
     identity_json = sample_identity, parse_worker = (\<lambda>_. Inl [])\<rparr>"

definition cached_config :: "string \<Rightarrow> config" where
  "cached_config pre = default_config\<lparr>storage := S3 ''b'' ''r'' None False,
     database := (database default_config)\<lparr>cache_dir := Some ''c'', db_prefix := pre\<rparr>\<rparr>"

definition v2_db :: db where
  "v2_db = \<lparr>kv = [(FORMAT_KEY, FORMAT)], seqno = 0, closed = False, faults = []\<rparr>"

lemma open_v2: "open_engine X allowed v2_db = (Inr (), v2_db)"
  by (simp add: open_engine_def initialize_format_def v2_db_def act_bind_def resume_all_deletions_def scan_prefix_def FORMAT_KEY_def)

lemma sample_open:
  "\<exists>eng h. open_inner sample_platform X default_config (empty_host, v2_db) = (Inr eng, h, v2_db) \<and> engine_locks eng = [[''/'', ''./data'']]
    \<and> locks h = engine_locks eng"
  using default_config_valid[of "\<lambda>_. Inl []"] open_v2[of X "migrate (database default_config)"]
  by (simp add: open_inner_def assemble_def open_storage_def bind_cache_def sample_platform_def default_config_def io_bind_def io_lift_def
      make_dirs_def lock_directory_def open_create_def try_lock_def file_op_def take_fault_def empty_host_def v2_db_def)

lemma cached_open:
  "\<exists>eng h. open_inner sample_platform X (cached_config ''p'') (empty_host, v2_db) = (Inr eng, h, v2_db)"
proof -
  have "validate (\<lambda>_. Inl []) (cached_config ''p'') = Inr ()"
    by (simp add: cached_config_def validate_def default_config_def validate_storage_def Let_def valid_id_def id_char_def)
  with open_v2[of X "migrate (database (cached_config ''p''))"] show ?thesis
    by (simp add: open_inner_def assemble_def open_storage_def bind_cache_def sample_platform_def cached_config_def default_config_def
        io_bind_def io_lift_def check_overlap_def tie_cache_def read_optional_def write_whole_def
        make_dirs_def lock_directory_def open_create_def try_lock_def file_op_def take_fault_def empty_host_def v2_db_def lock_name_def identity_name_def)
qed

theorem directories_exclusive_witness:
  "\<forall>X. \<exists>eng h. open_inner sample_platform X default_config (empty_host, v2_db) = (Inr eng, h, v2_db)
    \<and> (\<exists>e h'. open_inner sample_platform X default_config (h, v2_db) = (Inl e, h', v2_db) \<and> locks h' = locks h)"
proof
  fix X
  obtain eng h where o: "open_inner sample_platform X default_config (empty_host, v2_db) = (Inr eng, h, v2_db)"
    "locks h = engine_locks eng" using sample_open by blast
  have ok: "bt_ok (files empty_host)" by (simp add: empty_host_def)
  then have "bt_ok (files h)" using open_inner_adds[OF o(1)] by (simp add: adds_files_def)
  moreover have "own_dirs sample_platform default_config \<noteq> {}"
    by (simp add: own_dirs_def sample_platform_def default_config_def)
  ultimately show "\<exists>eng h. open_inner sample_platform X default_config (empty_host, v2_db) = (Inr eng, h, v2_db)
      \<and> (\<exists>e h'. open_inner sample_platform X default_config (h, v2_db) = (Inl e, h', v2_db) \<and> locks h' = locks h)"
    using directories_exclusive[OF o(1) ok, of h sample_platform default_config X v2_db] o by auto
qed

theorem cache_stays_bound_witness:
  "\<forall>X. \<exists>eng h. open_inner sample_platform X (cached_config ''p'') (empty_host, v2_db) = (Inr eng, h, v2_db)
    \<and> (\<forall>eng' h'. open_inner sample_platform X (cached_config ''q'') (h\<lparr>locks := []\<rparr>, v2_db) \<noteq> (Inr eng', h', v2_db))"
proof
  fix X
  obtain eng h where o: "open_inner sample_platform X (cached_config ''p'') (empty_host, v2_db) = (Inr eng, h, v2_db)"
    using cached_open by blast
  have st: "boot_step\<^sup>*\<^sup>* h (h\<lparr>locks := []\<rparr>)"
    using restart_host[of h] by (intro r_into_rtranclp) (metis host.surjective host.update_convs(2-4))
  have "open_inner sample_platform X (cached_config ''q'') (h\<lparr>locks := []\<rparr>, v2_db) \<noteq> (Inr eng', h', v2_db)" for eng' h'
  proof
    assume o2: "open_inner sample_platform X (cached_config ''q'') (h\<lparr>locks := []\<rparr>, v2_db) = (Inr eng', h', v2_db)"
    have "location sample_platform (cached_config ''q'') = location sample_platform (cached_config ''p'')"
      using cache_stays_bound[OF o _ st o2, of "''c''" "[''/'', ''c'']" "''c''"] inj_sample_identity
      by (simp add: sample_platform_def cached_config_def empty_host_def)
    then show False by (simp add: location_def cached_config_def)
  qed
  with o show "\<exists>eng h. open_inner sample_platform X (cached_config ''p'') (empty_host, v2_db) = (Inr eng, h, v2_db)
    \<and> (\<forall>eng' h'. open_inner sample_platform X (cached_config ''q'') (h\<lparr>locks := []\<rparr>, v2_db) \<noteq> (Inr eng', h', v2_db))" by blast
qed

end
