(* ===== verification/Placement.thy ===== *)
theory Placement
  imports Pages Index "HOL-Library.Multiset"
begin

section \<open>Shard placement and merged listings (cluster.rs)\<close>

text \<open>
  A namespace lives on the shard with the largest digest of \<open>namespace/shard\<close> (rendezvous
  hashing). A listing asks every shard for the page after the cursor and merges the answers.
\<close>

subsection \<open>Rendezvous placement\<close>

text \<open>\<open>Iterator::max_by_key\<close> keeps the last of several maxima.\<close>

definition later_max :: "('a \<Rightarrow> 'k::linorder) \<Rightarrow> 'a \<Rightarrow> 'a option \<Rightarrow> 'a option" where
  "later_max f x best = (case best of None \<Rightarrow> Some x | Some b \<Rightarrow> if f b \<le> f x then Some x else Some b)"

definition max_by_key :: "('a \<Rightarrow> 'k::linorder) \<Rightarrow> 'a list \<Rightarrow> 'a option" where
  "max_by_key f xs = fold (later_max f) xs None"

definition shard_for :: "ext \<Rightarrow> string \<Rightarrow> shard_config list \<Rightarrow> shard_config option" where
  "shard_for X namespace shs = max_by_key (\<lambda>shard. digest X (namespace @ ''/'' @ shard_id shard)) shs"

lemma max_by_key_simps [simp]:
  "max_by_key f [] = None" "max_by_key f [x] = Some x"
  "max_by_key f (xs @ [x]) = later_max f x (max_by_key f xs)"
  by (simp_all add: max_by_key_def later_max_def)

text \<open>The last maximum: nothing before it is larger, everything after it is smaller.\<close>

lemma max_by_key_in: "max_by_key f xs = Some m \<Longrightarrow> m \<in> set xs"
  by (induction xs rule: rev_induct) (auto simp: later_max_def split: option.splits if_splits)

lemma max_by_keyI:
  assumes "\<forall>u \<in> set us. f u \<le> f m"
  shows "\<forall>v \<in> set vs. f v < f m \<Longrightarrow> max_by_key f (us @ m # vs) = Some m"
proof (induction vs rule: rev_induct)
  case Nil
  then show ?case
    using assms max_by_key_in[of f us] by (auto simp: later_max_def split: option.splits)
next
  case (snoc v vs)
  have "max_by_key f ((us @ m # vs) @ [v]) = later_max f v (max_by_key f (us @ m # vs))"
    by (rule max_by_key_simps)
  with snoc show ?case by (auto simp: later_max_def)
qed

lemma max_by_keyD:
  "max_by_key f xs = Some m \<Longrightarrow>
    \<exists>us vs. xs = us @ m # vs \<and> (\<forall>u \<in> set us. f u \<le> f m) \<and> (\<forall>v \<in> set vs. f v < f m)"
proof (induction xs arbitrary: m rule: rev_induct)
  case (snoc x xs)
  show ?case
  proof (cases "max_by_key f xs")
    case None
    then have "xs = []"
      by (cases xs rule: rev_cases) (auto simp: later_max_def split: option.splits if_splits)
    with snoc.prems show ?thesis by (intro exI[of _ "[]"]) simp
  next
    case (Some b)
    from snoc.IH[OF this] obtain us vs where b: "xs = us @ b # vs" "\<forall>u \<in> set us. f u \<le> f b" "\<forall>v \<in> set vs. f v < f b"
      by blast
    show ?thesis
    proof (cases "f b \<le> f x")
      case True
      with b have "\<forall>u \<in> set xs. f u \<le> f x" by auto
      with True snoc.prems Some show ?thesis
        by (intro exI[of _ xs] exI[of _ "[]"]) (simp add: later_max_def)
    next
      case False
      with snoc.prems Some have "m = b" by (simp add: later_max_def)
      with b False show ?thesis by (intro exI[of _ us] exI[of _ "vs @ [x]"]) auto
    qed
  qed
qed simp

lemma max_by_key_subseq:
  assumes "max_by_key f xs = Some m" "subseq ys xs" "m \<in> set ys" "distinct xs"
  shows "max_by_key f ys = Some m"
proof -
  from max_by_keyD[OF assms(1)] obtain us vs where x: "xs = us @ m # vs" "\<forall>u \<in> set us. f u \<le> f m" "\<forall>v \<in> set vs. f v < f m"
    by blast
  from assms(2) obtain ps qs where y: "ys = ps @ qs" "subseq ps us" "subseq qs (m # vs)"
    by (auto simp: x(1) elim: subseq_appendE)
  have "set ps \<subseteq> set us" using y(2) subseq_set_distinct by blast
  with assms(3,4) x(1) y(1) have "m \<in> set qs" by auto
  with y(3) assms(4) x(1) obtain rs where "qs = m # rs" "subseq rs vs"
    by (cases qs) (auto split: if_splits dest!: subseq_set_distinct)
  with y(1) \<open>set ps \<subseteq> set us\<close> x(2,3) subseq_set_distinct[of rs vs] show ?thesis
    by (auto intro!: max_by_keyI)
qed

lemma max_by_key_map: "max_by_key f (map g xs) = map_option g (max_by_key (f \<circ> g) xs)"
  by (induction xs rule: rev_induct) (auto simp: later_max_def split: option.splits)

lemma max_by_key_nonempty: "xs \<noteq> [] \<Longrightarrow> \<exists>m. max_by_key f xs = Some m"
  by (cases xs rule: rev_cases) (auto simp: later_max_def split: option.splits)

text \<open>Placement is total and stable: every namespace has a shard, a change of worker addresses moves
  nothing, and when shards are taken away (or, read backwards, added) a namespace whose shard
  is among those left stays on it; only namespaces of the removed shards move.\<close>
theorem placement_stable:
  assumes "shs \<noteq> []" "distinct (map shard_id shs)" "subseq fewer shs" "\<forall>sh. shard_id (move sh) = shard_id sh"
  shows "\<exists>sh \<in> set shs. shard_for X n shs = Some sh
    \<and> shard_for X n (map move shs) = Some (move sh)
    \<and> (sh \<in> set fewer \<longrightarrow> shard_for X n fewer = Some sh)"
proof -
  let ?f = "\<lambda>sh. digest X (n @ ''/'' @ shard_id sh)"
  obtain sh where sh: "shard_for X n shs = Some sh"
    using max_by_key_nonempty[OF assms(1), of ?f] by (auto simp: shard_for_def)
  moreover have "shard_for X n (map move shs) = Some (move sh)"
    using sh assms(4) by (simp add: shard_for_def max_by_key_map comp_def)
  moreover have "distinct shs" using assms(2) by (simp add: distinct_map)
  then have "shard_for X n fewer = Some sh" if "sh \<in> set fewer"
    using max_by_key_subseq[of ?f shs sh fewer] sh assms(3) that by (simp add: shard_for_def)
  ultimately show ?thesis using max_by_key_in[of ?f shs sh] by (auto simp: shard_for_def)
qed

theorem placement_stable_witness:
  "\<forall>X n. \<exists>sh \<in> {\<lparr>shard_id = ''a'', workers = [''http://a'']\<rparr>, \<lparr>shard_id = ''b'', workers = [''http://b'']\<rparr>}.
    shard_for X n [\<lparr>shard_id = ''a'', workers = [''http://a'']\<rparr>, \<lparr>shard_id = ''b'', workers = [''http://b'']\<rparr>] = Some sh
    \<and> (shard_id sh = ''b'' \<longrightarrow> shard_for X n [\<lparr>shard_id = ''b'', workers = [''http://b'']\<rparr>] = Some sh)"
proof (intro allI)
  fix X n
  let ?a = "\<lparr>shard_id = ''a'', workers = [''http://a'']\<rparr>" and ?b = "\<lparr>shard_id = ''b'', workers = [''http://b'']\<rparr>"
  show "\<exists>sh \<in> {?a, ?b}. shard_for X n [?a, ?b] = Some sh \<and> (shard_id sh = ''b'' \<longrightarrow> shard_for X n [?b] = Some sh)"
    using placement_stable[of "[?a, ?b]" "[?b]" id X n] by auto
qed

subsection \<open>Merging pages\<close>

definition merge_pages :: "nat \<Rightarrow> namespace page list \<Rightarrow> namespace page" where
  "merge_pages limit pages =
     (let more = list_ex (\<lambda>p. next_cursor p \<noteq> None) pages;
          all = sort_key ns_name (concat (map items pages));
          more' = (more \<or> limit < length all);
          kept = take limit all in
      \<lparr>items = kept,
       next_cursor = (if more' then (if kept = [] then None else Some (ns_name (last kept))) else None)\<rparr>)"

text \<open>The page a reader expects: the first rows after the cursor, and a cursor if there are more.\<close>

definition names_after :: "string option \<Rightarrow> namespace list \<Rightarrow> namespace list" where
  "names_after a ns = filter (\<lambda>n. case a of None \<Rightarrow> True | Some x \<Rightarrow> x < ns_name n) ns"

definition names_page :: "nat \<Rightarrow> namespace list \<Rightarrow> namespace page" where
  "names_page limit ns = \<lparr>items = take limit ns,
     next_cursor = (if limit < length ns then Some (ns_name (ns ! (limit - 1))) else None)\<rparr>"

fun merge_by :: "('a \<Rightarrow> 'k::linorder) \<Rightarrow> 'a list \<Rightarrow> 'a list \<Rightarrow> 'a list" where
  "merge_by f [] ys = ys"
| "merge_by f xs [] = xs"
| "merge_by f (x # xs) (y # ys) =
     (if f x \<le> f y then x # merge_by f xs (y # ys) else y # merge_by f (x # xs) ys)"

lemma merge_by_Nil2 [simp]: "merge_by f xs [] = xs"
  by (cases xs) simp_all

lemma mset_merge_by [simp]: "mset (merge_by f xs ys) = mset xs + mset ys"
  by (induction f xs ys rule: merge_by.induct) auto

lemma set_merge_by [simp]: "set (merge_by f xs ys) = set xs \<union> set ys"
  using mset_merge_by[of f xs ys] by (metis set_mset_mset set_mset_union)

lemma sorted_merge_by: "sorted (map f xs) \<Longrightarrow> sorted (map f ys) \<Longrightarrow> sorted (map f (merge_by f xs ys))"
  by (induction f xs ys rule: merge_by.induct) (auto simp: not_le)

lemma take_le_eq: "take (Suc k) xs = take (Suc k) ys \<Longrightarrow> take k xs = take k ys"
  by (metis lessI min.strict_order_iff take_take)

lemma take_merge_by_cong:
  "take k xs = take k xs' \<Longrightarrow> take k ys = take k ys' \<Longrightarrow>
    take k (merge_by f xs ys) = take k (merge_by f xs' ys')"
proof (induction k arbitrary: xs xs' ys ys')
  case (Suc k)
  have less: "take k xs = take k xs'" "take k ys = take k ys'" using Suc.prems by (auto intro: take_le_eq)
  show ?case
  proof (cases "xs = [] \<or> ys = []")
    case True
    with Suc.prems show ?thesis by (cases xs'; cases ys') auto
  next
    case False
    then obtain x us y vs where x: "xs = x # us" "ys = y # vs" by (meson neq_Nil_conv)
    with Suc.prems obtain us' vs' where x': "xs' = x # us'" "ys' = y # vs'" by (cases xs'; cases ys') auto
    with x Suc.prems have "take k us = take k us'" "take k vs = take k vs'" by auto
    with less Suc.IH[of us us' ys ys'] Suc.IH[of xs xs' vs vs'] x x' show ?thesis by simp
  qed
qed simp

lemma sort_key_merge:
  assumes "sorted (map f xs)" "inj_on f (set xs \<union> set ys)"
  shows "sort_key f (xs @ ys) = merge_by f xs (sort_key f ys)"
  by (rule sort_key_inj_key_eq) (use assms in \<open>auto intro: sorted_merge_by\<close>)

lemma take_sort_concat:
  assumes "\<forall>l \<in> set ls. sorted (map f l)" "inj_on f (set (concat ls))"
  shows "take k (sort_key f (concat (map (take k) ls))) = take k (sort_key f (concat ls))"
  using assms
proof (induction ls)
  case (Cons l ls)
  let ?rest = "concat (map (take k) ls)"
  have sub: "set ?rest \<subseteq> set (concat ls)" "set (take k l) \<subseteq> set l" by (auto dest: in_set_takeD)
  have inj: "inj_on f (set l \<union> set (concat ls))" using Cons.prems(2) by simp
  then have inj': "inj_on f (set (take k l) \<union> set ?rest)" by (rule inj_on_subset) (use sub in blast)
  have srt: "sorted (map f l)" "sorted (map f (take k l))" using Cons.prems(1) by (simp_all add: take_map[symmetric] sorted_wrt_take)
  have "take k (sort_key f ?rest) = take k (sort_key f (concat ls))"
    using Cons by (simp add: inj_on_Un)
  then have "take k (merge_by f (take k l) (sort_key f ?rest)) = take k (merge_by f l (sort_key f (concat ls)))"
    by (intro take_merge_by_cong) simp_all
  with sort_key_merge[OF srt(2) inj'] sort_key_merge[OF srt(1) inj] show ?case by simp
qed simp

lemma names_after_concat: "names_after a (concat lss) = concat (map (names_after a) lss)"
  by (induction lss) (simp_all add: names_after_def)

lemma names_after_sort: "names_after a (sort_key ns_name xs) = sort_key ns_name (names_after a xs)"
  by (simp add: names_after_def filter_sort)

lemma merge_names_pages:
  assumes "1 \<le> limit" "\<forall>l \<in> set ls. sorted (map ns_name l)" "inj_on ns_name (set (concat ls))"
  shows "merge_pages limit (map (names_page limit) ls) = names_page limit (sort_key ns_name (concat ls))"
proof -
  let ?cut = "sort_key ns_name (concat (map (take limit) ls))" and ?all = "sort_key ns_name (concat ls)"
  have t: "take limit ?cut = take limit ?all" by (rule take_sort_concat[OF assms(2,3)])
  have more: "list_ex (\<lambda>p. next_cursor p \<noteq> None) (map (names_page limit) ls) \<or> limit < length ?cut \<longleftrightarrow> limit < length ?all"
  proof (cases "\<exists>l \<in> set ls. limit < length l")
    case True
    then obtain l where l: "l \<in> set ls" "limit < length l" by blast
    have "length l \<le> sum_list (map length ls)" using l(1) by (intro member_le_sum_list) auto
    with l show ?thesis by (auto simp: list_ex_iff names_page_def length_concat)
  next
    case False
    then have "map (take limit) ls = ls" by (intro map_idI) (simp add: not_less)
    with False show ?thesis by (auto simp: list_ex_iff names_page_def)
  qed
  have cut: "concat (map items (map (names_page limit) ls)) = concat (map (take limit) ls)"
    by (simp add: names_page_def comp_def)
  have merged: "merge_pages limit (map (names_page limit) ls) = \<lparr>items = take limit ?all,
      next_cursor = (if limit < length ?all then (if take limit ?all = [] then None
        else Some (ns_name (last (take limit ?all)))) else None)\<rparr>"
    unfolding merge_pages_def Let_def cut more t ..
  show ?thesis
  proof (cases "limit < length ?all")
    case True
    then have "?all \<noteq> []" by (metis less_nat_zero_code list.size(3))
    with True have "last (take limit ?all) = ?all ! (limit - 1)" "take limit ?all \<noteq> []"
      using last_take_nth[of limit ?all] assms(1) by (simp_all only: take_eq_Nil) auto
    with True show ?thesis unfolding merged names_page_def by simp
  qed (simp add: merged names_page_def)
qed

lemma names_pages_items: "set (concat (map items (map (names_page limit) ls))) \<subseteq> set (concat ls)"
  by (auto simp: names_page_def dest: in_set_takeD)

lemma merge_pages_mset:
  assumes "mset pages' = mset pages" "inj_on ns_name (set (concat (map items pages)))"
  shows "merge_pages limit pages' = merge_pages limit pages"
proof -
  have "mset (concat (map items pages')) = mset (concat (map items pages))"
  proof -
    have "mset (concat xss) = \<Sum>\<^sub># (image_mset mset (mset xss))" for xss :: "namespace list list"
      by (induction xss) simp_all
    then show ?thesis using assms(1) by simp
  qed
  then have "sort_key ns_name (concat (map items pages')) = sort_key ns_name (concat (map items pages))"
    using assms(2) by (intro sort_key_inj_key_eq) (auto dest: mset_eq_setD)
  moreover have "list_ex P pages' \<longleftrightarrow> list_ex P pages" for P
    using mset_eq_setD[OF assms(1)] by (simp add: list_ex_iff)
  ultimately show ?thesis by (simp add: merge_pages_def)
qed

subsection \<open>The namespaces of a store\<close>

definition names_of :: "ext \<Rightarrow> store \<Rightarrow> namespace list" where
  "names_of X s = map (\<lambda>(_, v). the (dec_ns X v)) (scan_prefix ''n/'' s)"

definition names_fine :: "ext \<Rightarrow> store \<Rightarrow> bool" where
  "names_fine X s \<longleftrightarrow> (\<forall>(k, v) \<in> set (scan_prefix ''n/'' s). \<exists>ns. dec_ns X v = Some ns \<and> k = namespace_key (ns_name ns))"

lemma names_fine_row:
  "names_fine X s \<Longrightarrow> x \<in> set (scan_prefix ''n/'' s) \<Longrightarrow>
    dec_ns X (snd x) = Some (the (dec_ns X (snd x))) \<and> fst x = ''n/'' @ ns_name (the (dec_ns X (snd x)))"
  by (fastforce simp: names_fine_def namespace_key_def)

lemma names_sorted:
  assumes "names_fine X s" "bt_ok s"
  shows "sorted (map ns_name (names_of X s))" "distinct (map ns_name (names_of X s))"
proof -
  let ?name = "\<lambda>x :: string \<times> bytes. ns_name (the (dec_ns X (snd x)))"
  have "sorted_wrt (\<lambda>x y. fst x < fst y) (scan_prefix ''n/'' s)"
    using assms(2) bt_ok_scan_prefix[of s "''n/''"] by (simp add: bt_ok_def sorted_wrt_map)
  moreover have "?name x < ?name y"
    if "x \<in> set (scan_prefix ''n/'' s)" "y \<in> set (scan_prefix ''n/'' s)" "fst x < fst y" for x y
    using that(3) names_fine_row[OF assms(1) that(1)] names_fine_row[OF assms(1) that(2)] by simp
  ultimately have "sorted_wrt (\<lambda>x y. ?name x < ?name y) (scan_prefix ''n/'' s)"
    by (rule sorted_wrt_mono_rel[rotated])
  then have "sorted_wrt (<) (map ns_name (names_of X s))"
    by (simp add: names_of_def sorted_wrt_map case_prod_unfold)
  then show "sorted (map ns_name (names_of X s))" "distinct (map ns_name (names_of X s))"
    by (auto simp: strict_sorted_iff)
qed

lemma namespaces_page:
  assumes "validate_page req = Inr ()" "check_ready d = Inr ()" "names_fine X (kv d)"
  shows "fst (namespaces X req d) = Inr (names_page (page_limit req) (names_after (page_after req) (names_of X (kv d))))"
proof -
  let ?rows = "page_rows (kv d) ''n/'' req" and ?g = "\<lambda>x :: string \<times> bytes. the (dec_ns X (snd x))"
  have sub: "set ?rows \<subseteq> set (scan_prefix ''n/'' (kv d))" by (auto simp: page_rows_def scan_after_def)
  have dec: "\<forall>x \<in> set ?rows. dec_ns X (snd x) = Some (?g x)"
    using names_fine_row[OF assms(3)] sub by blast
  have name: "drop (length ''n/'') (fst x) = ns_name (?g x)" if "x \<in> set (scan_prefix ''n/'' (kv d))" for x
    using names_fine_row[OF assms(3) that] by (metis append_eq_conv_conj)
  have "filter (\<lambda>(k, _). case page_after req of None \<Rightarrow> True | Some x \<Rightarrow> x < drop (length ''n/'') k) (scan_prefix ''n/'' (kv d))
      = filter (\<lambda>r. case page_after req of None \<Rightarrow> True | Some x \<Rightarrow> x < ns_name (?g r)) (scan_prefix ''n/'' (kv d))"
    unfolding case_prod_unfold by (intro filter_cong refl) (simp only: name)
  then have rows: "map ?g ?rows = names_after (page_after req) (names_of X (kv d))"
    by (simp add: page_rows_def scan_after_def names_after_def names_of_def filter_map comp_def case_prod_unfold)
  have limit: "1 \<le> page_limit req" using assms(1) by (rule page_request_valid)
  then have "last (take (page_limit req) (map ?g ?rows)) = map ?g ?rows ! (page_limit req - 1)" if "page_limit req < length ?rows"
    using that by (intro last_take_nth) auto
  with limit show ?thesis
    using assms(1,2) by (auto simp: namespaces_def act_bind_def snapshot_def collect_page_decodes[OF dec] names_page_def
        take_map Let_def simp flip: rows)
qed

text \<open>C14: A merged listing is one page of the union: when no name is on two shards, merging the pages the
  shards return for the same limit and cursor, in whatever order they arrive, gives exactly the
  first names after the cursor of all shards together, in order, and a cursor exactly when more
  remain; so paging through the gateway reads every namespace once.\<close>
theorem merged_page_of_union:
  assumes "validate_page req = Inr ()"
    "\<forall>d \<in> set ds. check_ready d = Inr () \<and> bt_ok (kv d) \<and> names_fine X (kv d)"
    "distinct (map ns_name (concat (map (\<lambda>d. names_of X (kv d)) ds)))"
  shows "\<exists>pages. collect_res (\<lambda>d. fst (namespaces X req d)) ds = Inr pages
    \<and> (\<forall>arrived. mset arrived = mset pages \<longrightarrow> merge_pages (page_limit req) arrived =
        names_page (page_limit req) (names_after (page_after req) (sort_key ns_name (concat (map (\<lambda>d. names_of X (kv d)) ds)))))"
proof -
  let ?all = "concat (map (\<lambda>d. names_of X (kv d)) ds)"
  let ?ls = "map (names_after (page_after req)) (map (\<lambda>d. names_of X (kv d)) ds)"
  let ?pages = "map (names_page (page_limit req)) ?ls"
  have "collect_res (\<lambda>d. fst (namespaces X req d)) ds = Inr (map (\<lambda>d. names_page (page_limit req) (names_after (page_after req) (names_of X (kv d)))) ds)"
    by (rule collect_res_map, rule namespaces_page[OF assms(1)]) (use assms(2) in auto)
  then have pages: "collect_res (\<lambda>d. fst (namespaces X req d)) ds = Inr ?pages" by (simp add: comp_def)
  have after: "concat ?ls = names_after (page_after req) ?all" by (simp only: names_after_concat)
  have "inj_on ns_name (set ?all)" using assms(3) by (simp only: distinct_map)
  then have inj: "inj_on ns_name (set (concat ?ls))"
    unfolding after by (rule inj_on_subset) (auto simp: names_after_def)
  have "\<forall>l \<in> set ?ls. sorted (map ns_name l)"
    using names_sorted(1) assms(2) by (auto simp: names_after_def sorted_filter)
  from merge_names_pages[OF page_request_valid[OF assms(1)] this inj]
  have merged: "merge_pages (page_limit req) ?pages =
      names_page (page_limit req) (names_after (page_after req) (sort_key ns_name ?all))"
    unfolding after names_after_sort .
  have injp: "inj_on ns_name (set (concat (map items ?pages)))" by (rule inj_on_subset[OF inj names_pages_items])
  have "merge_pages (page_limit req) arrived = merge_pages (page_limit req) ?pages"
    if "mset arrived = mset ?pages" for arrived by (rule merge_pages_mset[OF that injp])
  then show ?thesis using pages unfolding merged by blast
qed

end
