(* ===== verification/Access.thy ===== *)
theory Access
  imports Configuration
begin

section \<open>Bearer tokens and namespace grants (api.rs)\<close>

text \<open>
  Who may do what: the comparison of tokens, the table of grants read from the configuration
  and the environment, and the decision on one request. The path is the one the router hands
  on; a header is its text when it is visible ASCII.
\<close>

datatype http_method = GET | HEAD | POST | PUT | DELETE | OtherMethod string

record http_request =
  req_method :: http_method
  req_path :: string
  req_query :: string
  auth_header :: "string option"
  req_body :: bytes

record access =
  admin :: "string option"
  acc_grants :: "(string \<times> string \<times> bool) list"

definition bearer :: "string \<Rightarrow> string" where "bearer t = ''Bearer '' @ t"

definition access_admin :: "string option \<Rightarrow> access" where
  "access_admin token = \<lparr>admin = map_option bearer token, acc_grants = []\<rparr>"

definition is_ascii_graphic :: "char \<Rightarrow> bool" where
  "is_ascii_graphic c \<longleftrightarrow> (33 :: nat) \<le> of_char c \<and> of_char c \<le> (126 :: nat)"

definition load_grant :: "(string \<Rightarrow> string option) \<Rightarrow> grant_config \<Rightarrow> access \<Rightarrow> access result" where
  "load_grant env g a =
     rbind (ok_or (Config (''missing token environment variable '' @ token_env g)) (env (token_env g))) (\<lambda>token.
       if token = [] \<or> list_ex (\<lambda>c. \<not> is_ascii_graphic c) token
       then Inl (Config ''tokens must be nonempty printable ASCII without spaces'')
       else Inr (a\<lparr>acc_grants := acc_grants a @ [(bearer token, grant_namespace g, grant_write g)]\<rparr>))"

definition access_load :: "(string \<Rightarrow> string option) \<Rightarrow> string option \<Rightarrow> grant_config list \<Rightarrow> access result" where
  "access_load env token gs =
     rbind (fold_res (load_grant env) gs (access_admin token)) (\<lambda>a.
       if acc_grants a \<noteq> [] \<and> admin a = None
       then Inl (Config ''namespace grants require an admin API token'') else Inr a)"

subsection \<open>Comparing tokens\<close>

text \<open>The comparison reads every byte of the first token and folds the differences together.\<close>

definition byte_of :: "char \<Rightarrow> u8" where "byte_of c = of_char c"

definition token_difference :: "string \<Rightarrow> string \<Rightarrow> u64" where
  "token_difference a b =
     fold (\<lambda>(i, c) d. or d (ucast (xor (byte_of c) (if i < length b then byte_of (b ! i) else 0))))
       (enumerate 0 a) (xor (of_nat (length a)) (of_nat (length b)))"

definition equal_token :: "string \<Rightarrow> string \<Rightarrow> bool" where
  "equal_token a b \<longleftrightarrow> token_difference a b = 0"

lemma xor_zero_iff: "xor a b = 0 \<longleftrightarrow> a = (b :: 'a::len word)"
  by (metis xor.assoc xor.left_neutral xor.right_neutral xor_self_eq)

lemma fold_or_zero:
  "fold (\<lambda>x d. or d (f x)) xs d = (0 :: 'a::len word) \<longleftrightarrow> d = 0 \<and> (\<forall>x \<in> set xs. f x = 0)"
  by (induction xs arbitrary: d) (auto simp: or_eq_0_iff)

lemma unat_byte_of: "unat (byte_of c) = of_char c"
proof -
  have "byte_of c = of_nat (of_char c)" by (simp add: byte_of_def of_nat_of_char)
  moreover have "of_char c < (256 :: nat)" by simp
  ultimately show ?thesis by (simp add: unat_of_nat take_bit_nat_eq_self)
qed

lemma byte_of_inj [simp]: "byte_of c = byte_of d \<longleftrightarrow> c = d"
proof
  assume "byte_of c = byte_of d"
  then have "(of_char c :: nat) = of_char d" by (simp only: unat_byte_of[symmetric])
  then show "c = d" by simp
qed simp

lemma ucast_zero: "(ucast (w :: u8) :: u64) = 0 \<longleftrightarrow> w = 0"
  by transfer simp

lemma token_difference_zero:
  "token_difference a b = 0 \<longleftrightarrow> (of_nat (length a) :: u64) = of_nat (length b)
    \<and> (\<forall>i < length a. byte_of (a ! i) = (if i < length b then byte_of (b ! i) else 0))"
  by (simp add: token_difference_def case_prod_unfold fold_or_zero xor_zero_iff ucast_zero
      in_set_enumerate_eq all_set_conv_all_nth nth_enumerate_eq)

text \<open>The constant-time comparison of tokens is equality: folding the byte differences and the
  lengths into one word gives zero exactly for the same token, whatever their lengths (any
  that fit a 64-bit machine), also when one is a prefix of the other.\<close>
theorem equal_token_iff:
  assumes "length a < 2 ^ 64" "length b < 2 ^ 64"
  shows "equal_token a b \<longleftrightarrow> a = b"
proof -
  have "(of_nat (length a) :: u64) = of_nat (length b) \<longleftrightarrow> length a = length b"
    using assms by (auto simp: unat_of_nat take_bit_nat_eq_self dest!: arg_cong[where f = unat])
  then show ?thesis
    by (auto simp: equal_token_def token_difference_zero intro: nth_equalityI)
qed

theorem equal_token_iff_witness:
  "\<not> equal_token ''Bearer ab'' ''Bearer abc'' \<and> equal_token ''Bearer ab'' ''Bearer ab''"
  using equal_token_iff[of "''Bearer ab''" "''Bearer abc''"] equal_token_iff[of "''Bearer ab''" "''Bearer ab''"]
  by simp

subsection \<open>The decision on a request\<close>

definition strip_v1 :: "string \<Rightarrow> string" where
  "strip_v1 path = (if prefix ''/v1'' path then drop 3 path else path)"

definition path_parts :: "string \<Rightarrow> string list" where
  "path_parts path = filter (\<lambda>s. s \<noteq> []) (split_slash path)"

definition request_namespace :: "string list \<Rightarrow> string option" where
  "request_namespace parts =
     (case parts of p # n # _ \<Rightarrow> if p = ''namespaces'' then Some n else None | _ \<Rightarrow> None)"

definition is_read :: "http_method \<Rightarrow> string list \<Rightarrow> bool" where
  "is_read m parts \<longleftrightarrow>
     m = GET \<or> (m = POST \<and> length parts = 3 \<and> (parts ! 2 = ''query'' \<or> parts ! 2 = ''search''))"

definition authorize :: "access \<Rightarrow> http_request \<Rightarrow> unit result" where
  "authorize acc req =
     (case admin acc of
        None \<Rightarrow> Inr ()
      | Some adm \<Rightarrow>
          (let supplied = (case auth_header req of None \<Rightarrow> [] | Some h \<Rightarrow> h) in
           if equal_token adm supplied then Inr ()
           else if \<not> list_ex (\<lambda>(token, _, _). equal_token token supplied) (acc_grants acc)
           then Inl (Request 401 ''A valid bearer token is required.'')
           else
             (let parts = path_parts (strip_v1 (req_path req));
                  namespace = request_namespace parts;
                  rd = is_read (req_method req) parts in
              if list_ex (\<lambda>(token, name, wr). equal_token token supplied \<and> namespace = Some name \<and> (rd \<or> wr)) (acc_grants acc)
              then Inr ()
              else Inl (Request 403 ''Token does not permit this operation.''))))"

text \<open>The grants a request can use: those of the token it supplies.\<close>

definition grants_of :: "access \<Rightarrow> http_request \<Rightarrow> (string \<times> bool) list" where
  "grants_of acc req = map snd (filter (\<lambda>(token, _, _).
     equal_token token (case auth_header req of None \<Rightarrow> [] | Some h \<Rightarrow> h)) (acc_grants acc))"

definition is_admin :: "access \<Rightarrow> http_request \<Rightarrow> bool" where
  "is_admin acc req \<longleftrightarrow> (case admin acc of None \<Rightarrow> True
     | Some adm \<Rightarrow> equal_token adm (case auth_header req of None \<Rightarrow> [] | Some h \<Rightarrow> h))"

lemma authorize_Inr_iff:
  "authorize acc req = Inr () \<longleftrightarrow> is_admin acc req \<or>
    (\<exists>name wr. (name, wr) \<in> set (grants_of acc req) \<and> request_namespace (path_parts (strip_v1 (req_path req))) = Some name
      \<and> (is_read (req_method req) (path_parts (strip_v1 (req_path req))) \<or> wr))"
  by (auto simp: authorize_def is_admin_def grants_of_def list_ex_iff Let_def split: option.splits) force+

lemma authorize_Inl: "authorize acc req = Inl e \<Longrightarrow> \<exists>m. e = Request 401 m \<or> e = Request 403 m"
  by (auto simp: authorize_def Let_def split: option.splits if_splits)

text \<open>The grants that \<open>access_load\<close> makes name the namespaces of the configuration.\<close>

lemma load_grants:
  "fold_res (load_grant env) gs a = Inr a' \<Longrightarrow> admin a' = admin a \<and>
    (\<forall>g \<in> set (acc_grants a'). g \<in> set (acc_grants a) \<or> fst (snd g) \<in> grant_namespace ` set gs)"
proof (induction gs arbitrary: a)
  case (Cons g gs)
  then obtain b where b: "load_grant env g a = Inr b" "fold_res (load_grant env) gs b = Inr a'" by auto
  then have "admin b = admin a" "\<forall>x \<in> set (acc_grants b). x \<in> set (acc_grants a) \<or> fst (snd x) = grant_namespace g"
    by (auto simp: load_grant_def split: if_splits)
  with Cons.IH[OF b(2)] show ?case by auto
qed simp

lemma access_load_namespaces:
  assumes "access_load env token gs = Inr acc" "for_each validate_grant gs = Inr ()"
  shows "\<forall>(_, name, _) \<in> set (acc_grants acc). valid_id name"
proof -
  from assms(1) have "fold_res (load_grant env) gs (access_admin token) = Inr acc"
    by (auto simp: access_load_def split: if_splits)
  from load_grants[OF this] assms(2) show ?thesis
    by (force simp: access_admin_def validate_grant_def)
qed

end
