(* ===== verification/Metrics.thy ===== *)
theory Metrics
  imports Model
begin

section \<open>Metrics (metrics.rs)\<close>

text \<open>
  The Prometheus exposition, the HTTP request metrics, and the object-store wrapper that
  counts calls and payload bytes. The registry of \<open>slatedb_common\<close> is a library: a snapshot
  of it is a list of metrics, a counter is a 64-bit word. How a double prints is a parameter.
\<close>

subsection \<open>Label values\<close>

definition replace_char :: "char \<Rightarrow> string \<Rightarrow> string \<Rightarrow> string" where
  "replace_char c r s = concat (map (\<lambda>x. if x = c then r else [x]) s)"

definition escape :: "string \<Rightarrow> string" where
  "escape v =
     replace_char newline [backslash, CHR ''n'']
       (replace_char dquote [backslash, dquote]
         (replace_char backslash [backslash, backslash] v))"

text \<open>The reader of the text format: a label value up to its closing quote.\<close>

fun read_label_value :: "string \<Rightarrow> (string \<times> string) option" where
  "read_label_value [] = None"
| "read_label_value (c # cs) =
     (if c = dquote then Some ([], cs)
      else if c = backslash then
        (case cs of
           [] \<Rightarrow> None
         | e # ds \<Rightarrow>
             (case (if e = CHR ''n'' then Some newline else if e = backslash \<or> e = dquote then Some e else None) of
                None \<Rightarrow> None
              | Some x \<Rightarrow> map_option (apfst (Cons x)) (read_label_value ds)))
      else if c = newline then None
      else map_option (apfst (Cons c)) (read_label_value cs))"

lemma replace_char_simps [simp]:
  "replace_char c r [] = []"
  "replace_char c r (x # s) = (if x = c then r @ replace_char c r s else x # replace_char c r s)"
  "replace_char c r (s @ t) = replace_char c r s @ replace_char c r t"
  by (simp_all add: replace_char_def)

lemma escape_simps:
  "escape [] = []"
  "escape (c # v) =
     (if c = backslash then [backslash, backslash]
      else if c = dquote then [backslash, dquote]
      else if c = newline then [backslash, CHR ''n''] else [c]) @ escape v"
  by (simp_all add: escape_def)

lemma read_escape: "read_label_value (escape v @ dquote # rest) = Some (v, rest)"
  by (induction v) (simp_all add: escape_simps)

lemma escape_one_line: "newline \<notin> set (escape v)"
  by (induction v) (simp_all add: escape_simps)

text \<open>The label values of the exposition can be read back: whatever bytes a value holds, a reader of
  the text format that starts after the opening quote gets exactly that value and stops at the
  closing quote the code wrote; the escaped value holds no line break, so a sample stays on
  its line.\<close>
lemma label_value_read_back:
  "read_label_value (escape v @ dquote # rest) = Some (v, rest) \<and> newline \<notin> set (escape v)"
  by (simp add: read_escape escape_one_line)

subsection \<open>The exposition\<close>

datatype metric_value =
    Counter u64
  | Gauge int
  | UpDownCounter int
  | Histogram (hist_count: u64) (hist_sum: f64) (boundaries: "f64 list") (bucket_counts: "u64 list")

record metric_row =
  metric_name :: string
  metric_labels :: "(string \<times> string) list"
  metric_value :: metric_value

definition show_int :: "int \<Rightarrow> string" where
  "show_int i = (if i < 0 then ''-'' @ show_nat (nat (- i)) else show_nat (nat i))"

fun join :: "string \<Rightarrow> string list \<Rightarrow> string" where
  "join sep [] = []"
| "join sep [x] = x"
| "join sep (x # xs) = x @ sep @ join sep xs"

definition label_text :: "string \<times> string \<Rightarrow> string" where
  "label_text kv = fst kv @ ''='' @ [dquote] @ escape (snd kv) @ [dquote]"

definition metric_id :: "string \<Rightarrow> string" where
  "metric_id n = replace_char CHR ''-'' ''_'' (replace_char CHR ''.'' ''_'' n)"

definition sample :: "string \<Rightarrow> string \<Rightarrow> string \<Rightarrow> string" where
  "sample n sfx v = n @ sfx @ '' '' @ v @ [newline]"

text \<open>The loop over the buckets: the running total, modulo \<open>2^64\<close>, and the bound of each.\<close>

fun bucket_lines :: "(f64 \<Rightarrow> string) \<Rightarrow> string \<Rightarrow> string list \<Rightarrow> f64 list \<Rightarrow> nat \<Rightarrow> u64 \<Rightarrow> u64 list \<Rightarrow> string list" where
  "bucket_lines sf n labels bounds i tot [] = []"
| "bucket_lines sf n labels bounds i tot (c # cs) =
     (let tot' = tot + c;
          bound = (if i < length bounds then sf (bounds ! i) else ''+Inf'') in
      sample (n @ ''_bucket'') (''{'' @ join '','' (labels @ [''le='' @ [dquote] @ bound @ [dquote]]) @ ''}'') (show_nat (unat tot'))
      # bucket_lines sf n labels bounds (i + 1) tot' cs)"

definition metric_lines :: "(f64 \<Rightarrow> string) \<Rightarrow> metric_row \<Rightarrow> string list" where
  "metric_lines sf m =
     (let n = metric_id (metric_name m);
          labels = map label_text (metric_labels m);
          sfx = (if labels = [] then [] else ''{'' @ join '','' labels @ ''}'') in
      case metric_value m of
        Counter v \<Rightarrow> [sample n sfx (show_nat (unat v))]
      | Gauge v \<Rightarrow> [sample n sfx (show_int v)]
      | UpDownCounter v \<Rightarrow> [sample n sfx (show_int v)]
      | Histogram count tot bounds cs \<Rightarrow>
          [sample (n @ ''_count'') sfx (show_nat (unat count)), sample (n @ ''_sum'') sfx (sf tot)]
          @ bucket_lines sf n labels bounds 0 0 cs)"

definition prometheus :: "(f64 \<Rightarrow> string) \<Rightarrow> metric_row list \<Rightarrow> u64 \<Rightarrow> string" where
  "prometheus sf metrics durable =
     concat (concat (map (metric_lines sf) metrics)) @ sample ''gm_durable_sequence'' [] (show_nat (unat durable))"

text \<open>A scrape is a list of samples, each on its own line; bucket \<open>i\<close> shows the number of
  recordings up to its bound.\<close>

lemma bucket_lines_cumulative:
  "k < length cs \<Longrightarrow> bucket_lines sf n labels bounds i tot cs ! k =
    sample (n @ ''_bucket'') (''{'' @ join '','' (labels @ [''le='' @ [dquote] @
        (if i + k < length bounds then sf (bounds ! (i + k)) else ''+Inf'') @ [dquote]]) @ ''}'')
      (show_nat (unat (tot + sum_list (take (Suc k) cs))))"
proof (induction cs arbitrary: i tot k)
  case (Cons c cs)
  then show ?case
    by (cases k) (simp_all add: Let_def add.assoc)
qed simp

subsection \<open>Request metrics\<close>

text \<open>One counter per status class, and the durations handed to the histogram.\<close>

record http_metrics =
  classes :: "u64 list"
  durations :: "f64 list"

definition new_http_metrics :: http_metrics where
  "new_http_metrics = \<lparr>classes = map (\<lambda>_. 0) [1..<6], durations = []\<rparr>"

definition class_index :: "nat \<Rightarrow> nat" where
  "class_index status = max 1 (min 5 (status div 100)) - 1"

definition record_request :: "nat \<Rightarrow> f64 \<Rightarrow> http_metrics \<Rightarrow> http_metrics" where
  "record_request status seconds m =
     (let i = class_index status in
      m\<lparr>classes := (classes m)[i := classes m ! i + 1], durations := durations m @ [seconds]\<rparr>)"

lemma class_index_bound: "class_index status < 5"
  by (simp add: class_index_def)

lemma record_request_classes:
  assumes "length (classes m) = 5"
  shows "length (classes (record_request status seconds m)) = 5
    \<and> (\<forall>i < 5. classes (record_request status seconds m) ! i
        = classes m ! i + (if i = class_index status then 1 else 0))"
  using assms class_index_bound[of status] by (simp add: record_request_def Let_def nth_list_update)

subsection \<open>The measured object store\<close>

text \<open>
  The wrapped store is a parameter: a function from its state and a call to a result and a
  new state. Streams and uploads are handles; \<open>NextChunk\<close> is one chunk pulled from the
  stream of a \<open>get\<close>, with which the wrapper counts bytes as they are delivered.
\<close>

datatype os_call =
    PutOpts string bytes
  | PutMultipart string
  | GetOpts string
  | NextChunk nat
  | GetRanges string "(u64 \<times> u64) list"
  | DeleteStream "string list"
  | ListAll "string option"
  | ListWithOffset "string option" string
  | ListWithDelimiter "string option"
  | CopyOpts string string
  | RenameOpts string string
  | PutPart nat bytes
  | CompleteUpload nat
  | AbortUpload nat

datatype os_reply =
    Done
  | Handle nat
  | ChunkOf bytes
  | EndOfStream
  | RangesOf "bytes list"
  | ListingOf "string list"

type_synonym 's object_store = "os_call \<Rightarrow> 's \<Rightarrow> (error + os_reply) \<times> 's"

record store_counters =
  calls :: u64
  read_bytes :: u64
  written_bytes :: u64

definition counted :: "store_counters \<Rightarrow> store_counters" where
  "counted c = c\<lparr>calls := calls c + 1\<rparr>"

definition wrote :: "bytes \<Rightarrow> error + os_reply \<Rightarrow> store_counters \<Rightarrow> store_counters" where
  "wrote payload r c =
     (case r of Inr _ \<Rightarrow> c\<lparr>written_bytes := written_bytes c + of_nat (length payload)\<rparr> | Inl _ \<Rightarrow> c)"

fun measured :: "'s object_store \<Rightarrow> os_call \<Rightarrow> 's \<times> store_counters \<Rightarrow> (error + os_reply) \<times> 's \<times> store_counters" where
  "measured inner (PutOpts path payload) (s, c) =
     (let (r, s') = inner (PutOpts path payload) s in (r, s', wrote payload r (counted c)))"
| "measured inner (PutPart upload payload) (s, c) =
     (let (r, s') = inner (PutPart upload payload) s in (r, s', wrote payload r (counted c)))"
| "measured inner (NextChunk stream) (s, c) =
     (let (r, s') = inner (NextChunk stream) s in
      (r, s', case r of Inr (ChunkOf b) \<Rightarrow> c\<lparr>read_bytes := read_bytes c + of_nat (length b)\<rparr> | _ \<Rightarrow> c))"
| "measured inner (GetRanges path ranges) (s, c) =
     (let (r, s') = inner (GetRanges path ranges) s; c1 = counted c in
      (r, s', case r of
          Inr (RangesOf bs) \<Rightarrow> c1\<lparr>read_bytes := read_bytes c1 + sum_list (map (\<lambda>b. of_nat (length b)) bs)\<rparr>
        | _ \<Rightarrow> c1))"
| "measured inner call (s, c) = (let (r, s') = inner call s in (r, s', counted c))"

fun run_measured :: "'s object_store \<Rightarrow> os_call list \<Rightarrow> 's \<times> store_counters \<Rightarrow> (error + os_reply) list \<times> 's \<times> store_counters" where
  "run_measured inner [] st = ([], st)"
| "run_measured inner (x # xs) st =
     (let (r, st1) = measured inner x st; (rs, st2) = run_measured inner xs st1 in (r # rs, st2))"

fun run_bare :: "'s object_store \<Rightarrow> os_call list \<Rightarrow> 's \<Rightarrow> (error + os_reply) list \<times> 's" where
  "run_bare inner [] s = ([], s)"
| "run_bare inner (x # xs) s =
     (let (r, s1) = inner x s; (rs, s2) = run_bare inner xs s1 in (r # rs, s2))"

text \<open>What a call should add to each counter.\<close>

definition api_calls :: "os_call \<Rightarrow> nat" where
  "api_calls x = (case x of NextChunk _ \<Rightarrow> 0 | _ \<Rightarrow> 1)"

definition bytes_accepted :: "os_call \<times> (error + os_reply) \<Rightarrow> nat" where
  "bytes_accepted p = (case p of
      (PutOpts _ b, Inr _) \<Rightarrow> length b | (PutPart _ b, Inr _) \<Rightarrow> length b | _ \<Rightarrow> 0)"

definition bytes_delivered :: "os_call \<times> (error + os_reply) \<Rightarrow> nat" where
  "bytes_delivered p = (case p of
      (NextChunk _, Inr (ChunkOf b)) \<Rightarrow> length b
    | (GetRanges _ _, Inr (RangesOf bs)) \<Rightarrow> sum_list (map length bs) | _ \<Rightarrow> 0)"

lemma measured_step:
  "measured inner x (s, c) = (fst (inner x s), snd (inner x s),
     \<lparr>calls = calls c + of_nat (api_calls x), read_bytes = read_bytes c + of_nat (bytes_delivered (x, fst (inner x s))),
      written_bytes = written_bytes c + of_nat (bytes_accepted (x, fst (inner x s)))\<rparr>)"
proof -
  have sums: "sum_list (map (\<lambda>b. of_nat (length b)) bs) = (of_nat (sum_list (map length bs)) :: u64)" for bs :: "bytes list"
    by (induction bs) simp_all
  show ?thesis
    by (cases x; cases c)
      (auto simp: case_prod_unfold sums api_calls_def bytes_accepted_def bytes_delivered_def counted_def wrote_def Let_def
        split: sum.splits os_reply.splits)
qed

text \<open>C33: The metering of the object store is invisible and exact: for every store and every sequence
  of calls the caller gets the same results and the store ends in the same state as without the
  wrapper, and the counters grow, modulo \<open>2^64\<close>, by the number of API calls, the payload bytes
  of the puts and parts that succeeded, and the bytes of the chunks and ranges delivered.\<close>
theorem measured_store_transparent:
  "run_measured inner xs (s, c) =
    (let (rs, s') = run_bare inner xs s in
     (rs, s', \<lparr>calls = calls c + of_nat (sum_list (map api_calls xs)),
              read_bytes = read_bytes c + of_nat (sum_list (map bytes_delivered (zip xs rs))),
              written_bytes = written_bytes c + of_nat (sum_list (map bytes_accepted (zip xs rs)))\<rparr>))"
proof (induction xs arbitrary: s c)
  case Nil
  then show ?case by simp
next
  case (Cons x xs)
  obtain r s1 where i: "inner x s = (r, s1)" by force
  obtain rs s2 where rs: "run_bare inner xs s1 = (rs, s2)" by force
  show ?case
    using Cons[of s1] by (simp add: measured_step i rs add.assoc del: measured.simps)
qed

end
