(* ===== verification/Restore.thy ===== *)
theory Restore
  imports Lifecycle
begin

section \<open>Restoring a backup (backup.rs)\<close>

text \<open>
  \<open>restore\<close> verifies the whole file, refuses a database that holds anything, marks it as being
  restored, writes the rows in batches of about 1 MiB, and sets the format row in the last
  batch. A failure at any commit leaves the marker, with which the database does not open.
\<close>

subsection \<open>The loop over the records\<close>

function restore_loop :: "bytes \<Rightarrow> batch \<Rightarrow> nat \<Rightarrow> u64 \<Rightarrow> (batch \<times> u64) act" where
  "restore_loop bs b filled count =
     (case read_record bs of
        Inl e \<Rightarrow> act_fail e
      | Inr (None, r) \<Rightarrow> act_ret (b, count)
      | Inr (Some (key, val), r) \<Rightarrow>
          if key \<noteq> FORMAT_KEY
          then if 1024 * 1024 \<le> filled + (length key + length val)
               then act_bind (commit (b @ [Put key val])) (\<lambda>_. restore_loop r [] 0 (count + 1))
               else restore_loop r (b @ [Put key val]) (filled + (length key + length val)) (count + 1)
          else restore_loop r b filled count)"
  by pat_completeness auto
termination
  by (relation "measure (\<lambda>(bs, _). length bs)") (auto dest: read_record_shorter)

declare restore_loop.simps [simp del]

definition restore :: "(bytes \<Rightarrow> bytes) \<Rightarrow> bytes \<Rightarrow> u64 act" where
  "restore sha file =
     act_bind (act_lift (verify sha file)) (\<lambda>_.
     act_bind (act_read (\<lambda>s. Inr s)) (\<lambda>existing.
       if list_ex (\<lambda>(k, _). k \<noteq> FORMAT_KEY) existing
       then act_fail (Conflict ''restore requires an empty database prefix'')
       else
         act_bind (commit [Put FORMAT_KEY RESTORING]) (\<lambda>_.
         act_bind (act_lift (take_exact Io 8 file)) (\<lambda>(_, r).
         act_bind (restore_loop r [] 0 0) (\<lambda>(b, count).
         act_bind (commit (b @ [Put FORMAT_KEY FORMAT])) (\<lambda>_. act_ret count))))))"

subsection \<open>What a run of the loop has written\<close>

text \<open>The rows to write: all but the format row.\<close>

definition data_rows :: "store \<Rightarrow> store" where
  "data_rows s = filter (\<lambda>(k, _). k \<noteq> FORMAT_KEY) s"

definition data_puts :: "store \<Rightarrow> batch" where
  "data_puts s = map (\<lambda>(k, v). Put k v) (data_rows s)"

lemma data_rows_simps [simp]:
  "data_rows [] = []"
  "data_rows ((k, v) # s) = (if k = FORMAT_KEY then data_rows s else (k, v) # data_rows s)"
  by (simp_all add: data_rows_def)

lemma data_puts_simps [simp]:
  "data_puts [] = []"
  "data_puts ((k, v) # s) = (if k = FORMAT_KEY then data_puts s else Put k v # data_puts s)"
  by (simp_all add: data_puts_def)

lemma restore_loop_step:
  assumes "record_ok (k, v)"
  shows "restore_loop (encode_record (k, v) @ rest) b filled count =
    (if k = FORMAT_KEY then restore_loop rest b filled count
     else if 1024 * 1024 \<le> filled + (length k + length v)
     then act_bind (commit (b @ [Put k v])) (\<lambda>_. restore_loop rest [] 0 (count + 1))
     else restore_loop rest (b @ [Put k v]) (filled + (length k + length v)) (count + 1))"
  by (subst restore_loop.simps) (simp add: read_record_encode[OF assms])

lemma restore_loop_outcome:
  assumes "list_all record_ok rows"
    and "restore_loop (encode_rows rows @ end_marker @ rest) b filled count d = (r, d')"
  shows "\<exists>written todo. kv d' = apply_batch written (kv d) \<and> written @ todo = b @ data_puts rows
    \<and> (r = Inl Storage \<or> r = Inr (todo, count + of_nat (length (data_rows rows))))"
  using assms
proof (induction rows arbitrary: b filled count d)
  case Nil
  then have "r = Inr (b, count)" "d' = d"
    by (simp_all add: restore_loop.simps[of "end_marker @ rest"] read_record_end)
  then show ?case by (intro exI[of _ "[]"] exI[of _ b]) simp
next
  case (Cons row rows)
  obtain k v where row: "row = (k, v)" by force
  let ?bs = "encode_rows rows @ end_marker @ rest"
  have run: "(if k = FORMAT_KEY then restore_loop ?bs b filled count
     else if 1024 * 1024 \<le> filled + (length k + length v)
     then act_bind (commit (b @ [Put k v])) (\<lambda>_. restore_loop ?bs [] 0 (count + 1))
     else restore_loop ?bs (b @ [Put k v]) (filled + (length k + length v)) (count + 1)) d = (r, d')"
    using Cons.prems restore_loop_step[of k v ?bs b filled count] by (simp add: row)
  have ok: "list_all record_ok rows" using Cons.prems(1) by simp
  consider "k = FORMAT_KEY"
    | "k \<noteq> FORMAT_KEY" "1024 * 1024 \<le> filled + (length k + length v)"
    | "k \<noteq> FORMAT_KEY" "\<not> 1024 * 1024 \<le> filled + (length k + length v)" by blast
  then show ?case
  proof cases
    case 1
    with Cons.IH[OF ok, of b filled count d] run show ?thesis by (simp add: row)
  next
    case 3
    with Cons.IH[OF ok, of "b @ [Put k v]" "filled + (length k + length v)" "count + 1" d] run show ?thesis
      by (simp add: row algebra_simps)
  next
    case 2
    with run have "act_bind (commit (b @ [Put k v])) (\<lambda>_. restore_loop ?bs [] 0 (count + 1)) d = (r, d')" by simp
    from act_bind_eq_cases[OF this] show ?thesis
    proof (elim disjE exE conjE)
      fix e
      assume e: "commit (b @ [Put k v]) d = (Inl e, d')" "r = Inl e"
      then have "r = Inl Storage" using commit_Inl by blast
      moreover from commit_kv[OF e(1)] have "\<exists>w t. kv d' = apply_batch w (kv d) \<and> w @ t = b @ [Put k v]"
        by (metis append_Nil append_Nil2 apply_batch_simps(1))
      then obtain w t where "kv d' = apply_batch w (kv d)" "w @ t = b @ [Put k v]" by blast
      ultimately show ?thesis
        using 2(1) by (intro exI[of _ w] exI[of _ "t @ data_puts rows"]) (simp add: row)
    next
      fix q u
      assume u: "commit (b @ [Put k v]) d = (Inr q, u)" "restore_loop ?bs [] 0 (count + 1) u = (r, d')"
      from Cons.IH[OF ok u(2)] obtain w t where w: "kv d' = apply_batch w (kv u)" "w @ t = data_puts rows"
        "r = Inl Storage \<or> r = Inr (t, count + 1 + of_nat (length (data_rows rows)))" by auto
      moreover have "kv u = apply_batch (b @ [Put k v]) (kv d)" using commit_Inr[OF u(1)] by simp
      ultimately show ?thesis
        using 2(1) by (intro exI[of _ "b @ Put k v # w"] exI[of _ t]) (simp add: row algebra_simps)
    qed
  qed
qed

lemma completes_restore_loop:
  assumes "list_all record_ok rows"
  shows "completes (restore_loop (encode_rows rows @ end_marker @ rest) b filled count)"
  using assms
proof (induction rows arbitrary: b filled count)
  case Nil
  have "restore_loop (encode_rows [] @ end_marker @ rest) b filled count = act_ret (b, count)"
    by (subst restore_loop.simps) (simp add: read_record_end del: act_simps)
  then show ?case by (simp only: completes_ret)
next
  case (Cons row rows)
  then show ?case
    by (cases row) (auto simp: restore_loop_step intro!: completes_bind simp del: act_simps)
qed

subsection \<open>The restored store\<close>

lemma data_rows_keys: "\<forall>x \<in> set (data_puts s). op_key x \<noteq> FORMAT_KEY"
  by (auto simp: data_puts_def data_rows_def)

lemma get_data_puts:
  "bt_ok s \<Longrightarrow> bt_ok t \<Longrightarrow> k \<noteq> FORMAT_KEY \<Longrightarrow>
    bt_get (apply_batch (data_puts s) t) k = (case bt_get s k of None \<Rightarrow> bt_get t k | Some v \<Rightarrow> Some v)"
proof (induction s arbitrary: t)
  case (Cons row s)
  obtain a v where row: "row = (a, v)" by force
  have "bt_get s a = None" using Cons.prems(1) by (auto simp: row bt_get_None_iff)
  with Cons show ?case by (cases "k = a") (auto simp: row split: option.splits)
qed simp

lemma restored_store:
  assumes "backup_rows s" "bt_ok t" "\<forall>k. k \<noteq> FORMAT_KEY \<longrightarrow> bt_get t k = None"
  shows "apply_batch (data_puts s @ [Put FORMAT_KEY FORMAT]) t = s"
proof (rule bt_ok_ext)
  have s: "bt_ok s" "bt_get s FORMAT_KEY = Some FORMAT" using assms(1) by (simp_all add: backup_rows_def)
  then show "bt_ok s" by simp
  show "bt_ok (apply_batch (data_puts s @ [Put FORMAT_KEY FORMAT]) t)" using assms(2) by simp
  fix k
  show "bt_get (apply_batch (data_puts s @ [Put FORMAT_KEY FORMAT]) t) k = bt_get s k"
    using s assms(2,3) get_data_puts[OF s(1) assms(2), of k] by (auto split: option.splits)
qed

definition only_format :: "store \<Rightarrow> bool" where
  "only_format s \<longleftrightarrow> (\<forall>k. k \<noteq> FORMAT_KEY \<longrightarrow> bt_get s k = None)"

lemma only_format_iff:
  assumes "bt_ok s"
  shows "list_ex (\<lambda>(k, _). k \<noteq> FORMAT_KEY) s \<longleftrightarrow> \<not> only_format s"
proof -
  have "list_ex (\<lambda>(k, _). k \<noteq> FORMAT_KEY) s \<longleftrightarrow> (\<exists>k v. k \<noteq> FORMAT_KEY \<and> (k, v) \<in> set s)"
    by (auto simp: list_ex_iff split_beta) force
  also have "\<dots> \<longleftrightarrow> \<not> only_format s"
    by (simp add: bt_get_iff[OF assms, symmetric] only_format_def)
  finally show ?thesis .
qed

lemma verified_rows:
  assumes "verify sha file = Inr ()" "\<forall>b. length (sha b) = 32"
  obtains s where "file = export_file sha s" "backup_rows s" "list_all record_ok s"
    "take_exact Io 8 file = Inr (HEADER, encode_rows s @ end_marker @ u64_to_le (of_nat (length s)) @ sha (HEADER @ encode_rows s))"
proof -
  have "\<exists>s. file = export_file sha s \<and> backup_rows s"
    using verify_Inr_rows[OF assms(1)] by blast
  then obtain s where s: "file = export_file sha s" "backup_rows s" by blast
  then have "list_all record_ok s" by (simp add: backup_rows_def)
  with s that show thesis by (simp add: export_file_eq footer_def)
qed

lemma act_bind_lift [simp]: "act_bind (act_lift (Inr a)) f = f a"
  by (rule ext) (simp add: act_bind_def)

lemma act_bind_read [simp]: "f (kv d) = Inr a \<Longrightarrow> act_bind (act_read f) g d = g a d"
  by (simp add: act_bind_def)

text \<open>What a restore of an export into an empty database can leave behind.\<close>

lemma restore_outcome:
  assumes sha: "\<forall>b. length (sha b) = 32" and s: "backup_rows s" and ok: "bt_ok (kv d)" "only_format (kv d)"
    and run: "restore sha (export_file sha s) d = (r, d')"
  shows "kv d' = kv d \<and> r = Inl Storage \<or> bt_get (kv d') FORMAT_KEY = Some RESTORING \<and> r = Inl Storage
    \<or> kv d' = s \<and> (r = Inl Storage \<or> r = Inr (of_nat (length (data_rows s))))"
proof -
  let ?foot = "u64_to_le (of_nat (length s)) @ sha (HEADER @ encode_rows s)"
  have rows: "list_all record_ok s" using s by (simp add: backup_rows_def)
  have head: "take_exact Io 8 (export_file sha s) = Inr (HEADER, encode_rows s @ end_marker @ ?foot)"
    by (simp add: export_file_eq footer_def)
  have "\<not> list_ex (\<lambda>(k, _). k \<noteq> FORMAT_KEY) (kv d)" using only_format_iff ok by blast
  with run have "act_bind (commit [Put FORMAT_KEY RESTORING]) (\<lambda>_.
      act_bind (restore_loop (encode_rows s @ end_marker @ ?foot) [] 0 0) (\<lambda>(b, count).
      act_bind (commit (b @ [Put FORMAT_KEY FORMAT])) (\<lambda>_. act_ret count))) d = (r, d')" (is "act_bind _ ?f d = _")
    by (simp add: restore_def verify_export[OF sha s] head)
  from act_bind_eq_cases[OF this] show ?thesis
  proof (elim disjE exE conjE)
    fix e
    assume e: "commit [Put FORMAT_KEY RESTORING] d = (Inl e, d')" "r = Inl e"
    with commit_Inl[OF e(1)] commit_kv[OF e(1)] ok(1) show ?thesis by auto
  next
    fix q u
    assume q: "commit [Put FORMAT_KEY RESTORING] d = (Inr q, u)" and rest: "?f q u = (r, d')"
    then have u: "kv u = bt_put FORMAT_KEY RESTORING (kv d)" by (auto dest: commit_Inr)
    from act_bind_eq_cases[OF rest] obtain x w where x: "restore_loop (encode_rows s @ end_marker @ ?foot) [] 0 0 u = (x, w)"
      and fin: "(\<exists>e. x = Inl e \<and> r = Inl e \<and> w = d') \<or>
        (\<exists>b count. x = Inr (b, count) \<and> act_bind (commit (b @ [Put FORMAT_KEY FORMAT])) (\<lambda>_. act_ret count) w = (r, d'))"
      by (auto split: prod.splits)
    from restore_loop_outcome[OF rows x] obtain written todo where wt: "kv w = apply_batch written (kv u)"
      "written @ todo = data_puts s" "x = Inl Storage \<or> x = Inr (todo, of_nat (length (data_rows s)))" by auto
    have "FORMAT_KEY \<notin> op_key ` set written"
      using data_rows_keys[of s] by (force simp: wt(2)[symmetric])
    then have mark: "bt_get (kv w) FORMAT_KEY = Some RESTORING"
      using ok(1) by (simp add: wt(1) u get_apply_batch_other)
    from fin show ?thesis
    proof (elim disjE exE conjE)
      fix e
      assume "x = Inl e" "r = Inl e" "w = d'"
      with wt(3) mark show ?thesis by auto
    next
      fix b count
      assume b: "x = Inr (b, count)" "act_bind (commit (b @ [Put FORMAT_KEY FORMAT])) (\<lambda>_. act_ret count) w = (r, d')"
      then have todo: "b = todo" "count = of_nat (length (data_rows s))" using wt(3) by auto
      have "apply_batch (b @ [Put FORMAT_KEY FORMAT]) (kv w)
          = apply_batch ((written @ todo) @ [Put FORMAT_KEY FORMAT]) (kv u)"
        by (simp add: todo wt(1))
      also have "\<dots> = s"
        unfolding wt(2) by (rule restored_store[OF s]) (use ok in \<open>auto simp: u only_format_def\<close>)
      finally have final: "apply_batch (b @ [Put FORMAT_KEY FORMAT]) (kv w) = s" .
      from act_bind_eq_cases[OF b(2)] show ?thesis
      proof (elim disjE exE conjE)
        fix e
        assume e: "commit (b @ [Put FORMAT_KEY FORMAT]) w = (Inl e, d')" "r = Inl e"
        with commit_Inl[OF e(1)] commit_kv[OF e(1)] mark final show ?thesis by auto
      next
        fix q v
        assume "commit (b @ [Put FORMAT_KEY FORMAT]) w = (Inr q, v)" "act_ret count v = (r, d')"
        with commit_Inr[of _ w q v] final todo show ?thesis by auto
      qed
    qed
  qed
qed

lemma restore_refused:
  assumes "bt_ok (kv d)" "verify sha file \<noteq> Inr () \<or> \<not> only_format (kv d)"
  shows "\<exists>e. restore sha file d = (Inl e, d)"
  using assms only_format_iff[OF assms(1)]
  by (cases "verify sha file") (auto simp: restore_def act_bind_def)

text \<open>C13: An interrupted restore. Whenever a restore fails, at any commit, on any file and any
  database, either the store is as it was, or the file is the export of some complete database
  and the store is now exactly that database, or the store is marked and every later attempt
  to open it, migration allowed or not, is refused with a configuration error and changes
  nothing.\<close>
theorem interrupted_restore:
  assumes "\<forall>b. length (sha b) = 32" "bt_ok (kv d)" "restore sha file d = (Inl e, d')"
  shows "kv d' = kv d
    \<or> file = export_file sha (kv d') \<and> backup_rows (kv d')
    \<or> (\<forall>allowed. \<exists>m. open_engine X allowed d' = (Inl (Config m), d'))"
proof (cases "verify sha file = Inr () \<and> only_format (kv d)")
  case False
  then obtain e' where "restore sha file d = (Inl e', d)" using restore_refused[OF assms(2)] by blast
  with assms(3) show ?thesis by simp
next
  case True
  then obtain s where s: "file = export_file sha s" "backup_rows s" using verify_Inr_rows by blast
  have "open_engine X allowed d' = (Inl (Config ''unsupported storage format; use the migrate command for a v1 database''), d')"
    if "bt_get (kv d') FORMAT_KEY = Some RESTORING" for allowed
    using that by (simp add: open_engine_def initialize_format_def act_bind_def)
  with restore_outcome[OF assms(1) s(2) assms(2), of "Inl e" "d'"] True assms(3) s show ?thesis by auto
qed

text \<open>A restore whose second commit fails.\<close>

definition half_restored :: db where
  "half_restored = \<lparr>kv = [(FORMAT_KEY, RESTORING)], seqno = 1, closed = False, faults = []\<rparr>"

theorem interrupted_restore_witness:
  "restore sample_sha (export_file sample_sha [(FORMAT_KEY, FORMAT), (''n/a'', ''x'')])
      \<lparr>kv = [], seqno = 0, closed = False, faults = [NoFault, FailClean]\<rparr> = (Inl Storage, half_restored)
    \<and> (\<forall>X. \<exists>m. open_engine X True half_restored = (Inl (Config m), half_restored))"
proof -
  let ?s = "[(FORMAT_KEY, FORMAT), (''n/a'', ''x'')]"
  let ?d = "\<lparr>kv = [], seqno = 0, closed = False, faults = [NoFault, FailClean]\<rparr>"
  have s: "backup_rows ?s"
    by (simp add: backup_rows_def record_ok_def FORMAT_KEY_def FORMAT_def MAX_RECORD_def)
  then have ok: "record_ok (FORMAT_KEY, FORMAT)" "record_ok (''n/a'', ''x'')" by (simp_all add: backup_rows_def)
  have "''n/a'' \<noteq> FORMAT_KEY" by (simp add: FORMAT_KEY_def)
  then have run: "restore sample_sha (export_file sample_sha ?s) ?d = (Inl Storage, half_restored)"
    using verify_export[of sample_sha, OF _ s]
    by (simp add: restore_def act_bind_def commit_def half_restored_def export_file_eq footer_def
        restore_loop_step[OF ok(1)] restore_loop_step[OF ok(2)] restore_loop.simps[of "end_marker @ _"] read_record_end)
  moreover have "kv half_restored \<noteq> []" "\<not> backup_rows (kv half_restored)"
    by (simp_all add: half_restored_def backup_rows_def)
  ultimately show ?thesis
    using interrupted_restore[of sample_sha ?d, OF _ _ run] by simp
qed

lemma length_data_rows:
  "bt_ok s \<Longrightarrow> length (data_rows s) = length s - (if bt_get s FORMAT_KEY = None then 0 else 1)"
proof (induction s)
  case (Cons r s)
  obtain k v where r: "r = (k, v)" by force
  have "bt_get s k = None" using Cons.prems by (auto simp: r bt_get_None_iff)
  moreover have "bt_get s FORMAT_KEY \<noteq> None \<Longrightarrow> 0 < length s" by (cases s) auto
  ultimately show ?case using Cons by (auto simp: r)
qed simp

lemma completes_restore:
  assumes "\<forall>b. length (sha b) = 32" "backup_rows s" "bt_ok (kv d)" "only_format (kv d)" "reliable d"
  shows "\<exists>n d'. restore sha (export_file sha s) d = (Inr n, d')"
proof -
  let ?foot = "u64_to_le (of_nat (length s)) @ sha (HEADER @ encode_rows s)"
  have "completes (act_bind (commit [Put FORMAT_KEY RESTORING]) (\<lambda>_.
      act_bind (restore_loop (encode_rows s @ end_marker @ ?foot) [] 0 0) (\<lambda>(b, count).
      act_bind (commit (b @ [Put FORMAT_KEY FORMAT])) (\<lambda>_. act_ret count))))"
    using assms(2) by (auto simp: backup_rows_def intro!: completes_bind completes_restore_loop simp del: act_simps)
  moreover have "take_exact Io 8 (export_file sha s) = Inr (HEADER, encode_rows s @ end_marker @ ?foot)"
    by (simp add: export_file_eq footer_def)
  moreover have "\<not> list_ex (\<lambda>(k, _). k \<noteq> FORMAT_KEY) (kv d)" using only_format_iff assms(3,4) by blast
  ultimately show ?thesis
    using assms(5) unfolding completes_def by (fastforce simp: restore_def verify_export[OF assms(1,2)])
qed

text \<open>Backup and restore. The export of an open database whose rows fit a backup record,
  restored into an empty database with working storage, succeeds, gives a store equal to the
  exported one, row for row, and reports the number of rows other than the format row.\<close>
theorem backup_round_trip:
  assumes "\<forall>b. length (sha b) = 32" "0 < slots" "check_ready src = Inr ()" "bt_ok (kv src)"
    "list_all record_ok (kv src)" "reliable dst" "bt_ok (kv dst)" "only_format (kv dst)"
  shows "\<exists>file dst'. engine_export sha slots src = (Inr file, src)
    \<and> restore sha file dst = (Inr (of_nat (length (kv src) - 1)), dst') \<and> kv dst' = kv src"
proof -
  have "bt_get (kv src) FORMAT_KEY = Some FORMAT"
    using assms(3) by (auto simp: check_ready_def split: if_splits option.splits)
  with assms(4,5) have s: "backup_rows (kv src)" and len: "length (data_rows (kv src)) = length (kv src) - 1"
    by (simp_all add: backup_rows_def length_data_rows)
  obtain n dst' where run: "restore sha (export_file sha (kv src)) dst = (Inr n, dst')"
    using completes_restore[OF assms(1) s assms(7,8,6)] by blast
  from restore_outcome[OF assms(1) s assms(7,8) run] have "kv dst' = kv src" "n = of_nat (length (kv src) - 1)"
    by (simp_all add: len)
  with run assms(2,3) show ?thesis by (simp add: engine_export_def snapshot_def act_bind_def)
qed

theorem backup_round_trip_witness:
  "\<exists>file dst'. engine_export sample_sha 1 \<lparr>kv = [(FORMAT_KEY, FORMAT), (''n/a'', ''x'')], seqno = 5, closed = False, faults = []\<rparr>
      = (Inr file, \<lparr>kv = [(FORMAT_KEY, FORMAT), (''n/a'', ''x'')], seqno = 5, closed = False, faults = []\<rparr>)
    \<and> restore sample_sha file \<lparr>kv = [], seqno = 0, closed = False, faults = []\<rparr> = (Inr 1, dst')
    \<and> kv dst' = [(FORMAT_KEY, FORMAT), (''n/a'', ''x'')]"
  using backup_round_trip[of sample_sha 1 "\<lparr>kv = [(FORMAT_KEY, FORMAT), (''n/a'', ''x'')], seqno = 5, closed = False, faults = []\<rparr>"
      "\<lparr>kv = [], seqno = 0, closed = False, faults = []\<rparr>"]
  by (simp add: check_ready_def record_ok_def reliable_def only_format_def FORMAT_KEY_def FORMAT_def MAX_RECORD_def)

text \<open>C35: A value longer than 16 MiB is exported, but the resulting file can never be restored:
  verification refuses it, and \<open>restore\<close> with it.\<close>
theorem oversized_value_not_restorable:
  assumes "rows_follow [] before" "0 < length k" "length k \<le> 2048" "MAX_RECORD < length v" "length v < 2 ^ 32"
  shows "restore sha (export_file sha (before @ (k, v) # after)) d = (Inl (Corrupt ''invalid backup record length''), d)"
proof -
  have "verify sha (export_file sha (before @ (k, v) # after)) = Inl (Corrupt ''invalid backup record length'')"
    using verify_loop_prefix[OF assms(1)] read_record_oversized[OF assms(2-5)]
    by (simp add: verify_def export_file_eq verify_loop.simps[of "encode_record (k, v) @ _"])
  then show ?thesis by (simp add: restore_def act_bind_def)
qed

theorem oversized_value_not_restorable_witness:
  "restore sample_sha (export_file sample_sha [(''i/a'', replicate (16 * 1024 * 1024 + 1) CHR ''x''), (FORMAT_KEY, FORMAT)]) half_restored
    = (Inl (Corrupt ''invalid backup record length''), half_restored)"
  using oversized_value_not_restorable[of "[]" "''i/a''" "replicate (16 * 1024 * 1024 + 1) CHR ''x''"]
  by (simp add: MAX_RECORD_def)

end
