(* ===== verification/Api.thy ===== *)
theory Api
  imports Access Metrics Restore System Search Scenario
begin

section \<open>The HTTP API (api.rs)\<close>

text \<open>
  The router, the admission middleware and the handlers. Axum is a library: which path
  matches a pattern, percent-decoding, and the extraction of a typed body or query are
  parameters. A handler is an action on the database; what happens around it (a free permit,
  a free query slot, the deadline, the clock, the identifier of a new generation) is the
  \<open>moment\<close> of the request. A request that runs into its deadline is answered with a timeout,
  but its write continues to the end, because every writer runs in a task of its own.
\<close>

datatype handler =
    ListNamespaces | GetNamespace | CreateNamespace | DeleteNamespace | WriteDocuments | ListDocuments
  | GetDocument | DeleteDocument | QueryVectors | SearchText | Stats | IndexStatus | RebuildIndex
  | MetricsText | ExportBackup

definition routes :: "(string \<times> (http_method \<times> handler) list) list" where
  "routes =
    [(''/namespaces'', [(GET, ListNamespaces)]),
     (''/namespaces/{namespace}'', [(GET, GetNamespace), (PUT, CreateNamespace), (DELETE, DeleteNamespace)]),
     (''/namespaces/{namespace}/write'', [(POST, WriteDocuments)]),
     (''/namespaces/{namespace}/documents'', [(GET, ListDocuments)]),
     (''/namespaces/{namespace}/documents/{id}'', [(GET, GetDocument), (DELETE, DeleteDocument)]),
     (''/namespaces/{namespace}/query'', [(POST, QueryVectors)]),
     (''/namespaces/{namespace}/search'', [(POST, SearchText)]),
     (''/namespaces/{namespace}/stats'', [(GET, Stats)]),
     (''/namespaces/{namespace}/index'', [(GET, IndexStatus), (POST, RebuildIndex)]),
     (''/metrics'', [(GET, MetricsText)]),
     (''/export'', [(GET, ExportBackup)])]"

datatype reply =
    RNamespace namespace
  | RNamespaces "namespace page"
  | RDeleted string
  | RWritten write_result
  | RDocuments "document page"
  | RDocument document
  | RHits query_result
  | RStats stats
  | RIndex "index_status option"
  | RRebuilt index_status
  | RText string
  | RBackup bytes
  | RHealth
  | RReady

type_synonym 'a body = "(nat \<times> string) + 'a"

record api =
  x_ext :: ext
  match_path :: "string \<Rightarrow> string \<Rightarrow> string list option"
  pct_decode :: "string \<Rightarrow> string + string"
  page_query :: "string \<Rightarrow> string + page_request"
  config_body :: "bytes \<Rightarrow> ns_config body"
  write_body :: "bytes \<Rightarrow> write_request body"
  query_body :: "bytes \<Rightarrow> query_request body"
  text_body :: "bytes \<Rightarrow> text_request body"
  x_sha :: "bytes \<Rightarrow> bytes"
  x_show :: "f64 \<Rightarrow> string"
  x_conf :: config
  x_access :: access

record moment =
  free_requests :: nat
  free_slots :: nat
  late :: bool
  elapsed :: f64
  new_generation :: string
  registry :: "metric_row list"

record app =
  app_db :: db
  app_metrics :: http_metrics

subsection \<open>Extraction\<close>

definition json_body :: "'a body \<Rightarrow> 'a result" where
  "json_body b = (case b of Inl (status, m) \<Rightarrow> Inl (Request status m) | Inr a \<Rightarrow> Inr a)"

definition extract_page :: "api \<Rightarrow> http_request \<Rightarrow> page_request result" where
  "extract_page A req = (case page_query A (req_query req) of Inl m \<Rightarrow> Inl (Invalid m) | Inr p \<Rightarrow> Inr p)"

definition path_params :: "api \<Rightarrow> string list \<Rightarrow> string list result" where
  "path_params A caps =
     collect_res (\<lambda>c. case pct_decode A c of Inl m \<Rightarrow> Inl (Request 400 m) | Inr s \<Rightarrow> Inr s) caps"

definition act_map :: "('a \<Rightarrow> 'b) \<Rightarrow> 'a act \<Rightarrow> 'b act" where
  "act_map f m = act_bind m (\<lambda>a. act_ret (f a))"

subsection \<open>The handlers\<close>

text \<open>
  One definition per handler. Each has the decoded parameters of its pattern, the namespace and
  a document ID, of which it uses those its pattern has.
\<close>

type_synonym api_handler = "api \<Rightarrow> moment \<Rightarrow> http_request \<Rightarrow> string \<Rightarrow> string \<Rightarrow> reply act"

definition handle_delete_namespace :: api_handler where
  "handle_delete_namespace A M req name i =
     act_map (\<lambda>_. RDeleted name) (delete_namespace name)"

definition handle_stats :: api_handler where
  "handle_stats A M req name i =
     act_map RStats (get_stats (x_ext A) name)"

definition handle_index_status :: api_handler where
  "handle_index_status A M req name i =
     act_map RIndex (index_status_op (x_ext A) name)"

definition handle_rebuild_index :: api_handler where
  "handle_rebuild_index A M req name i =
     act_map RRebuilt (rebuild_index (x_ext A) (new_generation M) (index_conf (x_conf A)) name)"

definition handle_search_text :: api_handler where
  "handle_search_text A M req name i =
     act_bind (act_lift (json_body (text_body A (req_body req)))) (\<lambda>q.
     act_map RHits (engine_search_text (x_ext A) (free_slots M) name q))"

definition handle_metrics :: api_handler where
  "handle_metrics A M req name i =
     (\<lambda>d. (Inr (RText (prometheus (x_show A) (registry M) (seqno d))), d))"

definition handle_export :: api_handler where
  "handle_export A M req name i =
     act_map RBackup (engine_export (x_sha A) (free_slots M))"

definition handle_create_namespace :: api_handler where
  "handle_create_namespace A M req name i =
     act_bind (act_lift (json_body (config_body A (req_body req)))) (\<lambda>c.
     act_map RNamespace (create_namespace (x_ext A) name c))"

definition handle_get_namespace :: api_handler where
  "handle_get_namespace A M req name i =
     act_map RNamespace (get_namespace (x_ext A) name)"

definition handle_list_namespaces :: api_handler where
  "handle_list_namespaces A M req name i =
     act_bind (act_lift (extract_page A req)) (\<lambda>p. act_map RNamespaces (namespaces (x_ext A) p))"

definition handle_write :: api_handler where
  "handle_write A M req name i =
     act_bind (act_lift (json_body (write_body A (req_body req)))) (\<lambda>w.
     act_map RWritten (engine_write (x_ext A) (limits (x_conf A)) name w))"

definition handle_get_document :: api_handler where
  "handle_get_document A M req name i =
     act_map RDocument (get_document (x_ext A) name i)"

definition handle_delete_document :: api_handler where
  "handle_delete_document A M req name i =
     act_map RWritten (engine_write (x_ext A) (limits (x_conf A)) name \<lparr>upsert = [], delete_ids = [i]\<rparr>)"

definition handle_list_documents :: api_handler where
  "handle_list_documents A M req name i =
     act_bind (act_lift (extract_page A req)) (\<lambda>p. act_map RDocuments (list_documents (x_ext A) name p))"

definition handle_query :: api_handler where
  "handle_query A M req name i =
     act_bind (act_lift (json_body (query_body A (req_body req)))) (\<lambda>q.
     act_map RHits (engine_query (x_ext A) (index_conf (x_conf A)) (free_slots M) name q))"

lemmas handler_defs =
  handle_delete_namespace_def handle_stats_def handle_index_status_def
  handle_rebuild_index_def handle_search_text_def handle_metrics_def handle_export_def
  handle_create_namespace_def handle_get_namespace_def handle_list_namespaces_def
  handle_write_def handle_get_document_def handle_delete_document_def
  handle_list_documents_def handle_query_def

fun handle :: "api \<Rightarrow> moment \<Rightarrow> http_request \<Rightarrow> handler \<Rightarrow> string \<Rightarrow> string \<Rightarrow> reply act" where
  "handle A M req ListNamespaces = handle_list_namespaces A M req"
| "handle A M req GetNamespace = handle_get_namespace A M req"
| "handle A M req CreateNamespace = handle_create_namespace A M req"
| "handle A M req DeleteNamespace = handle_delete_namespace A M req"
| "handle A M req WriteDocuments = handle_write A M req"
| "handle A M req ListDocuments = handle_list_documents A M req"
| "handle A M req GetDocument = handle_get_document A M req"
| "handle A M req DeleteDocument = handle_delete_document A M req"
| "handle A M req QueryVectors = handle_query A M req"
| "handle A M req SearchText = handle_search_text A M req"
| "handle A M req Stats = handle_stats A M req"
| "handle A M req IndexStatus = handle_index_status A M req"
| "handle A M req RebuildIndex = handle_rebuild_index A M req"
| "handle A M req MetricsText = handle_metrics A M req"
| "handle A M req ExportBackup = handle_export A M req"

definition run_handler :: "api \<Rightarrow> moment \<Rightarrow> http_request \<Rightarrow> handler \<Rightarrow> string list \<Rightarrow> reply act" where
  "run_handler A M req h caps =
     act_bind (act_lift (path_params A caps)) (\<lambda>ps.
       handle A M req h (if ps = [] then [] else hd ps) (if 1 < length ps then ps ! 1 else []))"

subsection \<open>Admission and routing\<close>

text \<open>A response is a reply with status 200, or an error with status, code and message.\<close>

type_synonym answer = "(nat \<times> string \<times> string) + reply"

definition answer_of :: "reply result \<Rightarrow> answer" where
  "answer_of r = (case r of Inl e \<Rightarrow> Inl (into_response [] e) | Inr a \<Rightarrow> Inr a)"

definition status_of :: "answer \<Rightarrow> nat" where
  "status_of a = (case a of Inl (st, _) \<Rightarrow> st | Inr _ \<Rightarrow> 200)"

definition admit :: "api \<Rightarrow> moment \<Rightarrow> http_request \<Rightarrow> reply act \<Rightarrow> app \<Rightarrow> answer \<times> app" where
  "admit A M req next_handler s =
     (case authorize (x_access A) req of
        Inl e \<Rightarrow> (answer_of (Inl e), s)
      | Inr _ \<Rightarrow>
          if free_requests M = 0 then (answer_of (Inl Busy), s)
          else
            (let (r, d') = next_handler (app_db s);
                 response = answer_of (if late M then Inl Timeout else r) in
             (response, \<lparr>app_db = d', app_metrics = record_request (status_of response) (elapsed M) (app_metrics s)\<rparr>)))"

fun find_route ::
  "(string \<Rightarrow> string \<Rightarrow> string list option) \<Rightarrow> string \<Rightarrow> (string \<times> 'h) list \<Rightarrow> (string list \<times> 'h) option"
where
  "find_route mp path [] = None"
| "find_route mp path ((p, h) # rs) =
     (case mp p path of Some caps \<Rightarrow> Some (caps, h) | None \<Rightarrow> find_route mp path rs)"

text \<open>\<open>get\<close> also answers HEAD.\<close>

definition method_handler :: "http_method \<Rightarrow> (http_method \<times> handler) list \<Rightarrow> handler option" where
  "method_handler m ms =
     (case map_of ms m of Some h \<Rightarrow> Some h | None \<Rightarrow> if m = HEAD then map_of ms GET else None)"

definition not_found :: answer where "not_found = Inl (404, ''not_found'', ''Route not found.'')"
definition not_allowed :: answer where "not_allowed = Inl (405, ''method_not_allowed'', ''Method not allowed.'')"

definition probe :: "http_method \<Rightarrow> answer \<Rightarrow> app \<Rightarrow> answer \<times> app" where
  "probe m r s = (if m = GET \<or> m = HEAD then r else not_allowed, s)"

definition ready :: "app \<Rightarrow> reply result" where
  "ready s = rbind (check_ready (app_db s)) (\<lambda>_. Inr RReady)"

definition serve :: "api \<Rightarrow> moment \<Rightarrow> http_request \<Rightarrow> app \<Rightarrow> answer \<times> app" where
  "serve A M req s =
     (if req_path req = ''/healthz'' then probe (req_method req) (Inr RHealth) s
      else if req_path req = ''/readyz''
      then probe (req_method req) (answer_of (ready s)) s
      else if \<not> prefix ''/v1/'' (req_path req) then (not_found, s)
      else
        (let nested = req\<lparr>req_path := drop 3 (req_path req)\<rparr> in
         case find_route (match_path A) (req_path nested) routes of
           None \<Rightarrow> (not_found, s)
         | Some (caps, ms) \<Rightarrow>
             (case method_handler (req_method req) ms of
                None \<Rightarrow> (not_allowed, s)
              | Some h \<Rightarrow> admit A M nested (run_handler A M nested h caps) s)))"

subsection \<open>What a handler can change\<close>

definition reader :: "handler \<Rightarrow> bool" where
  "reader h \<longleftrightarrow> h \<notin> {CreateNamespace, DeleteNamespace, WriteDocuments, DeleteDocument, RebuildIndex}"

lemma snd_bind_same:
  "(\<And>d. snd (m d) = d) \<Longrightarrow> (\<And>a d. snd (f a d) = d) \<Longrightarrow> snd (act_bind m f d) = d"
  by (cases "m d"; cases "fst (m d)") (auto simp: act_bind_def dest: meta_spec[of _ d])

lemma snd_snapshot [simp]: "snd (snapshot d) = d"
  by (simp add: snapshot_def)

lemma reader_same: "reader h \<Longrightarrow> snd (handle A M req h name i d) = d"
  by (cases h)
    (auto simp: reader_def handler_defs act_map_def namespaces_def get_namespace_def get_stats_def get_document_def list_documents_def
      index_status_op_def engine_query_def engine_search_text_def engine_export_def intro!: snd_bind_same)

lemma rebuild_agree:
  assumes "bt_ok (kv d)" "valid_id m" "m \<noteq> n"
  shows "agree_on m (kv d) (kv (snd (rebuild_index X gen conf n d)))"
proof (cases "valid_id n")
  case True
  have "job_rel n (agree_on m)"
    using job_keys_agree[OF _ True _ assms(2,3)] by (auto simp: job_rel_def agree_on_def reflp_def transp_def)
  from rebuild_rel[OF this assms(1)] show ?thesis .
next
  case False
  then have "\<exists>e. validate_id n = Inl e" by (cases "validate_id n") auto
  then show ?thesis by (auto simp: rebuild_index_def act_bind_def agree_on_def)
qed

lemma handle_agree:
  assumes "bt_ok (kv d)" "valid_id m" "m \<noteq> name"
  shows "agree_on m (kv d) (kv (snd (handle A M req h name i d)))"
proof -
  have ids: "agree_on m t t" for t by (simp add: agree_on_def)
  have map: "kv (snd (act_map f x d)) = kv (snd (x d))" for f :: "'b \<Rightarrow> 'c" and x
    by (simp add: act_map_def act_bind_def split: prod.split sum.split)
  have lift: "agree_on m (kv d) (kv (snd (act_bind (act_lift r) f d)))"
    if "\<And>a. agree_on m (kv d) (kv (snd (f a d)))" for r :: "'e result" and f :: "'e \<Rightarrow> reply act"
    using that ids by (cases r) (simp_all add: act_bind_def)
  have "agree_on m (kv d) (kv (snd (create_namespace (x_ext A) name c d)))" for c
    by (rule create_agree[OF surjective_pairing assms])
  moreover have "agree_on m (kv d) (kv (snd (engine_write (x_ext A) (limits (x_conf A)) name w d)))" for w
    by (rule engine_write_agree[OF surjective_pairing assms])
  moreover have "agree_on m (kv d) (kv (snd (delete_namespace name d)))"
    by (rule delete_agree[OF surjective_pairing assms])
  moreover note rebuild_agree[OF assms, of "x_ext A" "new_generation M" "index_conf (x_conf A)"]
  ultimately show ?thesis
    using reader_same[of h A M req name i d] by (cases h) (auto simp: reader_def handler_defs map ids intro!: lift)
qed

subsection \<open>Routing\<close>

text \<open>
  What the program relies on in the router: a pattern matches a path segment by segment,
  literals as they are and a parameter with any nonempty segment, which it captures; and
  decoding leaves a segment without \<open>%\<close> as it is.
\<close>

definition is_param :: "string \<Rightarrow> bool" where
  "is_param p \<longleftrightarrow> p \<noteq> [] \<and> hd p = CHR ''{''"

fun segments_match :: "string list \<Rightarrow> string list \<Rightarrow> string list option" where
  "segments_match [] [] = Some []"
| "segments_match (p # ps) (s # ss) =
     (if is_param p then (if s = [] then None else map_option (Cons s) (segments_match ps ss))
      else if p = s then segments_match ps ss else None)"
| "segments_match _ _ = None"

definition routing_law :: "api \<Rightarrow> bool" where
  "routing_law A \<longleftrightarrow>
     (\<forall>pat path caps. match_path A pat path = Some caps \<longrightarrow> segments_match (split_slash pat) (split_slash path) = Some caps)
     \<and> (\<forall>s. CHR ''%'' \<notin> set s \<longrightarrow> pct_decode A s = Inr s)"

lemma segments_match_iff:
  "segments_match [] ss = Some caps \<longleftrightarrow> ss = [] \<and> caps = []"
  "segments_match (p # ps) ss = Some caps \<longleftrightarrow> (\<exists>s ss'. ss = s # ss' \<and>
     (if is_param p then s \<noteq> [] \<and> (\<exists>cs. caps = s # cs \<and> segments_match ps ss' = Some cs)
      else s = p \<and> segments_match ps ss' = Some caps))"
  by (cases ss; auto)+

lemma find_route_Some:
  "find_route mp path rs = Some (caps, h) \<Longrightarrow> \<exists>p. (p, h) \<in> set rs \<and> mp p path = Some caps"
  by (induction rs) (auto split: option.splits)

lemma strip_nested:
  assumes "split_slash path = [] # w # ws" "w = [] \<or> hd w \<noteq> CHR ''v''"
  shows "strip_v1 path = path"
proof -
  have "\<not> prefix ''/v1'' path"
  proof
    assume "prefix ''/v1'' path"
    then obtain t where "path = ''/v1'' @ t" by (auto simp: prefix_def)
    with assms show False by (auto split: list.splits)
  qed
  then show ?thesis by (simp add: strip_v1_def)
qed

lemma route_target:
  assumes "(pat, ms) \<in> set routes" "segments_match (split_slash pat) (split_slash path) = Some caps"
    "method_handler mth ms = Some h"
  defines "parts \<equiv> path_parts (strip_v1 path)"
  shows "request_namespace parts = None \<or>
    (\<exists>n rest. caps = n # rest \<and> request_namespace parts = Some n \<and> h \<notin> {ListNamespaces, MetricsText, ExportBackup}
      \<and> (is_read mth parts \<longrightarrow> reader h))"
proof -
  have "\<exists>w ws. split_slash path = [] # w # ws \<and> (w = [] \<or> hd w \<noteq> CHR ''v'')"
    using assms(1,2) by (auto simp: routes_def segments_match_iff is_param_def)
  then have "parts = filter (\<lambda>s. s \<noteq> []) (split_slash path)"
    using strip_nested by (auto simp: parts_def path_parts_def)
  then show ?thesis
    using assms(1-3)
    by (auto simp: routes_def segments_match_iff is_param_def request_namespace_def method_handler_def reader_def is_read_def
        split: if_splits)
qed

lemma path_params_plain:
  assumes "routing_law A" "CHR ''%'' \<notin> set n" "path_params A (n # rest) = Inr ps"
  shows "ps \<noteq> [] \<and> hd ps = n"
proof -
  have "pct_decode A n = Inr n" using assms(1,2) by (simp add: routing_law_def)
  with assms(3) show ?thesis by (auto simp: path_params_def)
qed

lemma valid_id_no_percent: "valid_id n \<Longrightarrow> CHR ''%'' \<notin> set n"
  by (auto simp: valid_id_def list_all_iff id_char_def)

lemma admit_cases:
  obtains (refused) e where "authorize (x_access A) req = Inl e" "admit A M req f s = (answer_of (Inl e), s)"
  | (busy) "admit A M req f s = (answer_of (Inl Busy), s)"
  | (served) "authorize (x_access A) req = Inr ()"
      "fst (admit A M req f s) = answer_of (if late M then Inl Timeout else fst (f (app_db s)))"
      "app_db (snd (admit A M req f s)) = snd (f (app_db s))"
  by (cases "authorize (x_access A) req"; cases "f (app_db s)"; cases "free_requests M = 0")
    (auto simp: admit_def Let_def)

lemma answer_of_Inl: "\<exists>x. answer_of (Inl e) = Inl x"
  by (intro exI[of _ "into_response [] e"]) (simp add: answer_of_def)

lemma answer_of_Inr [simp]: "answer_of (Inr a) = Inr a"
  by (simp add: answer_of_def)

lemma probe_answer:
  "probe m r s = (q, s') \<Longrightarrow> s' = s \<and> (q = r \<or> (\<exists>e. q = Inl e))"
  by (auto simp: probe_def not_allowed_def split: if_splits)

lemma serve_cases:
  assumes "serve A M req s = (r, s')"
  obtains (refused) "s' = s" "(\<exists>e. r = Inl e) \<or> r = Inr RHealth \<or> r = Inr RReady"
  | (admitted) nested caps ms h where "nested = req\<lparr>req_path := drop 3 (req_path req)\<rparr>"
      "find_route (match_path A) (req_path nested) routes = Some (caps, ms)" "method_handler (req_method nested) ms = Some h"
      "admit A M nested (run_handler A M nested h caps) s = (r, s')"
proof (cases "req_path req = ''/healthz'' \<or> req_path req = ''/readyz''")
  case True
  have ready: "(\<exists>e. answer_of (ready s) = Inl e) \<or> answer_of (ready s) = Inr RReady"
    using answer_of_Inl by (cases "check_ready (app_db s)") (auto simp: ready_def)
  have "s' = s \<and> ((\<exists>e. r = Inl e) \<or> r = Inr RHealth \<or> r = Inr RReady)"
    using True
  proof
    assume "req_path req = ''/healthz''"
    with assms probe_answer[of "req_method req" "Inr RHealth" s r s'] show ?thesis by (auto simp: serve_def)
  next
    assume "req_path req = ''/readyz''"
    with assms probe_answer[of "req_method req" "answer_of (ready s)" s r s'] ready show ?thesis by (auto simp: serve_def)
  qed
  with refused show thesis by blast
next
  case False
  with assms that show thesis
    by (auto simp: serve_def Let_def not_found_def not_allowed_def split: if_splits option.splits)
qed

text \<open>C4: Grants confine. Whatever a request without the admin token asks, either it is answered with an
  error (or is a health probe) and the database is untouched, or its token has a grant for
  some namespace, the reply is that of a handler run on this namespace alone, no key of any
  other namespace changes, and if no such grant allows writing nothing changes at all. The
  namespace the grant was checked for is thus the one the router's decoded path names.\<close>
theorem grants_confined:
  assumes "routing_law A" "\<forall>(_, name, _) \<in> set (acc_grants (x_access A)). valid_id name"
    "\<not> is_admin (x_access A) req" "bt_ok (kv (app_db s))" "serve A M req s = (r, s')"
  shows "(app_db s' = app_db s \<and> ((\<exists>e. r = Inl e) \<or> r = Inr RHealth \<or> r = Inr RReady))
    \<or> (\<exists>name wr h i. (name, wr) \<in> set (grants_of (x_access A) req)
        \<and> h \<notin> {ListNamespaces, MetricsText, ExportBackup}
        \<and> (let nested = req\<lparr>req_path := drop 3 (req_path req)\<rparr>; (q, d') = handle A M nested h name i (app_db s) in
            r = answer_of (if late M then Inl Timeout else q) \<and> app_db s' = d')
        \<and> (app_db s' = app_db s \<or> wr)
        \<and> (\<forall>m. valid_id m \<and> m \<noteq> name \<longrightarrow> agree_on m (kv (app_db s)) (kv (app_db s'))))"
  using assms(5)
proof (cases rule: serve_cases)
  case refused
  then show ?thesis by simp
next
  case (admitted nested caps ms h)
  let ?req = "req\<lparr>req_path := drop 3 (req_path req)\<rparr>"
  from admitted have route: "find_route (match_path A) (req_path ?req) routes = Some (caps, ms)"
    "method_handler (req_method ?req) ms = Some h" and run: "admit A M ?req (run_handler A M ?req h caps) s = (r, s')"
    by simp_all
  let ?parts = "path_parts (strip_v1 (req_path ?req))"
  obtain pat where "(pat, ms) \<in> set routes" "segments_match (split_slash pat) (split_slash (req_path ?req)) = Some caps"
    using find_route_Some[OF route(1)] assms(1) unfolding routing_law_def by blast
  note target = route_target[OF this route(2)]
  show ?thesis
  proof (cases A M ?req "run_handler A M ?req h caps" s rule: admit_cases)
    case served
    have grants: "grants_of (x_access A) ?req = grants_of (x_access A) req" "is_admin (x_access A) ?req \<longleftrightarrow> is_admin (x_access A) req"
      by (simp_all add: grants_of_def is_admin_def cong: option.case_cong)
    with served(1) assms(3) obtain name wr where g: "(name, wr) \<in> set (grants_of (x_access A) req)"
      "request_namespace ?parts = Some name" "is_read (req_method ?req) ?parts \<or> wr"
      by (auto simp: authorize_Inr_iff)
    then obtain rest where t: "caps = name # rest" "h \<notin> {ListNamespaces, MetricsText, ExportBackup}"
      "is_read (req_method ?req) ?parts \<longrightarrow> reader h" using target by auto
    from g(1) assms(2) have "valid_id name" by (auto simp: grants_of_def)
    then have plain: "CHR ''%'' \<notin> set name" by (rule valid_id_no_percent)
    show ?thesis
    proof (cases "path_params A caps")
      case (Inl e)
      with served run answer_of_Inl show ?thesis by (auto simp: run_handler_def act_bind_def)
    next
      case (Inr ps)
      let ?i = "if 1 < length ps then ps ! 1 else []"
      have "run_handler A M ?req h caps = handle A M ?req h name ?i"
        using path_params_plain[OF assms(1) plain, of rest ps] Inr t(1) by (simp add: run_handler_def)
      with served run have out: "r = answer_of (if late M then Inl Timeout else fst (handle A M ?req h name ?i (app_db s)))"
        "app_db s' = snd (handle A M ?req h name ?i (app_db s))" by auto
      moreover have "app_db s' = app_db s \<or> wr" using g(3) t(3) reader_same out(2) by auto
      moreover have "agree_on m (kv (app_db s)) (kv (app_db s'))" if "valid_id m" "m \<noteq> name" for m
        using handle_agree[OF assms(4) that, of A M ?req h ?i] out(2) by simp
      ultimately show ?thesis using g(1) t(2) by (intro disjI2 exI[of _ name] exI[of _ wr] exI[of _ h] exI[of _ ?i]) (simp add: case_prod_unfold)
    qed
  qed (use run answer_of_Inl in auto)
qed

subsection \<open>A token that may only read\<close>

definition sample_access :: access where
  "sample_access = \<lparr>admin = Some (bearer ''root''), acc_grants = [(bearer ''t'', ''n'', False)]\<rparr>"

definition sample_api :: api where
  "sample_api = \<lparr>x_ext = sample_ext, match_path = (\<lambda>pat path. segments_match (split_slash pat) (split_slash path)),
     pct_decode = Inr, page_query = (\<lambda>_. Inr default_page), config_body = (\<lambda>_. Inl (400, [])),
     write_body = (\<lambda>_. Inl (400, [])), query_body = (\<lambda>_. Inl (400, [])), text_body = (\<lambda>_. Inl (400, [])),
     x_sha = sample_sha, x_show = (\<lambda>_. []), x_conf = default_config, x_access = sample_access\<rparr>"

definition sample_moment :: moment where
  "sample_moment = \<lparr>free_requests = 64, free_slots = 4, late = False, elapsed = 0, new_generation = ''g'', registry = []\<rparr>"

definition sample_request :: "http_method \<Rightarrow> string \<Rightarrow> http_request" where
  "sample_request m path = \<lparr>req_method = m, req_path = path, req_query = [], auth_header = Some (bearer ''t''), req_body = []\<rparr>"

theorem grants_confined_witness:
  "app_db (snd (serve sample_api sample_moment (sample_request DELETE ''/v1/namespaces/n'')
     \<lparr>app_db = ex_db1, app_metrics = new_http_metrics\<rparr>)) = ex_db1"
proof -
  let ?req = "sample_request DELETE ''/v1/namespaces/n''" and ?s = "\<lparr>app_db = ex_db1, app_metrics = new_http_metrics\<rparr>"
  have "routing_law sample_api" by (simp add: routing_law_def sample_api_def)
  moreover have acc: "x_access sample_api = sample_access" by (simp add: sample_api_def)
  moreover have "\<not> is_admin sample_access ?req" "set (grants_of sample_access ?req) \<subseteq> {(''n'', False)}"
    by (auto simp: is_admin_def grants_of_def sample_access_def sample_request_def bearer_def equal_token_def token_difference_zero)
  moreover have "\<forall>(_, name, _) \<in> set (acc_grants sample_access). valid_id name"
    by (simp add: sample_access_def valid_id_def id_char_def)
  moreover have "bt_ok (kv (app_db ?s))" by (simp add: ex_ok)
  ultimately show ?thesis
    using grants_confined[of sample_api ?req ?s sample_moment "fst (serve sample_api sample_moment ?req ?s)"
        "snd (serve sample_api sample_moment ?req ?s)"] by auto
qed

end
