(* ===== verification/Gateway.thy ===== *)
theory Gateway
  imports Placement Api
begin

section \<open>The gateway (cluster.rs)\<close>

text \<open>
  The gateway authorises a request, finds the active worker of the namespace's shard, and
  forwards the request to it under its own credential. The network is a parameter: what a
  readiness probe of a worker answers, the page a worker returns, and what becomes of a
  forwarded request. A request handed to the HTTP client is recorded in \<open>sent\<close>, with the
  URL the client really requests: the client parses the text it is given (\<open>parse\<close>).
\<close>

subsection \<open>Finding the active worker\<close>

text \<open>The answer to \<open>/readyz\<close>: none or not successful, a body that is not JSON, or its identity.\<close>

datatype probe_answer = NotReady | BadBody | Identity "string option"

fun discover_in :: "(string \<Rightarrow> probe_answer) \<Rightarrow> string option \<Rightarrow> string list \<Rightarrow> (string \<times> string) result" where
  "discover_in ask expected [] = Inl Unavailable"
| "discover_in ask expected (w # ws) =
     (case ask (trim_slashes w @ ''/readyz'') of
        NotReady \<Rightarrow> discover_in ask expected ws
      | BadBody \<Rightarrow> Inl Network
      | Identity None \<Rightarrow> discover_in ask expected ws
      | Identity (Some identity) \<Rightarrow>
          if (case expected of None \<Rightarrow> False | Some e \<Rightarrow> e \<noteq> identity)
          then Inl (Config ''worker database identity differs from shard topology'')
          else Inr (trim_slashes w, identity))"

record gateway =
  gw_shards :: "shard_config list"
  gw_identities :: "(string, string) btree"
  gw_access :: access
  gw_token :: string

definition discover :: "(string \<Rightarrow> probe_answer) \<Rightarrow> (string, string) btree \<Rightarrow> shard_config \<Rightarrow> (string \<times> string) result" where
  "discover ask identities sh = discover_in ask (bt_get identities (shard_id sh)) (workers sh)"

text \<open>What the outside world is like during one request; times are in milliseconds.\<close>

record network =
  net_ext :: ext
  net_now :: nat
  net_permits :: nat
  net_probe :: "string \<Rightarrow> probe_answer"
  net_parse :: "string \<Rightarrow> string"
  net_page_query :: "string \<Rightarrow> string + page_request"
  net_page :: "string \<Rightarrow> namespace page result"
  net_reply :: "http_method \<Rightarrow> string \<Rightarrow> bytes \<Rightarrow> (nat \<times> bytes) option"

record upstream =
  up_method :: http_method
  up_url :: string
  up_token :: string
  up_body :: bytes

record gw_state =
  owners :: "(string, string \<times> nat) btree"
  sent :: "upstream list"

type_synonym 'a gw = "gw_state \<Rightarrow> 'a result \<times> gw_state"

definition gw_bind :: "'a gw \<Rightarrow> ('a \<Rightarrow> 'b gw) \<Rightarrow> 'b gw" where
  "gw_bind m f s = (case m s of (Inl e, t) \<Rightarrow> (Inl e, t) | (Inr a, t) \<Rightarrow> f a t)"

definition gw_lift :: "'a result \<Rightarrow> 'a gw" where "gw_lift r s = (r, s)"

definition owner :: "network \<Rightarrow> gateway \<Rightarrow> shard_config \<Rightarrow> string gw" where
  "owner N G sh s =
     (case bt_get (owners s) (shard_id sh) of
        Some (url, seen) \<Rightarrow>
          if net_now N - seen < 1000 then (Inr url, s)
          else gw_bind (gw_lift (discover (net_probe N) (gw_identities G) sh)) (\<lambda>(url, _) s.
                 (Inr url, s\<lparr>owners := bt_put (shard_id sh) (url, net_now N) (owners s)\<rparr>)) s
      | None \<Rightarrow>
          gw_bind (gw_lift (discover (net_probe N) (gw_identities G) sh)) (\<lambda>(url, _) s.
            (Inr url, s\<lparr>owners := bt_put (shard_id sh) (url, net_now N) (owners s)\<rparr>)) s)"

text \<open>The client parses the URL and sends the request once.\<close>

definition submit :: "network \<Rightarrow> gateway \<Rightarrow> http_method \<Rightarrow> string \<Rightarrow> bytes \<Rightarrow> gw_state \<Rightarrow> gw_state" where
  "submit N G m u b s =
     s\<lparr>sent := sent s @ [\<lparr>up_method = m, up_url = net_parse N u, up_token = gw_token G, up_body = b\<rparr>]\<rparr>"

subsection \<open>The merged listing\<close>

definition after_param :: "page_request \<Rightarrow> string" where
  "after_param p = (case page_after p of None \<Rightarrow> [] | Some a \<Rightarrow> ''&after='' @ a)"

text \<open>One shard's page. The pages are gathered with up to eight requests in flight; here one after
  the other, which gives the same pages in some order.\<close>

definition shard_page :: "network \<Rightarrow> gateway \<Rightarrow> page_request \<Rightarrow> shard_config \<Rightarrow> namespace page gw" where
  "shard_page N G p sh =
     gw_bind (owner N G sh) (\<lambda>url s.
       let u = url @ ''/v1/namespaces?limit='' @ show_nat (page_limit p) @ after_param p in
       (net_page N (net_parse N u), submit N G GET u [] s))"

fun shard_pages :: "network \<Rightarrow> gateway \<Rightarrow> page_request \<Rightarrow> shard_config list \<Rightarrow> namespace page list gw" where
  "shard_pages N G p [] = gw_lift (Inr [])"
| "shard_pages N G p (sh # shs) =
     gw_bind (shard_page N G p sh) (\<lambda>q. gw_bind (shard_pages N G p shs) (\<lambda>qs. gw_lift (Inr (q # qs))))"

datatype gw_reply = Listing "namespace page" | Forwarded nat bytes

subsection \<open>Forwarding\<close>

definition forget_owner :: "string \<Rightarrow> gw_state \<Rightarrow> gw_state" where
  "forget_owner i s = s\<lparr>owners := bt_del i (owners s)\<rparr>"

text \<open>The shard of the namespace in the path; what follows the namespace is not looked at.\<close>

definition route_shard :: "network \<Rightarrow> gateway \<Rightarrow> string \<Rightarrow> shard_config result" where
  "route_shard N G path =
     (case path_parts path of
        a # b # rest \<Rightarrow>
          if a \<noteq> ''v1'' \<or> b \<noteq> ''namespaces''
          then Inl (NotFound ''gateway route not found; metrics and backups are per worker'')
          else (case rest of
              [] \<Rightarrow> Inl (Invalid ''namespace required'')
            | name # _ \<Rightarrow> rbind (validate_id name) (\<lambda>_. ok_or Unavailable (shard_for (net_ext N) name (gw_shards G))))
      | _ \<Rightarrow> Inl (NotFound ''gateway route not found; metrics and backups are per worker''))"

definition path_and_query :: "http_request \<Rightarrow> string" where
  "path_and_query req = req_path req @ (if req_query req = [] then [] else ''?'' @ req_query req)"

definition forward :: "network \<Rightarrow> gateway \<Rightarrow> http_request \<Rightarrow> gw_reply gw" where
  "forward N G req =
     gw_bind (gw_lift (route_shard N G (req_path req))) (\<lambda>sh.
     gw_bind (owner N G sh) (\<lambda>url.
     gw_bind (gw_lift (if MAX_BODY_BYTES < length (req_body req)
        then Inl (Request 413 ''request exceeds 8 MiB'') else Inr ())) (\<lambda>_ s.
       let u = url @ path_and_query req; s1 = submit N G (req_method req) u (req_body req) s in
       case net_reply N (req_method req) (net_parse N u) (req_body req) of
         None \<Rightarrow> (Inl Network, forget_owner (shard_id sh) s1)
       | Some (status, b) \<Rightarrow>
           (Inr (Forwarded status b), if 500 \<le> status \<and> status < 600 then forget_owner (shard_id sh) s1 else s1))))"

definition gateway_forward :: "network \<Rightarrow> gateway \<Rightarrow> http_request \<Rightarrow> gw_reply gw" where
  "gateway_forward N G req =
     gw_bind (gw_lift (authorize (gw_access G) req)) (\<lambda>_.
     gw_bind (gw_lift (if net_permits N = 0 then Inl Busy else Inr ())) (\<lambda>_.
       if req_path req = ''/v1/namespaces'' \<and> req_method req = GET
       then gw_bind (gw_lift (case net_page_query N (req_query req) of Inl m \<Rightarrow> Inl (Invalid m) | Inr p \<Rightarrow> Inr p)) (\<lambda>p.
            gw_bind (gw_lift (validate_page p)) (\<lambda>_.
            gw_bind (shard_pages N G p (gw_shards G)) (\<lambda>pages.
            gw_lift (Inr (Listing (merge_pages (page_limit p) pages))))))
       else forward N G req))"

definition gateway_ready :: "network \<Rightarrow> gateway \<Rightarrow> unit result" where
  "gateway_ready N G = for_each (\<lambda>sh. rbind (discover (net_probe N) (gw_identities G) sh) (\<lambda>_. Inr ())) (gw_shards G)"

subsection \<open>Starting\<close>

text \<open>The topology object: the identities of the shards, written once and compared ever after.\<close>

fun discover_all :: "(string \<Rightarrow> probe_answer) \<Rightarrow> shard_config list \<Rightarrow> (string, string) btree \<Rightarrow> (string, string) btree result" where
  "discover_all ask [] ids = Inr ids"
| "discover_all ask (sh # shs) ids =
     rbind (discover ask ids sh) (\<lambda>(_, identity). discover_all ask shs (bt_put (shard_id sh) identity ids))"

text \<open>A conditional create: it succeeds on an absent object only; a reported failure may have happened.\<close>

definition pin_topology :: "bytes \<Rightarrow> fault \<Rightarrow> bytes option \<Rightarrow> unit result \<times> bytes option" where
  "pin_topology expected fault stored =
     (case fault of
        FailClean \<Rightarrow> (Inl ObjectStore, stored)
      | FailDurable \<Rightarrow> (Inl ObjectStore, case stored of None \<Rightarrow> Some expected | Some b \<Rightarrow> Some b)
      | NoFault \<Rightarrow>
          (case stored of
             None \<Rightarrow> (Inr (), Some expected)
           | Some b \<Rightarrow>
               if b \<noteq> expected
               then (Inl (Config ''gateway topology differs from stored placement; migrate data before changing shards''), stored)
               else (Inr (), stored)))"

definition printable_token :: "string \<Rightarrow> bool" where
  "printable_token t \<longleftrightarrow> t \<noteq> [] \<and> \<not> list_ex (\<lambda>c. \<not> is_ascii_graphic c) t"

definition start_gateway ::
  "((string, string) btree \<Rightarrow> bytes) \<Rightarrow> (string \<Rightarrow> string option) \<Rightarrow> (string \<Rightarrow> probe_answer) \<Rightarrow> config \<Rightarrow> string option
    \<Rightarrow> fault \<Rightarrow> bytes option \<Rightarrow> gateway result \<times> bytes option"
where
  "start_gateway to_vec env ask conf token fault stored =
     (case cluster conf of
        Some (GatewayConf shs upstream_env) \<Rightarrow>
          (case rbind (ok_or (Config (''missing '' @ upstream_env)) (env upstream_env)) (\<lambda>up.
              if \<not> printable_token up then Inl (Config ''upstream token must be printable ASCII without spaces'')
              else rbind (access_load env token (grants conf)) (\<lambda>acc.
                rbind (discover_all ask shs []) (\<lambda>ids.
                Inr \<lparr>gw_shards = shs, gw_identities = ids, gw_access = acc, gw_token = up\<rparr>))) of
            Inl e \<Rightarrow> (Inl e, stored)
          | Inr G \<Rightarrow>
              (case pin_topology (to_vec (gw_identities G)) fault stored of
                 (Inl e, stored') \<Rightarrow> (Inl e, stored')
               | (Inr _, stored') \<Rightarrow> (Inr G, stored')))
      | _ \<Rightarrow> (Inl (Config ''gateway configuration required''), stored))"

subsection \<open>One request, one submission\<close>

lemma gw_bind_cases:
  "gw_bind m f s = (r, s') \<Longrightarrow> (\<exists>e. m s = (Inl e, s') \<and> r = Inl e) \<or> (\<exists>a t. m s = (Inr a, t) \<and> f a t = (r, s'))"
  by (auto simp: gw_bind_def split: prod.splits sum.splits)

lemma gw_lift_eq [simp]: "gw_lift r s = (r', s') \<longleftrightarrow> r' = r \<and> s' = s"
  by (auto simp: gw_lift_def)

lemma gw_lift_bind:
  "gw_bind (gw_lift x) f s = (r, s') \<longleftrightarrow> (\<exists>e. x = Inl e \<and> r = Inl e \<and> s' = s) \<or> (\<exists>a. x = Inr a \<and> f a s = (r, s'))"
  by (cases x) (auto simp: gw_bind_def gw_lift_def)

text \<open>What the cache of owners holds: workers of the shard in question.\<close>

definition cache_ok :: "gateway \<Rightarrow> (string, string \<times> nat) btree \<Rightarrow> bool" where
  "cache_ok G os \<longleftrightarrow> bt_ok os \<and> (\<forall>sh \<in> set (gw_shards G). \<forall>url seen.
     bt_get os (shard_id sh) = Some (url, seen) \<longrightarrow> url \<in> trim_slashes ` set (workers sh))"

lemma discover_worker: "discover ask ids sh = Inr (url, identity) \<Longrightarrow> url \<in> trim_slashes ` set (workers sh)"
proof -
  have "discover_in ask e ws = Inr (url, identity) \<Longrightarrow> url \<in> trim_slashes ` set ws" for e ws
    by (induction ask e ws rule: discover_in.induct) (auto split: probe_answer.splits option.splits if_splits)
  then show "discover ask ids sh = Inr (url, identity) \<Longrightarrow> url \<in> trim_slashes ` set (workers sh)"
    by (simp add: discover_def)
qed

lemma cache_ok_put:
  assumes "cache_ok G os" "sh \<in> set (gw_shards G)" "distinct (map shard_id (gw_shards G))" "url \<in> trim_slashes ` set (workers sh)"
  shows "cache_ok G (bt_put (shard_id sh) (url, seen) os)"
  using assms by (auto simp: cache_ok_def distinct_map inj_on_def split: if_splits)

lemma owner_worker:
  assumes "owner N G sh s = (r, s')" "cache_ok G (owners s)" "sh \<in> set (gw_shards G)" "distinct (map shard_id (gw_shards G))"
  shows "sent s' = sent s \<and> cache_ok G (owners s') \<and> (\<forall>url. r = Inr url \<longrightarrow> url \<in> trim_slashes ` set (workers sh))"
proof -
  have disc: "sent s' = sent s \<and> cache_ok G (owners s') \<and> (\<forall>url. r = Inr url \<longrightarrow> url \<in> trim_slashes ` set (workers sh))"
    if "gw_bind (gw_lift (discover (net_probe N) (gw_identities G) sh)) (\<lambda>(url, _) s.
        (Inr url, s\<lparr>owners := bt_put (shard_id sh) (url, net_now N) (owners s)\<rparr>)) s = (r, s')"
    using that discover_worker cache_ok_put[OF assms(2-4)] assms(2) by (auto simp: gw_lift_bind)
  show ?thesis
  proof (cases "bt_get (owners s) (shard_id sh)")
    case None
    with assms(1) disc show ?thesis by (simp add: owner_def)
  next
    case (Some p)
    obtain url seen where p: "p = (url, seen)" by force
    show ?thesis
    proof (cases "net_now N - seen < 1000")
      case True
      with assms Some p show ?thesis by (auto simp: owner_def cache_ok_def)
    next
      case False
      with assms(1) Some p disc show ?thesis by (simp add: owner_def)
    qed
  qed
qed

lemma cache_ok_forget: "cache_ok G os \<Longrightarrow> cache_ok G (bt_del i os)"
  by (auto simp: cache_ok_def split: if_splits)

lemma route_shard_Inr:
  assumes "route_shard N G path = Inr sh"
  obtains name rest where "path_parts path = ''v1'' # ''namespaces'' # name # rest" "valid_id name"
    "shard_for (net_ext N) name (gw_shards G) = Some sh"
  using assms by (auto simp: route_shard_def split: list.splits if_splits)

lemma shard_for_in: "shard_for X n shs = Some sh \<Longrightarrow> sh \<in> set shs"
  by (simp add: shard_for_def max_by_key_in)

lemma forward_once:
  assumes "forward N G req s = (r, s')" "cache_ok G (owners s)" "distinct (map shard_id (gw_shards G))"
  shows "cache_ok G (owners s') \<and> (sent s' = sent s \<and> (\<exists>e. r = Inl e)
    \<or> (\<exists>name rest sh w. path_parts (req_path req) = ''v1'' # ''namespaces'' # name # rest \<and> valid_id name
        \<and> shard_for (net_ext N) name (gw_shards G) = Some sh \<and> w \<in> set (workers sh)
        \<and> sent s' = sent s @ [\<lparr>up_method = req_method req, up_url = net_parse N (trim_slashes w @ path_and_query req),
            up_token = gw_token G, up_body = req_body req\<rparr>]))"
proof (cases "route_shard N G (req_path req)")
  case (Inl e)
  with assms show ?thesis by (auto simp: forward_def gw_lift_bind)
next
  case (Inr sh)
  from Inr obtain name rest where path: "path_parts (req_path req) = ''v1'' # ''namespaces'' # name # rest"
    "valid_id name" "shard_for (net_ext N) name (gw_shards G) = Some sh" by (rule route_shard_Inr)
  obtain o1 s1 where own: "owner N G sh s = (o1, s1)" by force
  note ow = owner_worker[OF own assms(2) shard_for_in[OF path(3)] assms(3)]
  show ?thesis
  proof (cases o1)
    case (Inl e)
    with assms(1) Inr own ow show ?thesis by (auto simp: forward_def gw_bind_def gw_lift_def)
  next
    case (Inr url)
    then obtain w where w: "w \<in> set (workers sh)" "url = trim_slashes w" using ow by auto
    from ow cache_ok_forget have "cache_ok G (owners s1)" "cache_ok G (owners (forget_owner i (s1\<lparr>sent := t\<rparr>)))" for i t
      by (simp_all add: forget_owner_def)
    with assms(1) own Inr ow w path \<open>route_shard N G (req_path req) = Inr sh\<close> show ?thesis
      by (auto simp: forward_def gw_bind_def gw_lift_def submit_def Let_def forget_owner_def split: if_splits option.splits)
  qed
qed


subsection \<open>What the forwarded path can reach\<close>

lemma authorize_namespace:
  assumes "admin acc = Some adm" "auth_header req = Some h" "\<not> equal_token adm h"
    "(token, n, wr) \<in> set (acc_grants acc)" "equal_token token h"
    "request_namespace (path_parts (strip_v1 (req_path req))) = Some n" "req_method req = GET"
  shows "authorize acc req = Inr ()"
  unfolding authorize_Inr_iff using assms by (force simp: grants_of_def is_read_def)

lemma split_slash_plain: "slash \<notin> set w \<Longrightarrow> split_slash (w @ slash # r) = w # split_slash r"
  by (rule split_on_append_sep) auto

lemma path_parts_segment: "slash \<notin> set w \<Longrightarrow> w \<noteq> [] \<Longrightarrow> path_parts (w @ slash # r) = w # path_parts r"
  by (simp add: path_parts_def split_slash_plain)

lemma path_parts_slash: "path_parts (slash # r) = path_parts r"
  by (simp add: path_parts_def)

lemma dotted_parts:
  assumes "valid_id n"
  shows "path_parts (''/v1/namespaces/'' @ n @ ''/../'' @ t) = ''v1'' # ''namespaces'' # n # ''..'' # path_parts t"
    "path_parts (strip_v1 (''/v1/namespaces/'' @ n @ ''/../'' @ t)) = ''namespaces'' # n # ''..'' # path_parts t"
proof -
  have n: "slash \<notin> set n" "n \<noteq> []" using assms valid_id_no_slash by (auto simp: valid_id_def)
  have seg: "path_parts (''namespaces'' @ slash # r) = ''namespaces'' # path_parts r"
    "path_parts (n @ slash # r) = n # path_parts r" "path_parts (''..'' @ slash # r) = ''..'' # path_parts r" for r
    by (rule path_parts_segment; use n in simp)+
  have "path_parts (''namespaces'' @ slash # n @ slash # ''..'' @ slash # t) = ''namespaces'' # n # ''..'' # path_parts t"
    by (simp only: seg)
  then have ns: "path_parts (''namespaces/'' @ n @ ''/../'' @ t) = ''namespaces'' # n # ''..'' # path_parts t" by simp
  have "path_parts (''v1'' @ slash # ''namespaces/'' @ n @ ''/../'' @ t) = ''v1'' # path_parts (''namespaces/'' @ n @ ''/../'' @ t)"
    by (rule path_parts_segment) simp_all
  then show "path_parts (''/v1/namespaces/'' @ n @ ''/../'' @ t) = ''v1'' # ''namespaces'' # n # ''..'' # path_parts t"
    using ns path_parts_slash[of "''v1/namespaces/'' @ n @ ''/../'' @ t"] by simp
  show "path_parts (strip_v1 (''/v1/namespaces/'' @ n @ ''/../'' @ t)) = ''namespaces'' # n # ''..'' # path_parts t"
    using ns path_parts_slash[of "''namespaces/'' @ n @ ''/../'' @ t"] by (simp add: strip_v1_def)
qed

text \<open>C34: Known defect: the gateway checks the grant on the path as it was written but hands the same
  path to an HTTP client that resolves dot segments. A token that may only read namespace \<open>n\<close>
  therefore makes the gateway request, under its own worker credential, any path below
  \<open>/v1/namespaces\<close> on the worker of \<open>n\<close>'s shard: here an arbitrary namespace's resource.\<close>
theorem dot_segments_escape_grant:
  assumes "admin (gw_access G) = Some adm" "auth_header req = Some h" "\<not> equal_token adm h"
    "(h, n, False) \<in> set (acc_grants (gw_access G))" "equal_token h h" "valid_id n"
    "req_method req = GET" "req_path req = ''/v1/namespaces/'' @ n @ ''/../'' @ target" "req_query req = []"
    "length (req_body req) \<le> MAX_BODY_BYTES" "net_permits N \<noteq> 0"
    "shard_for (net_ext N) n (gw_shards G) = Some sh" "owner N G sh s = (Inr url, s1)"
    "net_parse N (url @ ''/v1/namespaces/'' @ n @ ''/../'' @ target) = url @ ''/v1/namespaces/'' @ target"
  shows "sent (snd (gateway_forward N G req s)) = sent s1 @ [\<lparr>up_method = GET,
    up_url = url @ ''/v1/namespaces/'' @ target, up_token = gw_token G, up_body = req_body req\<rparr>]"
proof -
  have "request_namespace (path_parts (strip_v1 (req_path req))) = Some n"
    by (simp only: assms(8) dotted_parts(2)[OF assms(6)]) (simp add: request_namespace_def)
  from authorize_namespace[OF assms(1-5) this assms(7)] have auth: "authorize (gw_access G) req = Inr ()" .
  have route: "route_shard N G (req_path req) = Inr sh"
    by (simp only: route_shard_def assms(8) dotted_parts(1)[OF assms(6)]) (simp add: assms(6,12))
  have "req_path req \<noteq> ''/v1/namespaces''" by (simp add: assms(8))
  then have "gateway_forward N G req s = forward N G req s"
    using auth assms(11) by (simp add: gateway_forward_def gw_bind_def gw_lift_def)
  moreover have "path_and_query req = ''/v1/namespaces/'' @ n @ ''/../'' @ target"
    using assms(8,9) by (simp only: path_and_query_def) simp
  ultimately show ?thesis
    using assms(10,13,14) route assms(7)
    by (auto simp: forward_def gw_bind_def gw_lift_def submit_def Let_def forget_owner_def split: option.split)
qed

subsection \<open>The pinned topology\<close>

lemma start_gateway_Some:
  assumes "start_gateway to_vec env ask conf token fault (Some b) = (r, st)"
  shows "st = Some b \<and> (\<forall>G. r = Inr G \<longrightarrow> to_vec (gw_identities G) = b)"
  using assms by (auto simp: start_gateway_def pin_topology_def split: option.splits cluster_config.splits sum.splits prod.splits fault.splits if_splits)

lemma start_gateway_None:
  assumes "start_gateway to_vec env ask conf token fault None = (Inr G, st)"
  shows "st = Some (to_vec (gw_identities G))"
  using assms by (auto simp: start_gateway_def pin_topology_def split: option.splits cluster_config.splits sum.splits prod.splits fault.splits if_splits)


subsection \<open>Concrete instances\<close>

definition sample_shard :: shard_config where
  "sample_shard = \<lparr>shard_id = ''a'', workers = [''http://w/'']\<rparr>"

definition sample_gateway :: gateway where
  "sample_gateway = \<lparr>gw_shards = [sample_shard], gw_identities = [(''a'', ''i'')], gw_access = sample_access, gw_token = ''up''\<rparr>"

definition sample_network :: network where
  "sample_network = \<lparr>net_ext = sample_ext, net_now = 5000, net_permits = 64, net_probe = (\<lambda>_. Identity (Some ''i'')),
     net_parse = (\<lambda>u. if u = ''http://w/v1/namespaces/n/../m/stats'' then ''http://w/v1/namespaces/m/stats'' else u),
     net_page_query = (\<lambda>_. Inr default_page), net_page = (\<lambda>_. Inl Network), net_reply = (\<lambda>_ _ _. Some (200, []))\<rparr>"

definition idle_gateway :: gw_state where "idle_gateway = \<lparr>owners = [], sent = []\<rparr>"

lemma sample_owner:
  "owner sample_network sample_gateway sample_shard idle_gateway
    = (Inr ''http://w'', \<lparr>owners = [(''a'', ''http://w'', 5000)], sent = []\<rparr>)"
  by (simp add: owner_def idle_gateway_def gw_bind_def gw_lift_def discover_def sample_network_def sample_gateway_def
      sample_shard_def trim_end_def)

lemma sample_shard_for: "shard_for X n (gw_shards sample_gateway) = Some sample_shard"
  by (simp add: shard_for_def sample_gateway_def)

lemma sample_tokens:
  "admin sample_access = Some (bearer ''root'')" "\<not> equal_token (bearer ''root'') (bearer ''t'')"
  "equal_token (bearer ''t'') (bearer ''t'')" "(bearer ''t'', ''n'', False) \<in> set (acc_grants sample_access)"
  by (simp_all add: sample_access_def bearer_def equal_token_def token_difference_zero)

lemma valid_n: "valid_id ''n''"
  by (simp add: valid_id_def id_char_def)

theorem dot_segments_escape_grant_witness:
  "sent (snd (gateway_forward sample_network sample_gateway (sample_request GET ''/v1/namespaces/n/../m/stats'') idle_gateway))
    = [\<lparr>up_method = GET, up_url = ''http://w/v1/namespaces/m/stats'', up_token = ''up'', up_body = []\<rparr>]"
  using dot_segments_escape_grant[of sample_gateway "bearer ''root''" "sample_request GET ''/v1/namespaces/n/../m/stats''"
      "bearer ''t''" "''n''" "''m/stats''" sample_network sample_shard idle_gateway]
    sample_owner sample_tokens sample_shard_for valid_n
  by (simp add: sample_gateway_def sample_request_def sample_network_def)


text \<open>A serialisation of the identities that can be read back.\<close>

definition sample_to_vec :: "(string, string) btree \<Rightarrow> bytes" where
  "sample_to_vec ids = concat (map (\<lambda>(k, v). escape k @ dquote # escape v @ [dquote]) ids)"

lemma inj_sample_to_vec: "inj sample_to_vec"
proof (rule injI)
  fix a b
  assume "sample_to_vec a = sample_to_vec b"
  then show "a = b"
  proof (induction a arbitrary: b)
    case Nil
    then show ?case by (cases b) (auto simp: sample_to_vec_def)
  next
    case (Cons p a)
    obtain k v where p: "p = (k, v)" by force
    from Cons.prems obtain k' v' b' where b: "b = (k', v') # b'"
      by (cases b) (auto simp: sample_to_vec_def p)
    from Cons.prems have e: "escape k @ dquote # escape v @ dquote # sample_to_vec a = escape k' @ dquote # escape v' @ dquote # sample_to_vec b'"
      by (simp add: sample_to_vec_def p b)
    from arg_cong[OF e, of read_label_value] have k: "k = k'" "escape v @ dquote # sample_to_vec a = escape v' @ dquote # sample_to_vec b'"
      by (simp_all add: read_escape)
    from arg_cong[OF k(2), of read_label_value] have "v = v'" "sample_to_vec a = sample_to_vec b'"
      by (simp_all add: read_escape)
    with Cons.IH k(1) show ?case by (simp add: p b)
  qed
qed

definition gateway_config :: config where
  "gateway_config = default_config\<lparr>cluster := Some (GatewayConf [sample_shard] ''UP'')\<rparr>"


text \<open>Two shards, the namespaces \<open>n\<close> and \<open>m\<close>, and a page of one.\<close>

definition ns_m :: namespace where "ns_m = \<lparr>ns_name = ''m'', ns_conf = ex_conf\<rparr>"

definition ex_db_m :: db where
  "ex_db_m = ex_db0\<lparr>kv := [(FORMAT_KEY, FORMAT), (namespace_key ''m'', enc_ns sample_ext ns_m)]\<rparr>"

lemma two_shards:
  "names_of sample_ext (kv ex_db1) = [ex_ns]" "names_fine sample_ext (kv ex_db1)"
  "names_of sample_ext (kv ex_db_m) = [ns_m]" "names_fine sample_ext (kv ex_db_m)"
  "bt_ok (kv ex_db_m)" "check_ready ex_db_m = Inr ()"
  using sample_json_codec
  by (simp_all add: names_of_def names_fine_def scan_prefix_def ex_db1_def ex_db0_def ex_db_m_def key_defs ex_ns_def ns_m_def
      check_ready_def del: sample_sel)

theorem merged_page_of_union_witness:
  "\<exists>pages. collect_res (\<lambda>d. fst (namespaces sample_ext \<lparr>page_limit = 1, page_after = None\<rparr> d)) [ex_db1, ex_db_m] = Inr pages
    \<and> merge_pages 1 pages = \<lparr>items = [ns_m], next_cursor = Some ''m''\<rparr>"
proof -
  have "validate_page \<lparr>page_limit = 1, page_after = None\<rparr> = Inr ()" by (simp add: validate_page_def MAX_PAGE_SIZE_def)
  from merged_page_of_union[OF this, of "[ex_db1, ex_db_m]" sample_ext] two_shards obtain pages where
    p: "collect_res (\<lambda>d. fst (namespaces sample_ext \<lparr>page_limit = 1, page_after = None\<rparr> d)) [ex_db1, ex_db_m] = Inr pages"
    and m: "merge_pages 1 pages = names_page 1 (names_after None (sort_key ns_name [ex_ns, ns_m]))"
    by (auto simp: ex_ns_def ns_m_def)
  have "sort_key ns_name [ex_ns, ns_m] = [ns_m, ex_ns]"
    by (simp add: ex_ns_def ns_m_def)
  with m have "merge_pages 1 pages = \<lparr>items = [ns_m], next_cursor = Some ''m''\<rparr>"
    by (simp add: names_page_def names_after_def ns_m_def)
  with p show ?thesis by blast
qed

end
