(* ===== verification/Lease.thy ===== *)
theory Lease
  imports Prelude
begin

section \<open>Leases of a shard (cluster.rs)\<close>

text \<open>
  The workers of a shard share one lease object and change it by conditional puts only. Each
  runs the loop of \<open>run_worker\<close>; the functions here are its stretches between two awaits, and
  \<open>shard_step\<close> interleaves the loops of any number of workers with the store. Time is one clock in
  milliseconds of which a worker only uses differences, as the code does with \<open>Instant\<close>. A put is
  a message: it takes effect at any later moment, also after its sender has given up, or never;
  a worker may be slow, paused, or crash and start again at any point.
\<close>

subsection \<open>The state of a worker\<close>

record lease =
  lease_node :: string
  nonce :: string
  ttl_ms :: nat

datatype put_mode = Create | Update string

text \<open>What a read of the lease object gives: its ETag if it has one, its content if it decodes.\<close>

datatype lease_read = Missing | Unreadable | Found "string option" "lease option"

datatype opening_result = Running | Opened | OpenFailed | Panicked

text \<open>Where the loop is: waiting for the next tick, and then after each await of a round.\<close>

datatype control =
    Waiting
  | Checked
  | Asking nat
  | Answered nat lease_read
  | Putting put_mode nat
  | Sent nat lease
  | Finishing
  | Stopped

record active =
  until :: nat
  fenced :: bool

record worker =
  observed :: "(string \<times> nat) option"
  owned :: "string option"
  deadline :: nat
  opening_task :: "opening_result option"
  active_state :: "active option"
  control :: control

definition start_worker :: "nat \<Rightarrow> worker" where
  "start_worker t = \<lparr>observed = None, owned = None, deadline = t, opening_task = None, active_state = None, control = Waiting\<rparr>"

text \<open>\<open>worker_forward\<close> and \<open>worker_ready\<close> admit a request only within the lease, on an open database.\<close>

definition admits :: "nat \<Rightarrow> worker \<Rightarrow> bool" where
  "admits t w \<longleftrightarrow> (case active_state w of None \<Rightarrow> False | Some a \<Rightarrow> t < until a \<and> \<not> fenced a)"

subsection \<open>The stretches of the loop\<close>

definition retire :: "worker \<Rightarrow> worker" where
  "retire w = w\<lparr>active_state := None, opening_task := None\<rparr>"

definition lose :: "worker \<Rightarrow> worker" where
  "lose w = w\<lparr>owned := None, observed := None\<rparr>"

definition check_lease :: "nat \<Rightarrow> worker \<Rightarrow> worker" where
  "check_lease t w =
     (let failed = (case active_state w of None \<Rightarrow> False | Some a \<Rightarrow> fenced a) in
      (if owned w \<noteq> None \<and> (deadline w \<le> t \<or> failed) then lose (retire w) else w)\<lparr>control := Checked\<rparr>)"

definition start_round :: "nat \<Rightarrow> worker \<Rightarrow> worker" where
  "start_round started w =
     w\<lparr>control := (case owned w of Some v \<Rightarrow> Putting (Update v) started | None \<Rightarrow> Asking started)\<rparr>"

definition on_lease :: "nat \<Rightarrow> nat \<Rightarrow> lease_read \<Rightarrow> worker \<Rightarrow> worker" where
  "on_lease t started reply w =
     (case reply of
        Missing \<Rightarrow> w\<lparr>control := Putting Create started\<rparr>
      | Unreadable \<Rightarrow> w\<lparr>control := Waiting\<rparr>
      | Found None _ \<Rightarrow> w\<lparr>control := Stopped\<rparr>
      | Found (Some etag) None \<Rightarrow> w\<lparr>control := Stopped\<rparr>
      | Found (Some etag) (Some l) \<Rightarrow>
          if \<not> (3000 \<le> ttl_ms l \<and> ttl_ms l \<le> 300000) then w\<lparr>control := Stopped\<rparr>
          else (case observed w of
              Some (old, since) \<Rightarrow>
                if old = etag \<and> ttl_ms l \<le> t - since then w\<lparr>control := Putting (Update etag) started\<rparr>
                else if old = etag then w\<lparr>control := Waiting\<rparr>
                else w\<lparr>observed := Some (etag, t), control := Waiting\<rparr>
            | None \<Rightarrow> w\<lparr>observed := Some (etag, t), control := Waiting\<rparr>))"

text \<open>The outcome of the put: the ETag of the new object, or an error or a timeout.\<close>

definition on_put :: "nat \<Rightarrow> nat \<Rightarrow> nat \<Rightarrow> string option \<Rightarrow> worker \<Rightarrow> worker" where
  "on_put ttl t started result w =
     (case result of
        Some etag \<Rightarrow>
          if t - started < ttl
          then (let w1 = w\<lparr>owned := Some etag, deadline := started + ttl\<rparr> in
                if owned w \<noteq> None
                then w1\<lparr>active_state := map_option (until_update (\<lambda>_. started + ttl)) (active_state w), control := Finishing\<rparr>
                else w1\<lparr>opening_task := Some Running, control := Finishing\<rparr>)
          else (lose (retire w))\<lparr>control := Finishing\<rparr>
      | None \<Rightarrow> (lose (retire w))\<lparr>control := Finishing\<rparr>)"

definition finish_round :: "nat \<Rightarrow> worker \<Rightarrow> worker" where
  "finish_round t w =
     (if owned w = None then w\<lparr>control := Waiting\<rparr>
      else (case opening_task w of
          Some Opened \<Rightarrow>
            if t < deadline w
            then w\<lparr>opening_task := None, active_state := Some \<lparr>until = deadline w, fenced = False\<rparr>, control := Waiting\<rparr>
            else (lose w)\<lparr>opening_task := None, control := Waiting\<rparr>
        | Some OpenFailed \<Rightarrow> (lose w)\<lparr>opening_task := None, control := Waiting\<rparr>
        | Some Panicked \<Rightarrow> w\<lparr>opening_task := None, control := Stopped\<rparr>
        | _ \<Rightarrow> w\<lparr>control := Waiting\<rparr>))"

definition stop_worker :: "worker \<Rightarrow> worker" where
  "stop_worker w = (retire w)\<lparr>control := Stopped\<rparr>"

subsection \<open>The shard\<close>

text \<open>
  The lease object by its history: every content it had with the time it was written, the last
  one current. \<open>etag\<close> is the store's ETag of a content; a nonce is fresh, as a random UUID is.
\<close>

record shard =
  clock :: nat
  history :: "(lease \<times> nat) list"
  in_flight :: "(string \<times> put_mode \<times> lease) list"
  nodes :: "string \<Rightarrow> worker"

definition set_node :: "string \<Rightarrow> worker \<Rightarrow> shard \<Rightarrow> shard" where
  "set_node n w \<sigma> = \<sigma>\<lparr>nodes := (nodes \<sigma>)(n := w)\<rparr>"

definition read_object :: "(lease \<Rightarrow> string) \<Rightarrow> shard \<Rightarrow> lease_read" where
  "read_object etag \<sigma> =
     (if history \<sigma> = [] then Missing
      else (let l = fst (last (history \<sigma>)) in Found (Some (etag l)) (Some l)))"

definition put_applies :: "(lease \<Rightarrow> string) \<Rightarrow> put_mode \<Rightarrow> shard \<Rightarrow> bool" where
  "put_applies etag m \<sigma> =
     (case m of Create \<Rightarrow> history \<sigma> = []
      | Update e \<Rightarrow> history \<sigma> \<noteq> [] \<and> etag (fst (last (history \<sigma>))) = e)"

definition used_nonces :: "(lease \<times> nat) list \<Rightarrow> string set" where
  "used_nonces H = nonce ` fst ` set H"

inductive shard_step :: "(lease \<Rightarrow> string) \<Rightarrow> (string \<Rightarrow> nat) \<Rightarrow> shard \<Rightarrow> shard \<Rightarrow> bool" for etag ttl where
  time: "shard_step etag ttl \<sigma> (\<sigma>\<lparr>clock := clock \<sigma> + dt\<rparr>)"
| check: "control (nodes \<sigma> n) = Waiting \<Longrightarrow> shard_step etag ttl \<sigma> (set_node n (check_lease (clock \<sigma>) (nodes \<sigma> n)) \<sigma>)"
| start: "control (nodes \<sigma> n) = Checked \<Longrightarrow> shard_step etag ttl \<sigma> (set_node n (start_round (clock \<sigma>) (nodes \<sigma> n)) \<sigma>)"
| read: "control (nodes \<sigma> n) = Asking st \<Longrightarrow> r = read_object etag \<sigma> \<or> r = Unreadable \<Longrightarrow>
    shard_step etag ttl \<sigma> (set_node n ((nodes \<sigma> n)\<lparr>control := Answered st r\<rparr>) \<sigma>)"
| answer: "control (nodes \<sigma> n) = Answered st r \<Longrightarrow>
    shard_step etag ttl \<sigma> (set_node n (on_lease (clock \<sigma>) st r (nodes \<sigma> n)) \<sigma>)"
| send: "control (nodes \<sigma> n) = Putting m st \<Longrightarrow> l = \<lparr>lease_node = n, nonce = u, ttl_ms = ttl n\<rparr> \<Longrightarrow>
    u \<notin> used_nonces (history \<sigma>) \<Longrightarrow> u \<notin> (\<lambda>(_, _, l). nonce l) ` set (in_flight \<sigma>) \<Longrightarrow>
    shard_step etag ttl \<sigma> ((set_node n ((nodes \<sigma> n)\<lparr>control := Sent st l\<rparr>) \<sigma>)\<lparr>in_flight := (n, m, l) # in_flight \<sigma>\<rparr>)"
| apply_put: "(n, m, l) \<in> set (in_flight \<sigma>) \<Longrightarrow>
    shard_step etag ttl \<sigma> (\<sigma>\<lparr>in_flight := remove1 (n, m, l) (in_flight \<sigma>),
      history := history \<sigma> @ (if put_applies etag m \<sigma> then [(l, clock \<sigma>)] else [])\<rparr>)"
| accepted: "control (nodes \<sigma> n) = Sent st l \<Longrightarrow> l \<in> fst ` set (history \<sigma>) \<Longrightarrow>
    shard_step etag ttl \<sigma> (set_node n (on_put (ttl n) (clock \<sigma>) st (Some (etag l)) (nodes \<sigma> n)) \<sigma>)"
| rejected: "control (nodes \<sigma> n) = Sent st l \<Longrightarrow>
    shard_step etag ttl \<sigma> (set_node n (on_put (ttl n) (clock \<sigma>) st None (nodes \<sigma> n)) \<sigma>)"
| finish: "control (nodes \<sigma> n) = Finishing \<Longrightarrow> shard_step etag ttl \<sigma> (set_node n (finish_round (clock \<sigma>) (nodes \<sigma> n)) \<sigma>)"
| opened: "opening_task (nodes \<sigma> n) = Some Running \<Longrightarrow>
    shard_step etag ttl \<sigma> (set_node n ((nodes \<sigma> n)\<lparr>opening_task := Some r\<rparr>) \<sigma>)"
| fence: "active_state (nodes \<sigma> n) = Some a \<Longrightarrow>
    shard_step etag ttl \<sigma> (set_node n ((nodes \<sigma> n)\<lparr>active_state := Some (a\<lparr>fenced := True\<rparr>)\<rparr>) \<sigma>)"
| stop: "control (nodes \<sigma> n) = Waiting \<Longrightarrow> shard_step etag ttl \<sigma> (set_node n (stop_worker (nodes \<sigma> n)) \<sigma>)"
| crash: "shard_step etag ttl \<sigma> (set_node n (start_worker (clock \<sigma>)) \<sigma>)"

inductive_cases shard_step_cases [elim]: "shard_step etag ttl \<sigma> \<sigma>'"

definition fresh_shard :: "shard \<Rightarrow> bool" where
  "fresh_shard \<sigma> \<longleftrightarrow> history \<sigma> = [] \<and> in_flight \<sigma> = [] \<and> (\<forall>n. nodes \<sigma> n = start_worker (clock \<sigma>))"

inductive shard_reachable :: "(lease \<Rightarrow> string) \<Rightarrow> (string \<Rightarrow> nat) \<Rightarrow> shard \<Rightarrow> bool" for etag ttl where
  init: "fresh_shard \<sigma> \<Longrightarrow> shard_reachable etag ttl \<sigma>"
| step: "shard_reachable etag ttl \<sigma> \<Longrightarrow> shard_step etag ttl \<sigma> \<sigma>' \<Longrightarrow> shard_reachable etag ttl \<sigma>'"

subsection \<open>The invariant\<close>

text \<open>
  Writes follow one another in time, and one by another node comes only after the lease before
  it has run out. What a node holds is a write of its own, and its deadline lies within that
  write's term, because it counts from before the write was made.
\<close>

definition later :: "lease \<times> nat \<Rightarrow> lease \<times> nat \<Rightarrow> bool" where
  "later x y \<longleftrightarrow> snd x \<le> snd y \<and> (lease_node (fst x) \<noteq> lease_node (fst y) \<longrightarrow> snd x + ttl_ms (fst x) \<le> snd y)"

definition history_ok :: "(string \<Rightarrow> nat) \<Rightarrow> nat \<Rightarrow> (lease \<times> nat) list \<Rightarrow> bool" where
  "history_ok ttl t H \<longleftrightarrow> sorted_wrt later H \<and> distinct (map (nonce \<circ> fst) H)
     \<and> (\<forall>(l, a) \<in> set H. a \<le> t \<and> ttl_ms l = ttl (lease_node l))"

definition mode_ok :: "(lease \<Rightarrow> string) \<Rightarrow> (lease \<times> nat) list \<Rightarrow> nat \<Rightarrow> string \<Rightarrow> put_mode \<Rightarrow> bool" where
  "mode_ok etag H t n m \<longleftrightarrow> (\<forall>e. m = Update e \<longrightarrow>
     (\<exists>(l, a) \<in> set H. etag l = e \<and> (lease_node l = n \<or> a + ttl_ms l \<le> t)))"

definition put_ok ::
  "(lease \<Rightarrow> string) \<Rightarrow> (string \<Rightarrow> nat) \<Rightarrow> (lease \<times> nat) list \<Rightarrow> nat \<Rightarrow> string \<times> put_mode \<times> lease \<Rightarrow> bool"
where
  "put_ok etag ttl H t p \<longleftrightarrow> (case p of (n, m, l) \<Rightarrow>
     lease_node l = n \<and> ttl_ms l = ttl n \<and> nonce l \<notin> used_nonces H \<and> mode_ok etag H t n m)"

definition flight_ok ::
  "(lease \<Rightarrow> string) \<Rightarrow> (string \<Rightarrow> nat) \<Rightarrow> (lease \<times> nat) list \<Rightarrow> nat \<Rightarrow> (string \<times> put_mode \<times> lease) list \<Rightarrow> bool"
where
  "flight_ok etag ttl H t fs \<longleftrightarrow> distinct (map (\<lambda>(_, _, l). nonce l) fs) \<and> (\<forall>p \<in> set fs. put_ok etag ttl H t p)"

definition control_ok :: "(lease \<Rightarrow> string) \<Rightarrow> (lease \<times> nat) list \<Rightarrow> nat \<Rightarrow> string \<Rightarrow> control \<Rightarrow> bool" where
  "control_ok etag H t n c \<longleftrightarrow>
     (case c of
        Asking st \<Rightarrow> st \<le> t
      | Answered st r \<Rightarrow> st \<le> t \<and> (\<forall>e l. r = Found (Some e) (Some l) \<longrightarrow> e = etag l \<and> (\<exists>a. (l, a) \<in> set H \<and> a \<le> t))
      | Putting m st \<Rightarrow> st \<le> t \<and> mode_ok etag H t n m
      | Sent st l \<Rightarrow> st \<le> t \<and> lease_node l = n \<and> (\<forall>a. (l, a) \<in> set H \<longrightarrow> st \<le> a)
      | _ \<Rightarrow> True)"

definition worker_ok ::
  "(lease \<Rightarrow> string) \<Rightarrow> (string \<Rightarrow> nat) \<Rightarrow> (lease \<times> nat) list \<Rightarrow> nat \<Rightarrow> string \<Rightarrow> worker \<Rightarrow> bool"
where
  "worker_ok etag ttl H t n w \<longleftrightarrow>
     (\<forall>e. owned w = Some e \<longrightarrow> (\<exists>(l, a) \<in> set H. etag l = e \<and> lease_node l = n \<and> deadline w \<le> a + ttl n))
     \<and> (\<forall>a. active_state w = Some a \<longrightarrow> owned w \<noteq> None \<and> until a = deadline w)
     \<and> (opening_task w \<noteq> None \<longrightarrow> active_state w = None)
     \<and> (\<forall>e since. observed w = Some (e, since) \<longrightarrow> since \<le> t \<and> (\<exists>(l, a) \<in> set H. etag l = e \<and> a \<le> since))
     \<and> control_ok etag H t n (control w)"

definition shard_inv :: "(lease \<Rightarrow> string) \<Rightarrow> (string \<Rightarrow> nat) \<Rightarrow> shard \<Rightarrow> bool" where
  "shard_inv etag ttl \<sigma> \<longleftrightarrow> history_ok ttl (clock \<sigma>) (history \<sigma>)
     \<and> flight_ok etag ttl (history \<sigma>) (clock \<sigma>) (in_flight \<sigma>)
     \<and> (\<forall>n. worker_ok etag ttl (history \<sigma>) (clock \<sigma>) n (nodes \<sigma> n))"

subsubsection \<open>Time passes, the history grows\<close>

lemma mode_ok_mono: "mode_ok etag H t n m \<Longrightarrow> t \<le> t' \<Longrightarrow> set H \<subseteq> set H' \<Longrightarrow> mode_ok etag H' t' n m"
  unfolding mode_ok_def by (fastforce intro: le_trans)

lemma put_ok_mono:
  assumes "put_ok etag ttl H t p" "t \<le> t'" "set H \<subseteq> set H'" "nonce (snd (snd p)) \<notin> used_nonces H'"
  shows "put_ok etag ttl H' t' p"
  using assms mode_ok_mono[OF _ assms(2,3)] by (auto simp: put_ok_def)

lemma used_nonces_simps [simp]: "used_nonces (H @ [(l, a)]) = insert (nonce l) (used_nonces H)" "used_nonces [] = {}"
  by (auto simp: used_nonces_def)

lemma used_nonces_in: "(l, a) \<in> set H \<Longrightarrow> nonce l \<in> used_nonces H"
  by (force simp: used_nonces_def)

lemma control_ok_mono:
  assumes "control_ok etag H t n c" "t \<le> t'" "set H \<subseteq> set H'" "\<forall>(l, a) \<in> set H' - set H. t \<le> a"
  shows "control_ok etag H' t' n c"
proof (cases c)
  case (Answered st r)
  with assms show ?thesis by (fastforce simp: control_ok_def)
next
  case (Putting m st)
  with assms show ?thesis by (auto simp: control_ok_def intro: mode_ok_mono)
next
  case (Sent st l)
  with assms(1) have st: "st \<le> t" "lease_node l = n" "\<forall>a. (l, a) \<in> set H \<longrightarrow> st \<le> a"
    by (simp_all add: control_ok_def)
  have "st \<le> a" if "(l, a) \<in> set H'" for a
  proof (cases "(l, a) \<in> set H")
    case False
    with that assms(4) have "t \<le> a" by blast
    with st(1) show ?thesis by simp
  qed (use st(3) in blast)
  with Sent st assms(2) show ?thesis by (simp add: control_ok_def)
qed (use assms in \<open>auto simp: control_ok_def\<close>)

lemma worker_ok_mono:
  assumes "worker_ok etag ttl H t n w" "t \<le> t'" "set H \<subseteq> set H'" "\<forall>(l, a) \<in> set H' - set H. t \<le> a"
  shows "worker_ok etag ttl H' t' n w"
  unfolding worker_ok_def
proof (intro conjI allI impI)
  show "control_ok etag H' t' n (control w)"
    by (rule control_ok_mono[OF _ assms(2-4)]) (use assms(1) in \<open>simp add: worker_ok_def\<close>)
next
  fix e since
  assume o: "observed w = Some (e, since)"
  with assms(1) have "since \<le> t" "\<exists>(l, a) \<in> set H. etag l = e \<and> a \<le> since" by (auto simp: worker_ok_def)
  with assms(2,3) show "since \<le> t'" "\<exists>(l, a) \<in> set H'. etag l = e \<and> a \<le> since" by (auto 0 4)
qed (use assms(1,3) in \<open>(auto 0 4 simp: worker_ok_def)\<close>)

subsubsection \<open>The stretches keep a worker's part\<close>

lemma worker_ok_control:
  "worker_ok etag ttl H t n w \<Longrightarrow> control_ok etag H t n c \<Longrightarrow> worker_ok etag ttl H t n (w\<lparr>control := c\<rparr>)"
  by (simp add: worker_ok_def)

lemma worker_ok_lost:
  "worker_ok etag ttl H t n w \<Longrightarrow> worker_ok etag ttl H t n (lose (retire w))"
  by (simp add: worker_ok_def lose_def retire_def)

lemma control_ok_simps [simp]:
  "control_ok etag H t n Waiting" "control_ok etag H t n Checked" "control_ok etag H t n Finishing" "control_ok etag H t n Stopped"
  by (simp_all add: control_ok_def)

lemma check_lease_ok: "worker_ok etag ttl H t n w \<Longrightarrow> worker_ok etag ttl H t n (check_lease t w)"
  by (auto simp: check_lease_def Let_def intro!: worker_ok_control worker_ok_lost)

lemma start_round_ok: "worker_ok etag ttl H t n w \<Longrightarrow> worker_ok etag ttl H t n (start_round t w)"
  unfolding start_round_def
  by (rule worker_ok_control) (auto simp: worker_ok_def control_ok_def mode_ok_def split: option.split)

lemma on_lease_ok:
  assumes w: "worker_ok etag ttl H t n w" "control w = Answered st r" and inj: "inj etag"
  shows "worker_ok etag ttl H t n (on_lease t st r w)"
proof -
  from w have st: "st \<le> t" by (simp add: worker_ok_def control_ok_def)
  have create: "control_ok etag H t n (Putting Create st)" using st by (simp add: control_ok_def mode_ok_def)
  show ?thesis
  proof (cases "\<exists>e l. r = Found (Some e) (Some l)")
    case True
    then obtain e l where r: "r = Found (Some e) (Some l)" by blast
    with w obtain a where e: "e = etag l" "(l, a) \<in> set H" "a \<le> t" by (auto simp: worker_ok_def control_ok_def)
    have "control_ok etag H t n (Putting (Update e) st)" if o: "observed w = Some (e, since)" "ttl_ms l \<le> t - since" for since
    proof -
      from w(1) o(1) obtain l' a' where "(l', a') \<in> set H" "etag l' = e" "a' \<le> since" "since \<le> t"
        by (auto simp: worker_ok_def)
      moreover from this e inj have "l' = l" by (simp add: inj_eq)
      ultimately show ?thesis using o(2) st by (auto simp: control_ok_def mode_ok_def intro!: bexI[of _ "(l, a')"])
    qed
    moreover have "worker_ok etag ttl H t n (w\<lparr>observed := Some (e, t), control := Waiting\<rparr>)"
      using w(1) e by (auto simp: worker_ok_def)
    ultimately show ?thesis
      using w(1) by (auto simp: on_lease_def r intro!: worker_ok_control split: option.split)
  qed (use w(1) create in \<open>auto simp: on_lease_def intro!: worker_ok_control split: lease_read.split option.split\<close>)
qed

lemma on_put_ok:
  assumes w: "worker_ok etag ttl H t n w" "control w = Sent st l" and res: "result = None \<or> result = Some (etag l) \<and> l \<in> fst ` set H"
  shows "worker_ok etag ttl H t n (on_put (ttl n) t st result w)"
proof (cases "\<exists>e. result = Some e \<and> t - st < ttl n")
  case False
  then have "on_put (ttl n) t st result w = (lose (retire w))\<lparr>control := Finishing\<rparr>"
    by (auto simp: on_put_def split: option.split)
  then show ?thesis using w(1) by (auto intro: worker_ok_control worker_ok_lost)
next
  case True
  then have r: "result = Some (etag l)" "l \<in> fst ` set H" "t - st < ttl n" using res by auto
  from r(2) obtain a where a: "(l, a) \<in> set H" by auto
  with w have "st \<le> a" "lease_node l = n" by (auto simp: worker_ok_def control_ok_def)
  with a have own: "\<exists>(l', a') \<in> set H. etag l' = etag l \<and> lease_node l' = n \<and> st + ttl n \<le> a' + ttl n"
    by (auto intro!: bexI[of _ "(l, a)"])
  have none: "owned w = None \<Longrightarrow> active_state w = None" using w(1) by (cases "active_state w") (auto simp: worker_ok_def)
  have obs: "observed w = Some (e, since) \<Longrightarrow> since \<le> t \<and> (\<exists>(l, a) \<in> set H. etag l = e \<and> a \<le> since)" for e since
    using w(1) by (simp add: worker_ok_def)
  have task: "opening_task w \<noteq> None \<Longrightarrow> active_state w = None" using w(1) by (simp add: worker_ok_def)
  show ?thesis
    using r own none obs task by (auto simp: on_put_def Let_def worker_ok_def)
qed

lemma finish_round_ok: "worker_ok etag ttl H t n w \<Longrightarrow> worker_ok etag ttl H t n (finish_round t w)"
  by (auto simp: finish_round_def worker_ok_def lose_def split: option.split opening_result.split)

subsubsection \<open>A put that applies\<close>

lemma put_later:
  assumes H: "history_ok ttl t H" and inj: "inj etag" and m: "mode_ok etag H t n m" and l: "lease_node l = n"
    and cas: "case m of Create \<Rightarrow> H = [] | Update e \<Rightarrow> H \<noteq> [] \<and> etag (fst (last H)) = e"
  shows "\<forall>x \<in> set H. later x (l, t)"
proof (cases "H = []")
  case False
  then obtain H1 l1 a1 where h: "H = H1 @ [(l1, a1)]" by (metis rev_exhaust surj_pair)
  with cas False have "m = Update (etag l1)" by (auto split: put_mode.splits)
  with m obtain l0 a0 where l0: "(l0, a0) \<in> set H" "etag l0 = etag l1" "lease_node l0 = n \<or> a0 + ttl_ms l0 \<le> t"
    by (auto simp: mode_ok_def)
  with inj have "l0 = l1" by (simp add: inj_eq)
  moreover from H have "distinct (map (nonce \<circ> fst) H)" by (simp add: history_ok_def)
  ultimately have "a0 = a1" using l0(1) by (force simp: h)
  with \<open>l0 = l1\<close> l0(3) have free: "lease_node l1 = n \<or> a1 + ttl_ms l1 \<le> t" by simp
  from H have ok: "\<forall>x \<in> set H1. later x (l1, a1)" "\<forall>(l, a) \<in> set H. a \<le> t \<and> ttl_ms l = ttl (lease_node l)"
    by (auto simp: history_ok_def h sorted_wrt_append)
  have last: "later (l1, a1) (l, t)" using free ok(2) l by (auto simp: later_def h)
  moreover have "later x (l, t)" if "x \<in> set H1" for x
  proof -
    obtain lx ax where x: "x = (lx, ax)" by force
    have "later (lx, ax) (l1, a1)" "ax \<le> t" "ttl_ms lx = ttl (lease_node lx)" "ttl_ms l1 = ttl (lease_node l1)" "a1 \<le> t"
      using that ok by (auto simp: h x)
    with last l show ?thesis by (cases "lease_node lx = lease_node l1") (auto simp: later_def x)
  qed
  ultimately show ?thesis by (auto simp: h)
qed simp

lemma distinct_map_remove1: "distinct (map f xs) \<Longrightarrow> distinct (map f (remove1 x xs))"
  by (induction xs) (auto dest: set_remove1_subset[THEN subsetD])

lemma apply_put_ok:
  assumes inv: "shard_inv etag ttl \<sigma>" and inj: "inj etag" and f: "(n, m, l) \<in> set (in_flight \<sigma>)" and cas: "put_applies etag m \<sigma>"
  shows "shard_inv etag ttl (\<sigma>\<lparr>in_flight := remove1 (n, m, l) (in_flight \<sigma>), history := history \<sigma> @ [(l, clock \<sigma>)]\<rparr>)"
proof -
  let ?H = "history \<sigma>" and ?t = "clock \<sigma>" and ?fs = "in_flight \<sigma>"
  let ?H' = "?H @ [(l, ?t)]"
  from inv have hist: "history_ok ttl ?t ?H" and fl: "flight_ok etag ttl ?H ?t ?fs"
    and ws: "\<And>n. worker_ok etag ttl ?H ?t n (nodes \<sigma> n)" by (auto simp: shard_inv_def)
  from fl f have "put_ok etag ttl ?H ?t (n, m, l)" by (simp add: flight_ok_def)
  then have l: "lease_node l = n" "ttl_ms l = ttl n" "nonce l \<notin> used_nonces ?H" "mode_ok etag ?H ?t n m"
    by (simp_all add: put_ok_def)
  have "\<forall>x \<in> set ?H. later x (l, ?t)"
    by (rule put_later[OF hist inj l(4) l(1)]) (use cas in \<open>simp add: put_applies_def split: put_mode.splits\<close>)
  moreover have "nonce l \<notin> (nonce \<circ> fst) ` set ?H" using l(3) by (simp add: used_nonces_def image_comp)
  ultimately have "history_ok ttl ?t ?H'"
    using hist l(1,2) by (simp add: history_ok_def sorted_wrt_append)
  moreover have "flight_ok etag ttl ?H' ?t (remove1 (n, m, l) ?fs)"
  proof -
    have d: "distinct (map (\<lambda>(_, _, l). nonce l) ?fs)" using fl by (simp add: flight_ok_def)
    then have "distinct ?fs" by (simp add: distinct_map)
    then have sub: "set (remove1 (n, m, l) ?fs) = set ?fs - {(n, m, l)}" by (rule set_remove1_eq)
    have inj_nonce: "inj_on (\<lambda>(_, _, l). nonce l) (set ?fs)" using d by (simp add: distinct_map)
    have "put_ok etag ttl ?H' ?t p" if "p \<in> set ?fs" "p \<noteq> (n, m, l)" for p
    proof (rule put_ok_mono)
      show old: "put_ok etag ttl ?H ?t p" using that(1) fl by (simp add: flight_ok_def)
      have "nonce (snd (snd p)) \<noteq> nonce l"
        using inj_on_eq_iff[OF inj_nonce that(1) f] that(2) by (cases p) simp
      moreover have "nonce (snd (snd p)) \<notin> used_nonces ?H" using old by (cases p) (simp add: put_ok_def)
      ultimately show "nonce (snd (snd p)) \<notin> used_nonces ?H'" by simp
    qed auto
    then have "\<forall>p \<in> set (remove1 (n, m, l) ?fs). put_ok etag ttl ?H' ?t p" unfolding sub by simp
    with distinct_map_remove1[OF d] show ?thesis by (simp add: flight_ok_def)
  qed
  moreover have "worker_ok etag ttl ?H' ?t k (nodes \<sigma> k)" for k
    by (rule worker_ok_mono[OF ws]) auto
  ultimately show ?thesis by (simp add: shard_inv_def)
qed

subsubsection \<open>Every step\<close>

lemma set_node_inv:
  assumes "shard_inv etag ttl \<sigma>" "worker_ok etag ttl (history \<sigma>) (clock \<sigma>) n w"
  shows "shard_inv etag ttl (set_node n w \<sigma>)"
  using assms by (simp add: shard_inv_def set_node_def)

lemma time_inv:
  assumes "shard_inv etag ttl \<sigma>"
  shows "shard_inv etag ttl (\<sigma>\<lparr>clock := clock \<sigma> + dt\<rparr>)"
proof -
  let ?H = "history \<sigma>"
  have "worker_ok etag ttl ?H (clock \<sigma> + dt) n (nodes \<sigma> n)" for n
    by (rule worker_ok_mono[where t = "clock \<sigma>" and H = ?H]) (use assms in \<open>auto simp: shard_inv_def\<close>)
  moreover have "history_ok ttl (clock \<sigma> + dt) ?H"
    using assms by (auto simp: shard_inv_def history_ok_def)
  moreover have "flight_ok etag ttl ?H (clock \<sigma> + dt) (in_flight \<sigma>)"
    unfolding flight_ok_def
  proof (intro conjI ballI)
    fix p
    assume "p \<in> set (in_flight \<sigma>)"
    with assms have p: "put_ok etag ttl ?H (clock \<sigma>) p" by (simp add: shard_inv_def flight_ok_def)
    then show "put_ok etag ttl ?H (clock \<sigma> + dt) p"
      by (rule put_ok_mono) (use p in \<open>auto simp: put_ok_def\<close>)
  qed (use assms in \<open>simp add: shard_inv_def flight_ok_def\<close>)
  ultimately show ?thesis by (simp add: shard_inv_def)
qed

lemma read_ok:
  assumes "history_ok ttl t (history \<sigma>)" "st \<le> t" "r = read_object etag \<sigma> \<or> r = Unreadable"
  shows "control_ok etag (history \<sigma>) t n (Answered st r)"
proof (cases "history \<sigma> = [] \<or> r = Unreadable")
  case False
  obtain l a where last: "last (history \<sigma>) = (l, a)" by force
  with False have mem: "(l, a) \<in> set (history \<sigma>)" using last_in_set[of "history \<sigma>"] by simp
  then have "a \<le> t" using assms(1) by (auto simp: history_ok_def)
  with False assms(2,3) last mem show ?thesis by (auto simp: control_ok_def read_object_def)
qed (use assms(2,3) in \<open>auto simp: control_ok_def read_object_def\<close>)

lemma send_inv:
  assumes inv: "shard_inv etag ttl \<sigma>" and c: "control_ok etag (history \<sigma>) (clock \<sigma>) n (Putting m st)"
    and l: "lease_node l = n" "ttl_ms l = ttl n" and fresh: "nonce l \<notin> used_nonces (history \<sigma>)"
    "nonce l \<notin> (\<lambda>(_, _, l). nonce l) ` set (in_flight \<sigma>)"
  shows "shard_inv etag ttl ((set_node n ((nodes \<sigma> n)\<lparr>control := Sent st l\<rparr>) \<sigma>)\<lparr>in_flight := (n, m, l) # in_flight \<sigma>\<rparr>)"
proof -
  let ?H = "history \<sigma>" and ?t = "clock \<sigma>"
  from c have st: "st \<le> ?t" "mode_ok etag ?H ?t n m" by (simp_all add: control_ok_def)
  have "(l, a) \<notin> set ?H" for a using fresh(1) used_nonces_in by blast
  with st l have "control_ok etag ?H ?t n (Sent st l)" by (simp add: control_ok_def)
  with inv have "worker_ok etag ttl ?H ?t n ((nodes \<sigma> n)\<lparr>control := Sent st l\<rparr>)"
    by (simp add: shard_inv_def worker_ok_control)
  moreover have "flight_ok etag ttl ?H ?t ((n, m, l) # in_flight \<sigma>)"
    using inv st l fresh by (simp add: shard_inv_def flight_ok_def put_ok_def)
  ultimately show ?thesis using inv by (simp add: shard_inv_def set_node_def)
qed

lemma drop_put_inv:
  assumes "shard_inv etag ttl \<sigma>"
  shows "shard_inv etag ttl (\<sigma>\<lparr>in_flight := remove1 p (in_flight \<sigma>)\<rparr>)"
proof -
  have "set (remove1 p (in_flight \<sigma>)) \<subseteq> set (in_flight \<sigma>)" by (rule set_remove1_subset)
  then show ?thesis using assms distinct_map_remove1 unfolding shard_inv_def flight_ok_def by auto
qed

lemma shard_step_inv:
  assumes step: "shard_step etag ttl \<sigma> \<sigma>'" and inv: "shard_inv etag ttl \<sigma>" and inj: "inj etag"
  shows "shard_inv etag ttl \<sigma>'"
proof -
  let ?H = "history \<sigma>" and ?t = "clock \<sigma>"
  have w: "worker_ok etag ttl ?H ?t n (nodes \<sigma> n)" for n using inv by (simp add: shard_inv_def)
  have hist: "history_ok ttl ?t ?H" using inv by (simp add: shard_inv_def)
  have put: "shard_inv etag ttl (set_node n v \<sigma>)" if "worker_ok etag ttl ?H ?t n v" for n v
    using set_node_inv[OF inv that] .
  have ctl: "control (nodes \<sigma> n) = c \<Longrightarrow> control_ok etag ?H ?t n c" for n c
    using w[of n] by (auto simp: worker_ok_def)
  from step show ?thesis
  proof cases
    case (time dt)
    with time_inv[OF inv] show ?thesis by simp
  next
    case (check n)
    with put check_lease_ok[OF w] show ?thesis by simp
  next
    case (start n)
    with put start_round_ok[OF w] show ?thesis by simp
  next
    case (read n st r)
    from ctl[OF read(2)] have "st \<le> ?t" by (simp add: control_ok_def)
    with put worker_ok_control[OF w] read_ok[OF hist _ read(3)] read(1) show ?thesis by simp
  next
    case (answer n st r)
    with put on_lease_ok[OF w _ inj] show ?thesis by simp
  next
    case (send n m st l u)
    with send_inv[OF inv ctl[OF send(2)], of l] show ?thesis by simp
  next
    case (apply_put n m l)
    then show ?thesis
      using apply_put_ok[OF inv inj apply_put(2)] drop_put_inv[OF inv, of "(n, m, l)"]
      by (cases "put_applies etag m \<sigma>") simp_all
  next
    case (accepted n st l)
    with put on_put_ok[OF w, of n st l "Some (etag l)"] show ?thesis by simp
  next
    case (rejected n st l)
    with put on_put_ok[OF w, of n st l None] show ?thesis by simp
  next
    case (finish n)
    with put finish_round_ok[OF w] show ?thesis by simp
  next
    case (opened n r)
    have "worker_ok etag ttl ?H ?t n ((nodes \<sigma> n)\<lparr>opening_task := Some r\<rparr>)"
      using w[of n] opened(2) by (auto simp: worker_ok_def)
    with put opened(1) show ?thesis by simp
  next
    case (fence n a)
    have "worker_ok etag ttl ?H ?t n ((nodes \<sigma> n)\<lparr>active_state := Some (a\<lparr>fenced := True\<rparr>)\<rparr>)"
      using w[of n] fence(2) by (auto simp: worker_ok_def)
    with put fence(1) show ?thesis by simp
  next
    case (stop n)
    have "worker_ok etag ttl ?H ?t n (stop_worker (nodes \<sigma> n))"
      using w[of n] by (simp add: worker_ok_def stop_worker_def retire_def)
    with put stop(1) show ?thesis by simp
  next
    case (crash n)
    have "worker_ok etag ttl ?H ?t n (start_worker ?t)" by (simp add: worker_ok_def start_worker_def)
    with put crash show ?thesis by simp
  qed
qed

lemma shard_reachable_inv: "shard_reachable etag ttl \<sigma> \<Longrightarrow> inj etag \<Longrightarrow> shard_inv etag ttl \<sigma>"
proof (induction rule: shard_reachable.induct)
  case (init \<sigma>)
  then show ?case
    by (simp add: fresh_shard_def shard_inv_def history_ok_def flight_ok_def worker_ok_def start_worker_def)
qed (blast intro: shard_step_inv)

lemma sorted_wrt_total: "sorted_wrt P xs \<Longrightarrow> x \<in> set xs \<Longrightarrow> y \<in> set xs \<Longrightarrow> x = y \<or> P x y \<or> P y x"
  by (induction xs) auto

text \<open>C3: One active worker. Whatever the workers of a shard and the store do, with requests and
  messages delayed, lost or applied after their sender gave up, with workers paused, crashed and
  restarted at any point, at no time do two workers both admit requests; and the writes of the
  lease by different nodes are always at least the earlier one's whole term apart.\<close>
theorem one_active_worker:
  assumes "shard_reachable etag ttl \<sigma>" "inj etag" "admits (clock \<sigma>) (nodes \<sigma> p)" "admits (clock \<sigma>) (nodes \<sigma> q)"
  shows "p = q \<and> sorted_wrt (\<lambda>(l, a) (l', a'). lease_node l \<noteq> lease_node l' \<longrightarrow> a + ttl_ms l \<le> a') (history \<sigma>)"
proof -
  from shard_reachable_inv[OF assms(1,2)] have H: "history_ok ttl (clock \<sigma>) (history \<sigma>)"
    and w: "\<And>n. worker_ok etag ttl (history \<sigma>) (clock \<sigma>) n (nodes \<sigma> n)" by (auto simp: shard_inv_def)
  have own: "\<exists>(l, a) \<in> set (history \<sigma>). lease_node l = n \<and> clock \<sigma> < a + ttl_ms l \<and> a \<le> clock \<sigma>"
    if "admits (clock \<sigma>) (nodes \<sigma> n)" for n
  proof -
    from that obtain v where "active_state (nodes \<sigma> n) = Some v" "clock \<sigma> < until v"
      by (auto simp: admits_def split: option.splits)
    with w[of n] obtain l a where "(l, a) \<in> set (history \<sigma>)" "lease_node l = n" "clock \<sigma> < a + ttl n"
      by (fastforce simp: worker_ok_def)
    moreover from this H have "ttl_ms l = ttl n" "a \<le> clock \<sigma>" by (auto simp: history_ok_def)
    ultimately show ?thesis by auto
  qed
  from own[OF assms(3)] obtain lp ap where p: "(lp, ap) \<in> set (history \<sigma>)" "lease_node lp = p" "clock \<sigma> < ap + ttl_ms lp" "ap \<le> clock \<sigma>"
    by auto
  from own[OF assms(4)] obtain lq aq where q: "(lq, aq) \<in> set (history \<sigma>)" "lease_node lq = q" "clock \<sigma> < aq + ttl_ms lq" "aq \<le> clock \<sigma>"
    by auto
  from H have "sorted_wrt later (history \<sigma>)" by (simp add: history_ok_def)
  from sorted_wrt_total[OF this p(1) q(1)] p q have "p = q" by (auto simp: later_def)
  moreover have "sorted_wrt (\<lambda>(l, a) (l', a'). lease_node l \<noteq> lease_node l' \<longrightarrow> a + ttl_ms l \<le> a') (history \<sigma>)"
    using \<open>sorted_wrt later (history \<sigma>)\<close> by (rule sorted_wrt_mono_rel[rotated]) (auto simp: later_def)
  ultimately show ?thesis by simp
qed

subsection \<open>A worker can always take over\<close>

lemma set_node_simps [simp]:
  "nodes (set_node n w \<sigma>) n = w" "clock (set_node n w \<sigma>) = clock \<sigma>" "history (set_node n w \<sigma>) = history \<sigma>"
  "in_flight (set_node n w \<sigma>) = in_flight \<sigma>" "set_node n v (set_node n w \<sigma>) = set_node n v \<sigma>"
  by (simp_all add: set_node_def)

abbreviation shard_run :: "(lease \<Rightarrow> string) \<Rightarrow> (string \<Rightarrow> nat) \<Rightarrow> shard \<Rightarrow> shard \<Rightarrow> bool" where
  "shard_run etag ttl \<equiv> (shard_step etag ttl)\<^sup>*\<^sup>*"

lemma run_then: "shard_run etag ttl \<sigma> \<sigma>' \<Longrightarrow> shard_step etag ttl \<sigma>' \<sigma>'' \<Longrightarrow> shard_run etag ttl \<sigma> \<sigma>''"
  by (rule rtranclp.rtrancl_into_rtrancl)

lemma acquire:
  assumes w: "control (nodes \<sigma> n) = Putting m (clock \<sigma>)" "owned (nodes \<sigma> n) = None" and cas: "put_applies etag m \<sigma>" and ttl: "0 < ttl n"
  shows "\<exists>\<sigma>'. shard_run etag ttl \<sigma> \<sigma>' \<and> admits (clock \<sigma>') (nodes \<sigma>' n)"
proof -
  let ?t = "clock \<sigma>" and ?w = "nodes \<sigma> n"
  have "finite (used_nonces (history \<sigma>) \<union> (\<lambda>(_, _, l). nonce l) ` set (in_flight \<sigma>))" by (simp add: used_nonces_def)
  from ex_new_if_finite[OF infinite_UNIV_listI this] obtain u where u: "u \<notin> used_nonces (history \<sigma>)"
    "u \<notin> (\<lambda>(_, _, l). nonce l) ` set (in_flight \<sigma>)" by auto
  let ?l = "\<lparr>lease_node = n, nonce = u, ttl_ms = ttl n\<rparr>"
  let ?s1 = "(set_node n (?w\<lparr>control := Sent ?t ?l\<rparr>) \<sigma>)\<lparr>in_flight := (n, m, ?l) # in_flight \<sigma>\<rparr>"
  have 1: "shard_run etag ttl \<sigma> ?s1" using shard_step.send[OF w(1) refl u] by blast
  let ?s2 = "?s1\<lparr>in_flight := in_flight \<sigma>, history := history \<sigma> @ [(?l, ?t)]\<rparr>"
  have "put_applies etag m ?s1" using cas by (simp add: put_applies_def split: put_mode.splits)
  then have "shard_step etag ttl ?s1 ?s2" using shard_step.apply_put[of n m ?l ?s1 etag ttl] by simp
  with 1 have 2: "shard_run etag ttl \<sigma> ?s2" by (rule run_then)
  let ?w3 = "?w\<lparr>owned := Some (etag ?l), deadline := ?t + ttl n, opening_task := Some Running, control := Finishing\<rparr>"
  have "on_put (ttl n) ?t ?t (Some (etag ?l)) (?w\<lparr>control := Sent ?t ?l\<rparr>) = ?w3"
    using w(2) ttl by (simp add: on_put_def)
  then have "shard_step etag ttl ?s2 (set_node n ?w3 ?s2)"
    using shard_step.accepted[of ?s2 n ?t ?l etag ttl] by (simp add: set_node_def)
  with 2 have 3: "shard_run etag ttl \<sigma> (set_node n ?w3 ?s2)" by (rule run_then)
  let ?w4 = "?w3\<lparr>opening_task := Some Opened\<rparr>"
  have "shard_step etag ttl (set_node n ?w3 ?s2) (set_node n ?w4 ?s2)"
    using shard_step.opened[of "set_node n ?w3 ?s2" n etag ttl Opened] by simp
  with 3 have 4: "shard_run etag ttl \<sigma> (set_node n ?w4 ?s2)" by (rule run_then)
  let ?w5 = "?w4\<lparr>opening_task := None, active_state := Some \<lparr>until = ?t + ttl n, fenced = False\<rparr>, control := Waiting\<rparr>"
  have "finish_round ?t ?w4 = ?w5" using ttl by (simp add: finish_round_def)
  then have "shard_step etag ttl (set_node n ?w4 ?s2) (set_node n ?w5 ?s2)"
    using shard_step.finish[of "set_node n ?w4 ?s2" n etag ttl] by simp
  with 4 have "shard_run etag ttl \<sigma> (set_node n ?w5 ?s2)" by (rule run_then)
  moreover have "admits (clock (set_node n ?w5 ?s2)) (nodes (set_node n ?w5 ?s2) n)" using ttl by (simp add: admits_def)
  ultimately show ?thesis by blast
qed

text \<open>One round of a worker that owns nothing, up to the answer of its read.\<close>

lemma ask_round:
  assumes "control (nodes \<sigma> n) = Waiting" "owned (nodes \<sigma> n) = None"
  shows "shard_run etag ttl \<sigma> (set_node n (on_lease (clock \<sigma>) (clock \<sigma>) (read_object etag \<sigma>)
    ((nodes \<sigma> n)\<lparr>control := Answered (clock \<sigma>) (read_object etag \<sigma>)\<rparr>)) \<sigma>)"
proof -
  let ?t = "clock \<sigma>" and ?w = "nodes \<sigma> n" and ?r = "read_object etag \<sigma>"
  have "check_lease ?t ?w = ?w\<lparr>control := Checked\<rparr>" using assms(2) by (simp add: check_lease_def)
  then have "shard_run etag ttl \<sigma> (set_node n (?w\<lparr>control := Checked\<rparr>) \<sigma>)"
    using shard_step.check[OF assms(1), of etag ttl] by auto
  moreover have "start_round ?t (?w\<lparr>control := Checked\<rparr>) = ?w\<lparr>control := Asking ?t\<rparr>" using assms(2) by (simp add: start_round_def)
  then have "shard_step etag ttl (set_node n (?w\<lparr>control := Checked\<rparr>) \<sigma>) (set_node n (?w\<lparr>control := Asking ?t\<rparr>) \<sigma>)"
    using shard_step.start[of "set_node n (?w\<lparr>control := Checked\<rparr>) \<sigma>" n etag ttl] by simp
  ultimately have "shard_run etag ttl \<sigma> (set_node n (?w\<lparr>control := Asking ?t\<rparr>) \<sigma>)" by (rule run_then)
  moreover have "read_object etag (set_node n v \<sigma>) = ?r" for v by (simp add: read_object_def)
  then have "shard_step etag ttl (set_node n (?w\<lparr>control := Asking ?t\<rparr>) \<sigma>) (set_node n (?w\<lparr>control := Answered ?t ?r\<rparr>) \<sigma>)"
    using shard_step.read[of "set_node n (?w\<lparr>control := Asking ?t\<rparr>) \<sigma>" n ?t ?r etag ttl] by simp
  ultimately have "shard_run etag ttl \<sigma> (set_node n (?w\<lparr>control := Answered ?t ?r\<rparr>) \<sigma>)" by (rule run_then)
  moreover have "shard_step etag ttl (set_node n (?w\<lparr>control := Answered ?t ?r\<rparr>) \<sigma>)
      (set_node n (on_lease ?t ?t ?r (?w\<lparr>control := Answered ?t ?r\<rparr>)) \<sigma>)"
    using shard_step.answer[of "set_node n (?w\<lparr>control := Answered ?t ?r\<rparr>) \<sigma>" n ?t ?r etag ttl] by simp
  ultimately show ?thesis by (rule run_then)
qed

text \<open>With no lease yet, a restarted worker creates one.\<close>

lemma create_lease:
  assumes "history \<sigma> = []" "0 < ttl n"
  shows "\<exists>\<sigma>'. shard_run etag ttl \<sigma> \<sigma>' \<and> admits (clock \<sigma>') (nodes \<sigma>' n)"
proof -
  let ?t = "clock \<sigma>" and ?w = "start_worker (clock \<sigma>)"
  let ?s0 = "set_node n ?w \<sigma>" and ?w1 = "?w\<lparr>control := Putting Create ?t\<rparr>"
  have start: "shard_run etag ttl \<sigma> ?s0" using shard_step.crash by (rule r_into_rtranclp)
  have idle: "control (nodes ?s0 n) = Waiting" "owned (nodes ?s0 n) = None" by (simp_all add: start_worker_def)
  have "read_object etag ?s0 = Missing" using assms(1) by (simp add: read_object_def)
  with ask_round[OF idle, of etag ttl] have "shard_run etag ttl ?s0 (set_node n ?w1 \<sigma>)" by (simp add: on_lease_def)
  with start have run: "shard_run etag ttl \<sigma> (set_node n ?w1 \<sigma>)" by (rule rtranclp_trans)
  have "\<exists>\<sigma>'. shard_run etag ttl (set_node n ?w1 \<sigma>) \<sigma>' \<and> admits (clock \<sigma>') (nodes \<sigma>' n)"
    by (rule acquire[where m = Create]) (simp_all add: start_worker_def put_applies_def assms)
  with run show ?thesis by (meson rtranclp_trans)
qed

lemma reachable_run: "shard_run etag ttl \<sigma> \<sigma>' \<Longrightarrow> shard_reachable etag ttl \<sigma> \<Longrightarrow> shard_reachable etag ttl \<sigma>'"
  by (induction rule: rtranclp_induct) (blast intro: shard_reachable.step)+


end
