(* ===== verification/Process.thy ===== *)
theory Process
  imports Assembly Gateway Lease
begin

section \<open>The process (main.rs) and the worker's front door (cluster.rs)\<close>

text \<open>
  What one start of the program does: it loads and validates the configuration, reads the API
  token, and then runs an offline command to its end or becomes a server. The surroundings of
  the start (files to parse, environment, network, ports, the state of the storage client) are
  the record \<open>launch\<close>; what it may change is the \<open>world\<close>: the host's files and locks, the
  database, the stored topology. \<open>opens\<close> counts how often the database was asked to open,
  which is what fences another writer.
\<close>

datatype env_value = Unset | NotUnicode | Value string

datatype command =
    Serve
  | Backup (backup_url: string) (backup_output: path)
  | RestoreFrom path
  | Migrate
  | Reindex string

text \<open>Errors of the program, and those that \<open>main\<close> returns as they come from a library.\<close>

datatype failure = Failed error | OtherFailure

datatype role =
    GatewayRole gateway
  | WorkerRole
  | StandaloneRole engine access

datatype outcome =
    Saved path
  | Restored u64
  | Migrated
  | Reindexed index_status
  | Serving role

record launch =
  l_platform :: platform
  l_ext :: ext
  l_sha :: "bytes \<Rightarrow> bytes"
  l_toml :: "string \<Rightarrow> config result"
  l_token :: env_value
  l_env :: "string \<Rightarrow> string option"
  l_client :: bool
  l_fetch :: fetch
  l_unique :: string
  l_port :: bool
  l_flushed :: bool
  l_generation :: string
  l_to_vec :: "(string, string) btree \<Rightarrow> bytes"
  l_probe :: "string \<Rightarrow> probe_answer"
  l_put_fault :: fault

record world =
  w_host :: host
  w_db :: db
  w_topology :: "bytes option"
  opens :: nat

subsection \<open>Starting\<close>

definition load_config :: "launch \<Rightarrow> string option \<Rightarrow> config result" where
  "load_config L file =
     rbind (case file of Some p \<Rightarrow> l_toml L p | None \<Rightarrow> Inr default_config) (\<lambda>conf.
     rbind (validate (parse_worker (l_platform L)) conf) (\<lambda>_. Inr conf))"

definition api_token :: "env_value \<Rightarrow> failure + string option" where
  "api_token v =
     (case v of
        Value t \<Rightarrow>
          if t = [] \<or> list_ex (\<lambda>c. \<not> is_ascii_graphic c) t
          then Inl (Failed (Config ''GENGIS_MIMI_API_TOKEN must be nonempty printable ASCII without spaces''))
          else Inr (Some t)
      | Unset \<Rightarrow> Inr None
      | NotUnicode \<Rightarrow> Inl OtherFailure)"

definition open_world :: "launch \<Rightarrow> config \<Rightarrow> world \<Rightarrow> engine result \<times> world" where
  "open_world L conf w =
     (let (r, h, d) = open_inner (l_platform L) (l_ext L) conf (w_host w, w_db w) in
      (r, w\<lparr>w_host := h, w_db := d, opens := opens w + 1\<rparr>))"

text \<open>An offline command: open, work, close; an error of closing comes before that of the work.\<close>

definition offline :: "launch \<Rightarrow> config \<Rightarrow> (host \<Rightarrow> 'a act) \<Rightarrow> ('a \<Rightarrow> outcome) \<Rightarrow> world \<Rightarrow> (failure + outcome) \<times> world" where
  "offline L conf work out w =
     (case open_world L conf w of
        (Inl e, w1) \<Rightarrow> (Inl (Failed e), w1)
      | (Inr eng, w1) \<Rightarrow>
          (let (r, d2) = work (w_host w1) (w_db w1);
               (c, h3, d3) = close_engine (l_flushed L) eng (w_host w1, d2);
               w3 = w1\<lparr>w_host := h3, w_db := d3\<rparr> in
           case c of
             Inl e \<Rightarrow> (Inl (Failed e), w3)
           | Inr _ \<Rightarrow> (case r of Inl e \<Rightarrow> (Inl (Failed e), w3) | Inr a \<Rightarrow> (Inr (out a), w3))))"

definition restore_file :: "(bytes \<Rightarrow> bytes) \<Rightarrow> path \<Rightarrow> host \<Rightarrow> u64 act" where
  "restore_file sha p h =
     (case file_at h p of None \<Rightarrow> act_fail Io | Some b \<Rightarrow> restore sha b)"

definition serve_role :: "launch \<Rightarrow> config \<Rightarrow> string option \<Rightarrow> world \<Rightarrow> (failure + outcome) \<times> world" where
  "serve_role L conf token w =
     (if \<not> l_port L then (Inl OtherFailure, w)
      else (case cluster conf of
          Some (GatewayConf shs up) \<Rightarrow>
            (case start_gateway (l_to_vec L) (l_env L) (l_probe L) conf token (l_put_fault L) (w_topology w) of
               (Inl e, t) \<Rightarrow> (Inl (Failed e), w\<lparr>w_topology := t\<rparr>)
             | (Inr G, t) \<Rightarrow> (Inr (Serving (GatewayRole G)), w\<lparr>w_topology := t\<rparr>))
        | Some (WorkerConf node lease) \<Rightarrow>
            if token = None then (Inl (Failed (Config ''cluster workers require GENGIS_MIMI_API_TOKEN'')), w)
            else if \<not> is_s3 (storage conf) then (Inl (Failed (Config ''S3 storage required'')), w)
            else if \<not> s3_built (l_platform L) then (Inl (Failed ObjectStore), w)
            else (Inr (Serving WorkerRole), w)
        | None \<Rightarrow>
            (case open_world L conf w of
               (Inl e, w1) \<Rightarrow> (Inl (Failed e), w1)
             | (Inr eng, w1) \<Rightarrow>
                 (case access_load (l_env L) token (grants conf) of
                    Inl e \<Rightarrow> (Inl (Failed e), w1\<lparr>w_host := (w_host w1)\<lparr>locks := locks (w_host w)\<rparr>\<rparr>)
                  | Inr acc \<Rightarrow> (Inr (Serving (StandaloneRole eng acc)), w1)))))"

definition run_command :: "launch \<Rightarrow> config \<Rightarrow> string option \<Rightarrow> command \<Rightarrow> world \<Rightarrow> (failure + outcome) \<times> world" where
  "run_command L conf token cmd w =
     (case cmd of
        Backup url out \<Rightarrow>
          (let (r, h) = download (l_sha L) (l_client L) (l_fetch L) (l_unique L) url out token (w_host w) in
           (case r of Inl e \<Rightarrow> Inl (Failed e) | Inr _ \<Rightarrow> Inr (Saved out), w\<lparr>w_host := h\<rparr>))
      | RestoreFrom p \<Rightarrow>
          if cluster conf \<noteq> None
          then (Inl (Failed (Config ''restore requires a standalone configuration and stopped workers'')), w)
          else offline L conf (restore_file (l_sha L) p) Restored w
      | Migrate \<Rightarrow>
          if cluster conf \<noteq> None
          then (Inl (Failed (Config ''migration requires a standalone configuration and stopped workers'')), w)
          else offline L (conf\<lparr>database := (database conf)\<lparr>migrate := True\<rparr>\<rparr>) (\<lambda>_. act_ret ()) (\<lambda>_. Migrated) w
      | Reindex name \<Rightarrow>
          if cluster conf \<noteq> None
          then (Inl (Failed (Config ''use POST /v1/namespaces/{namespace}/index on the active worker'')), w)
          else offline L conf (\<lambda>_. rebuild_index (l_ext L) (l_generation L) (index_conf conf) name) Reindexed w
      | Serve \<Rightarrow> serve_role L conf token w)"

definition run_main :: "launch \<Rightarrow> string option \<Rightarrow> command option \<Rightarrow> world \<Rightarrow> (failure + outcome) \<times> world" where
  "run_main L file cmd w =
     (case load_config L file of
        Inl e \<Rightarrow> (Inl (Failed e), w)
      | Inr conf \<Rightarrow>
          (case api_token (l_token L) of
             Inl f \<Rightarrow> (Inl f, w)
           | Inr token \<Rightarrow> run_command L conf token (case cmd of None \<Rightarrow> Serve | Some c \<Rightarrow> c) w))"

subsection \<open>The worker's router\<close>

text \<open>A worker answers with its engine's router while its lease runs, and is unavailable otherwise.\<close>

definition worker_ready :: "nat \<Rightarrow> worker \<Rightarrow> app \<Rightarrow> unit result" where
  "worker_ready t wk s =
     (case active_state wk of
        Some a \<Rightarrow> if t < until a then check_ready ((app_db s)\<lparr>closed := fenced a\<rparr>) else Inl Unavailable
      | None \<Rightarrow> Inl Unavailable)"

definition worker_forward :: "nat \<Rightarrow> worker \<Rightarrow> api \<Rightarrow> moment \<Rightarrow> http_request \<Rightarrow> app \<Rightarrow> answer \<times> app" where
  "worker_forward t wk A M req s =
     (if admits t wk then serve A M req s else (answer_of (Inl Unavailable), s))"

subsection \<open>Who may open the database\<close>

lemma open_world_opens: "open_world L conf w = (r, w') \<Longrightarrow> opens w' = opens w + 1"
  by (auto simp: open_world_def split: prod.splits)

lemma offline_opens: "offline L conf work out w = (r, w') \<Longrightarrow> opens w' = opens w + 1"
  by (auto simp: offline_def Let_def split: prod.splits sum.splits dest: open_world_opens)

lemma serve_role_opens:
  assumes "serve_role L conf token w = (r, w')"
  shows "opens w' = opens w \<and> w_db w' = w_db w \<or> l_port L \<and> cluster conf = None \<and> opens w' = opens w + 1"
  using assms
  by (auto simp: serve_role_def split: if_splits option.splits cluster_config.splits prod.splits sum.splits dest: open_world_opens)


end
