(* ===== verification/Recovery.thy ===== *)
theory Recovery
  imports Process
begin

section \<open>From a running server to a restored database\<close>

text \<open>
  The parts of the program put together along the path of a disaster recovery: the API serves
  an export, the \<open>backup\<close> command downloads it to a file, and the \<open>restore\<close> command of another
  installation reads the file into an empty database.
\<close>

subsection \<open>The server's side\<close>

definition export_request :: "string option \<Rightarrow> http_request" where
  "export_request token = \<lparr>req_method = GET, req_path = ''/v1/export'', req_query = [], auth_header = map_option bearer token, req_body = []\<rparr>"

text \<open>What a client of the server receives; the body comes in chunks.\<close>

definition served_backup :: "api \<Rightarrow> moment \<Rightarrow> app \<Rightarrow> (bytes \<Rightarrow> bytes list) \<Rightarrow> string \<Rightarrow> fetch" where
  "served_backup A M s pieces origin url token =
     (if url = origin @ ''/v1/export''
      then (case fst (serve A M (export_request token) s) of Inr (RBackup b) \<Rightarrow> Some (map Some (pieces b)) | _ \<Rightarrow> None)
      else None)"

lemma serve_export:
  assumes "match_path A = (\<lambda>pat path. segments_match (split_slash pat) (split_slash path))"
    "authorize (x_access A) ((export_request token)\<lparr>req_path := ''/export''\<rparr>) = Inr ()"
    "free_requests M \<noteq> 0" "free_slots M \<noteq> 0" "\<not> late M" "check_ready (app_db s) = Inr ()"
  shows "fst (serve A M (export_request token) s) = Inr (RBackup (export_file (x_sha A) (kv (app_db s))))"
proof -
  have "find_route (match_path A) ''/export'' routes = Some ([], [(GET, ExportBackup)])"
    by (simp add: assms(1) routes_def is_param_def)
  moreover have "handle A M req ExportBackup [] [] (app_db s) = (Inr (RBackup (export_file (x_sha A) (kv (app_db s)))), app_db s)" for req
    using assms(4,6) by (simp add: handle_export_def act_map_def engine_export_def snapshot_def act_bind_def)
  ultimately show ?thesis
    using assms(2,3,5)
    by (simp add: serve_def export_request_def admit_def run_handler_def path_params_def method_handler_def
        act_bind_def answer_of_def Let_def)
qed

subsection \<open>Opening an empty local database\<close>

text \<open>A platform and a configuration on which a standalone engine without a cache opens.\<close>

definition can_open :: "platform \<Rightarrow> config \<Rightarrow> host \<Rightarrow> bool" where
  "can_open P conf h \<longleftrightarrow> validate (parse_worker P) conf = Inr () \<and> db_built P \<and> cache_dir (database conf) = None
     \<and> (\<exists>p dir. storage conf = Local p \<and> canon P p = Some dir \<and> dir \<notin> set (locks h))"

lemma assemble_reliable:
  assumes "can_open P conf h" "io_faults h = []" "\<not> dead h" "bt_ok (files h)"
  shows "\<exists>eng h'. assemble P X conf h = (Inr eng, h') \<and> io_faults h' = [] \<and> \<not> dead h'"
  using assms
  by (auto simp: can_open_def assemble_def open_storage_def bind_cache_def io_bind_def io_lift_def make_dirs_def lock_directory_def
      open_create_def try_lock_def file_op_reliable)

lemma open_empty:
  assumes "kv d = []" "faults d = []"
  shows "\<exists>d'. open_engine X allowed (d\<lparr>closed := False\<rparr>) = (Inr (), d') \<and> kv d' = [(FORMAT_KEY, FORMAT)] \<and> reliable d'"
  using assms
  by (simp add: open_engine_def initialize_format_def act_bind_def resume_all_deletions_def scan_prefix_def FORMAT_KEY_def reliable_def)

lemma unlock_all_reliable:
  "io_faults h = [] \<Longrightarrow> \<not> dead h \<Longrightarrow> \<exists>h'. unlock_all ps h = (Inr (), h')"
  by (induction ps arbitrary: h) (simp_all add: io_bind_def unlock_def file_op_reliable)

lemma open_world_empty:
  assumes "can_open (l_platform L) conf (w_host w)" "io_faults (w_host w) = []" "\<not> dead (w_host w)" "bt_ok (files (w_host w))"
    "kv (w_db w) = []" "faults (w_db w) = []"
  obtains eng w1 where "open_world L conf w = (Inr eng, w1)" "kv (w_db w1) = [(FORMAT_KEY, FORMAT)]" "reliable (w_db w1)"
    "adds_files (w_host w) (w_host w1)" "io_faults (w_host w1) = []" "\<not> dead (w_host w1)"
proof -
  from assemble_reliable[OF assms(1-4), of "l_ext L"] obtain eng h' where
    a: "assemble (l_platform L) (l_ext L) conf (w_host w) = (Inr eng, h')" "io_faults h' = []" "\<not> dead h'" by blast
  from open_empty[OF assms(5,6), of "l_ext L" "migrate (database conf)"] obtain d' where
    d: "open_engine (l_ext L) (migrate (database conf)) ((w_db w)\<lparr>closed := False\<rparr>) = (Inr (), d')"
    "kv d' = [(FORMAT_KEY, FORMAT)]" "reliable d'" by blast
  show thesis
    by (rule that[of eng "w\<lparr>w_host := h', w_db := d', opens := opens w + 1\<rparr>"])
      (use a d io_relD[OF adds_assemble a(1)] in \<open>simp_all add: open_world_def open_inner_def\<close>)
qed

subsection \<open>The whole path\<close>

definition printable :: "env_value \<Rightarrow> bool" where
  "printable v \<longleftrightarrow> (case v of Value t \<Rightarrow> t \<noteq> [] \<and> \<not> list_ex (\<lambda>c. \<not> is_ascii_graphic c) t | Unset \<Rightarrow> True | NotUnicode \<Rightarrow> False)"

definition token_of :: "env_value \<Rightarrow> string option" where
  "token_of v = (case v of Value t \<Rightarrow> Some t | _ \<Rightarrow> None)"

lemma api_token_printable: "printable v \<Longrightarrow> api_token v = Inr (token_of v)"
  by (auto simp: api_token_def printable_def token_of_def split: env_value.splits)

lemma restore_from_file:
  assumes "\<forall>b. length (sha b) = 32" "backup_rows src" "file_at h p = Some (export_file sha src)"
    "kv d = [(FORMAT_KEY, FORMAT)]" "reliable d"
  shows "\<exists>n d'. restore_file sha p h d = (Inr n, d') \<and> kv d' = src"
proof -
  have empty: "bt_ok (kv d)" "only_format (kv d)"
    using assms(4) by (simp_all add: only_format_def)
  obtain n d' where run: "restore sha (export_file sha src) d = (Inr n, d')"
    using completes_restore[OF assms(1,2) empty assms(5)] by blast
  from restore_outcome[OF assms(1,2) empty run] have "kv d' = src" by auto
  with run assms(3) show ?thesis by (simp add: restore_file_def)
qed

text \<open>C5: Disaster recovery works end to end. Against a server that is ready and whose rows fit a backup
  record, the \<open>backup\<close> command with a token the server accepts saves a file, however the body is
  cut into chunks; and the \<open>restore\<close> command of a standalone installation with an empty
  database, run on that file, succeeds and leaves a database equal to the server's, row for row.\<close>
theorem disaster_recovery:
  assumes sha: "\<forall>b. length (sha b) = 32" and server: "check_ready (app_db s) = Inr ()" "bt_ok (kv (app_db s))"
      "list_all record_ok (kv (app_db s))"
    and api: "x_sha A = sha" "match_path A = (\<lambda>pat path. segments_match (split_slash pat) (split_slash path))"
      "authorize (x_access A) ((export_request (token_of (l_token L)))\<lparr>req_path := ''/export''\<rparr>) = Inr ()"
      "free_requests M \<noteq> 0" "free_slots M \<noteq> 0" "\<not> late M"
    and net: "l_fetch L = served_backup A M s pieces (trim_slashes url)" "\<forall>b. concat (pieces b) = b"
    and client: "load_config L conf_file = Inr conf" "printable (l_token L)" "l_client L" "l_sha L = sha"
    and host: "io_faults (w_host w) = []" "\<not> dead (w_host w)" "bt_ok (files (w_host w))"
      "file_at (w_host w) (output_dir out @ [partial_name (l_unique L)]) = None" "file_at (w_host w) out = None"
      "out \<noteq> output_dir out @ [partial_name (l_unique L)]" "output_dir out \<noteq> []" "out \<noteq> []"
    and target: "load_config T conf_file' = Inr conf'" "printable (l_token T)" "cluster conf' = None" "l_flushed T" "l_sha T = sha"
      "can_open (l_platform T) conf' (w_host w)" "kv dst = []" "faults dst = []"
  shows "\<exists>w1 n w2. run_main L conf_file (Some (Backup url out)) w = (Inr (Saved out), w1)
    \<and> run_main T conf_file' (Some (RestoreFrom out)) (w1\<lparr>w_db := dst\<rparr>) = (Inr (Restored n), w2)
    \<and> kv (w_db w2) = kv (app_db s)"
proof -
  let ?src = "kv (app_db s)" and ?body = "export_file sha (kv (app_db s))"
  have rows: "backup_rows ?src"
    using server by (auto simp: backup_rows_def check_ready_def split: if_splits option.splits)
  have "l_fetch L (trim_slashes url @ ''/v1/export'') (token_of (l_token L)) = Some (map Some (pieces ?body))"
    using serve_export[OF api(2-6) server(1)] api(1) by (simp add: net(1) served_backup_def)
  moreover have "verify sha (concat (pieces ?body)) = Inr ()" using verify_export[OF sha rows] net(2) by simp
  ultimately obtain h1 where h1: "download sha True (l_fetch L) (l_unique L) url out (token_of (l_token L)) (w_host w) = (Inr (), h1)"
    "file_at h1 out = Some ?body" "io_faults h1 = []" "\<not> dead h1" "bt_ok (files h1)" "locks h1 = locks (w_host w)"
    using download_reliable[OF host(1-3)] host(4-8) net(2) by metis
  let ?w1 = "w\<lparr>w_host := h1\<rparr>"
  have backup: "run_main L conf_file (Some (Backup url out)) w = (Inr (Saved out), ?w1)"
    using client h1(1) by (simp add: run_main_def run_command_def api_token_printable)
  let ?w = "?w1\<lparr>w_db := dst\<rparr>"
  have "can_open (l_platform T) conf' (w_host ?w)" using target(6) h1(6) by (simp add: can_open_def)
  then obtain eng w2 where opened: "open_world T conf' ?w = (Inr eng, w2)" "kv (w_db w2) = [(FORMAT_KEY, FORMAT)]"
    "reliable (w_db w2)" "adds_files h1 (w_host w2)" "io_faults (w_host w2) = []" "\<not> dead (w_host w2)"
    using open_world_empty[of T conf' ?w] h1(3-5) target(7,8) by auto
  have "file_at (w_host w2) out = Some ?body" using opened(4) h1(2,5) by (simp add: adds_files_def)
  from restore_from_file[OF sha rows this opened(2,3)] obtain n d3 where
    work: "restore_file sha out (w_host w2) (w_db w2) = (Inr n, d3)" "kv d3 = ?src" by blast
  obtain h3 where "unlock_all (engine_locks eng) (w_host w2) = (Inr (), h3)"
    using unlock_all_reliable[OF opened(5,6)] by blast
  then have "offline T conf' (restore_file sha out) Restored ?w = (Inr (Restored n), w2\<lparr>w_host := h3, w_db := d3\<lparr>closed := True\<rparr>\<rparr>)"
    using opened(1) work(1) target(4) by (simp add: offline_def close_engine_def io_bind_def io_lift_def)
  then have "run_main T conf_file' (Some (RestoreFrom out)) ?w = (Inr (Restored n), w2\<lparr>w_host := h3, w_db := d3\<lparr>closed := True\<rparr>\<rparr>)"
    using target(1-3,5) by (simp add: run_main_def run_command_def api_token_printable)
  with backup work(2) show ?thesis by auto
qed

subsection \<open>Concrete instances\<close>

definition source_db :: db where
  "source_db = \<lparr>kv = small_backup, seqno = 7, closed = False, faults = []\<rparr>"

definition source_app :: app where
  "source_app = \<lparr>app_db = source_db, app_metrics = new_http_metrics\<rparr>"

definition sample_launch :: launch where
  "sample_launch = \<lparr>l_platform = sample_platform, l_ext = sample_ext, l_sha = sample_sha, l_toml = (\<lambda>_. Inl (Config [])),
     l_token = Value ''root'', l_env = (\<lambda>_. None), l_client = True,
     l_fetch = served_backup sample_api sample_moment source_app (\<lambda>b. [b]) ''http://w'', l_unique = ''u'', l_port = True,
     l_flushed = True, l_generation = ''g'', l_to_vec = sample_to_vec, l_probe = (\<lambda>_. NotReady), l_put_fault = NoFault\<rparr>"

definition empty_world :: world where
  "empty_world = \<lparr>w_host = empty_host, w_db = \<lparr>kv = [], seqno = 0, closed = False, faults = []\<rparr>, w_topology = None, opens = 0\<rparr>"

lemma sample_load: "load_config sample_launch None = Inr default_config"
  using default_config_valid[of "\<lambda>_. Inl []"] by (simp add: load_config_def sample_launch_def sample_platform_def)

lemma sample_can_open: "can_open sample_platform default_config empty_host"
  using default_config_valid[of "\<lambda>_. Inl []"] by (simp add: can_open_def sample_platform_def default_config_def empty_host_def)

lemma sample_printable: "printable (Value ''root'')"
  by (simp add: printable_def is_ascii_graphic_def)

lemma sample_authorized:
  "authorize (x_access sample_api) ((export_request (Some ''root''))\<lparr>req_path := ''/export''\<rparr>) = Inr ()"
  by (simp add: authorize_Inr_iff is_admin_def sample_api_def sample_access_def export_request_def equal_token_def token_difference_zero)

theorem disaster_recovery_witness:
  "\<exists>w1 n w2. run_main sample_launch None (Some (Backup ''http://w/'' [''.'', ''b.gmb''])) empty_world = (Inr (Saved [''.'', ''b.gmb'']), w1)
    \<and> run_main sample_launch None (Some (RestoreFrom [''.'', ''b.gmb''])) (w1\<lparr>w_db := w_db empty_world\<rparr>) = (Inr (Restored n), w2)
    \<and> kv (w_db w2) = small_backup"
proof -
  have dir: "output_dir [''.'', ''b.gmb''] = [''.'']" by (simp add: output_dir_def path_parent_def)
  have "check_ready source_db = Inr ()" "bt_ok small_backup" "list_all record_ok small_backup"
    using small_backup_rows by (simp_all add: backup_rows_def check_ready_def source_db_def)
  moreover have "trim_slashes ''http://w/'' = ''http://w''" by (simp add: trim_end_def)
  moreover have "match_path sample_api = (\<lambda>pat path. segments_match (split_slash pat) (split_slash path))" "x_sha sample_api = sample_sha"
    by (simp_all add: sample_api_def)
  moreover have "cluster default_config = None" by (simp add: default_config_def)
  ultimately show ?thesis
    using disaster_recovery[of sample_sha source_app sample_api sample_launch sample_moment "\<lambda>b. [b]" "''http://w/''"
        None default_config empty_world "[''.'', ''b.gmb'']" sample_launch None default_config "w_db empty_world"]
      sample_load sample_can_open sample_printable sample_authorized
    by (simp add: dir sample_launch_def sample_moment_def source_app_def source_db_def token_of_def empty_world_def empty_host_def
        partial_name_def)
qed


end
