(* ===== verification/Indexer.thy ===== *)
theory Indexer
  imports Placement System
begin

section \<open>A tick of the background indexer (engine.rs)\<close>

text \<open>
  \<open>run_indexer\<close> pages through the namespaces while its own visits change the store and may fail
  at any commit. A visit never changes the name table, the format row or whether the database
  is open, so every page is a page of the same list, and the loop over the pages ends.
\<close>

subsection \<open>What a visit leaves alone\<close>

definition same_names :: "store \<Rightarrow> store \<Rightarrow> bool" where
  "same_names s t \<longleftrightarrow> (bt_ok s \<longrightarrow> bt_ok t \<and> scan_prefix ''n/'' t = scan_prefix ''n/'' s \<and> bt_get t FORMAT_KEY = bt_get s FORMAT_KEY)"

lemma job_rel_same_names: "job_rel n same_names"
proof -
  have "same_names s (apply_batch b s)" if "\<forall>x \<in> set b. job_key n (op_key x)" for s b
  proof (cases "bt_ok s")
    case True
    have "\<forall>x \<in> set b. \<not> prefix ''n/'' (op_key x)" "FORMAT_KEY \<notin> op_key ` set b"
      using that job_key_other(5) by (force simp: job_key_def key_defs prefix_def)+
    with True show ?thesis
      by (simp add: same_names_def scan_prefix_apply_batch_other get_apply_batch_other)
  qed (simp add: same_names_def)
  then show ?thesis by (auto simp: job_rel_def same_names_def reflp_def transp_def)
qed

definition same_listing :: "db \<Rightarrow> db \<Rightarrow> bool" where
  "same_listing d e \<longleftrightarrow> same_names (kv d) (kv e) \<and> closed e = closed d"

lemma same_listing_order: "same_listing d d" "same_listing d e \<Longrightarrow> same_listing e f \<Longrightarrow> same_listing d f"
  by (auto simp: same_listing_def same_names_def)

lemma visit_same: "bt_ok (kv d) \<Longrightarrow> same_listing d (snd (indexer_visit X gen conf n d))"
proof -
  assume ok: "bt_ok (kv d)"
  have "snd (get_stats X n d) = d"
    by (auto simp: get_stats_def act_bind_def snapshot_def split: sum.splits prod.splits)
  then obtain r where r: "get_stats X n d = (r, d)" by (metis prod.collapse)
  have "same_listing d (snd (rebuild_index X gen conf n d))" "same_listing d (snd (resume_index_cleanup X n d))"
    using rebuild_rel[OF job_rel_same_names ok] cleanup_rel[OF job_rel_same_names ok] keeps_open_rebuild keeps_open_resume
    by (simp_all add: same_listing_def keeps_open_def)
  then show ?thesis by (auto simp: indexer_visit_def act_ignore_def r split: sum.splits)
qed

lemma visit_Inr: "fst (indexer_visit X gen conf n d) = Inr ()"
  by (auto simp: indexer_visit_def act_ignore_def Let_def split: prod.splits sum.splits)

lemma visits_same:
  assumes "bt_ok (kv d)"
  shows "\<exists>e. act_for (\<lambda>ns. indexer_visit X (gens (ns_name ns)) conf (ns_name ns)) nss d = (Inr (), e) \<and> same_listing d e"
  using assms
proof (induction nss arbitrary: d)
  case Nil
  then show ?case by (simp add: same_listing_order)
next
  case (Cons ns nss)
  obtain d1 where d1: "indexer_visit X (gens (ns_name ns)) conf (ns_name ns) d = (Inr (), d1)"
    using visit_Inr by (metis prod.collapse)
  then have s: "same_listing d d1" using visit_same[OF Cons.prems] by (metis snd_conv)
  with Cons.prems have "bt_ok (kv d1)" by (simp add: same_listing_def same_names_def)
  from Cons.IH[OF this] s same_listing_order(2) show ?case by (auto simp: act_bind_def d1)
qed

subsection \<open>The pages of a tick\<close>

lemma same_listing_page:
  assumes "same_listing d e" "bt_ok (kv d)"
  shows "fst (namespaces X req e) = fst (namespaces X req d)" "snd (namespaces X req e) = e"
proof -
  have "check_ready e = check_ready d" "page_rows (kv e) ''n/'' req = page_rows (kv d) ''n/'' req"
    using assms by (simp_all add: same_listing_def same_names_def check_ready_def page_rows_def scan_after_def)
  then show "fst (namespaces X req e) = fst (namespaces X req d)" "snd (namespaces X req e) = e"
    by (cases "check_ready d"; cases "validate_page req"; simp add: namespaces_def act_bind_def snapshot_def)+
qed

lemma act_for_append: "act_for f (xs @ ys) = act_bind (act_for f xs) (\<lambda>_. act_for f ys)"
  by (induction xs) (simp_all del: act_simps)

lemma names_page_split:
  assumes "sorted_wrt (<) (map ns_name (xs @ y # ys))"
  shows "names_after (Some (ns_name y)) (xs @ y # ys) = ys"
  using assms by (auto simp: names_after_def sorted_wrt_append filter_empty_conv dest: order.asym)

lemma indexer_pass_suffix:
  assumes "1 \<le> limit" "limit \<le> 1000" "check_ready d = Inr ()" "bt_ok (kv d)" "names_fine X (kv d)"
    and "\<forall>ns \<in> set (names_of X (kv d)). valid_id (ns_name ns)"
    and "names_of X (kv d) = done @ rest" "names_after after (names_of X (kv d)) = rest"
    and "case after of None \<Rightarrow> True | Some a \<Rightarrow> valid_id a" "length rest < fuel" "same_listing d e"
  shows "indexer_pass X gens conf fuel \<lparr>page_limit = limit, page_after = after\<rparr> e
    = act_for (\<lambda>ns. indexer_visit X (gens (ns_name ns)) conf (ns_name ns)) rest e"
  using assms(7-)
proof (induction fuel arbitrary: "done" rest after e)
  case (Suc fuel)
  let ?visit = "\<lambda>ns. indexer_visit X (gens (ns_name ns)) conf (ns_name ns)"
  let ?req = "\<lparr>page_limit = limit, page_after = after\<rparr>"
  have "validate_page ?req = Inr ()"
    using Suc.prems(3) assms(1,2) by (auto simp: validate_page_def MAX_PAGE_SIZE_def split: option.splits)
  from namespaces_page[OF this assms(3,5)] same_listing_page[OF Suc.prems(5) assms(4), of X ?req] Suc.prems(2)
  have page: "namespaces X ?req e = (Inr (names_page limit rest), e)" by (simp add: prod_eq_iff)
  obtain e1 where e1: "act_for ?visit (take limit rest) e = (Inr (), e1)" "same_listing e e1"
    using visits_same[of e X gens conf "take limit rest"] Suc.prems(5) assms(4)
    by (auto simp: same_listing_def same_names_def)
  show ?case
  proof (cases "limit < length rest")
    case False
    then have "take limit rest = rest" by simp
    with page e1 False show ?thesis by (simp add: names_page_def)
  next
    case True
    let ?y = "rest ! (limit - 1)"
    have split: "rest = take (limit - 1) rest @ ?y # drop limit rest"
      using True assms(1) id_take_nth_drop[of "limit - 1" rest] by simp
    have list: "names_of X (kv d) = (done @ take (limit - 1) rest) @ ?y # drop limit rest"
      using Suc.prems(1) split by simp
    have "sorted_wrt (<) (map ns_name (names_of X (kv d)))"
      using names_sorted[OF assms(5,4)] by (simp add: strict_sorted_iff)
    then have next_rest: "names_after (Some (ns_name ?y)) (names_of X (kv d)) = drop limit rest"
      unfolding list by (rule names_page_split)
    have "?y \<in> set (names_of X (kv d))" by (subst list) simp
    with assms(6) have "valid_id (ns_name ?y)" by blast
    with Suc.IH[of "(done @ take (limit - 1) rest) @ [?y]" "drop limit rest" "Some (ns_name ?y)" e1]
    have "indexer_pass X gens conf fuel \<lparr>page_limit = limit, page_after = Some (ns_name ?y)\<rparr> e1 = act_for ?visit (drop limit rest) e1"
      using list next_rest Suc.prems(4,5) assms(1) True e1(2) same_listing_order(2)[of d e e1] by simp
    moreover have "act_for ?visit rest e = act_bind (act_for ?visit (take limit rest)) (\<lambda>_. act_for ?visit (drop limit rest)) e"
      using act_for_append[of ?visit "take limit rest" "drop limit rest"] by simp
    ultimately show ?thesis using page e1 True by (simp add: names_page_def act_bind_def)
  qed
qed simp

text \<open>C19: A tick of the background indexer ends and misses nothing. Whatever its own rebuilds and cleanups
  commit or fail at on the way, the loop over the pages stops after at most one page per
  namespace and one more, and has then done exactly one visit to every namespace, in order of
  name; the list of namespaces, and that the database is open, are as before.\<close>
theorem indexer_tick_terminates:
  assumes "check_ready d = Inr ()" "bt_ok (kv d)" "names_fine X (kv d)"
    "\<forall>ns \<in> set (names_of X (kv d)). valid_id (ns_name ns)"
  shows "\<exists>e. (\<forall>fuel > length (names_of X (kv d)). indexer_pass X gens conf fuel default_page d = (Inr (), e))
    \<and> act_for (\<lambda>ns. indexer_visit X (gens (ns_name ns)) conf (ns_name ns)) (names_of X (kv d)) d = (Inr (), e)
    \<and> names_of X (kv e) = names_of X (kv d) \<and> closed e = closed d"
proof -
  let ?visit = "\<lambda>ns. indexer_visit X (gens (ns_name ns)) conf (ns_name ns)"
  obtain e where e: "act_for ?visit (names_of X (kv d)) d = (Inr (), e)" "same_listing d e"
    using visits_same[OF assms(2)] by blast
  have all: "names_after None (names_of X (kv d)) = names_of X (kv d)" by (simp add: names_after_def)
  have "indexer_pass X gens conf fuel default_page d = (Inr (), e)" if "length (names_of X (kv d)) < fuel" for fuel
    using indexer_pass_suffix[OF _ _ assms, of "page_limit default_page" "[]" "names_of X (kv d)" None fuel d] all that e
      same_listing_order(1) by (simp add: default_page_def)
  with e assms(2) show ?thesis by (auto simp: names_of_def same_listing_def same_names_def)
qed

end
