(* ===== verification/ClusterExample.thy ===== *)
theory ClusterExample
  imports Lease Gateway Indexer
begin

section \<open>A shard with a concrete ETag, and a namespace to index\<close>

text \<open>Instances of the properties of leases and of the indexer: the ETag is the content itself, every term is nine seconds.\<close>

definition sample_etag :: "lease \<Rightarrow> string" where
  "sample_etag l = sample_to_vec [(lease_node l, nonce l), (replicate (ttl_ms l) CHR ''x'', [])]"

lemma inj_sample_etag: "inj sample_etag"
proof (rule injI)
  fix l l'
  assume "sample_etag l = sample_etag l'"
  with injD[OF inj_sample_to_vec] have "lease_node l = lease_node l'" "nonce l = nonce l'"
    "replicate (ttl_ms l) CHR ''x'' = replicate (ttl_ms l') CHR ''x''" by (fastforce simp: sample_etag_def)+
  moreover from arg_cong[OF this(3), of length] have "ttl_ms l = ttl_ms l'" by simp
  ultimately show "l = l'" by simp
qed

definition empty_shard :: shard where
  "empty_shard = \<lparr>clock = 0, history = [], in_flight = [], nodes = (\<lambda>_. start_worker 0)\<rparr>"

lemma empty_shard_reachable: "shard_reachable sample_etag (\<lambda>_. 9000) empty_shard"
  by (rule shard_reachable.init) (simp add: empty_shard_def fresh_shard_def)

theorem one_active_worker_witness:
  "\<exists>\<sigma>. shard_reachable sample_etag (\<lambda>_. 9000) \<sigma> \<and> admits (clock \<sigma>) (nodes \<sigma> ''a'') \<and> \<not> admits (clock \<sigma>) (nodes \<sigma> ''b'')"
proof -
  have "history empty_shard = []" by (simp add: empty_shard_def)
  from create_lease[OF this, of "\<lambda>_. 9000" "''a''" sample_etag] obtain \<sigma> where
    s: "shard_run sample_etag (\<lambda>_. 9000) empty_shard \<sigma>" "admits (clock \<sigma>) (nodes \<sigma> ''a'')" by auto
  have r: "shard_reachable sample_etag (\<lambda>_. 9000) \<sigma>" by (rule reachable_run[OF s(1) empty_shard_reachable])
  from one_active_worker[OF r inj_sample_etag s(2), of "''b''"] have "\<not> admits (clock \<sigma>) (nodes \<sigma> ''b'')" by auto
  with r s(2) show ?thesis by blast
qed


subsection \<open>One namespace and the indexer\<close>

theorem indexer_tick_terminates_witness:
  "\<exists>e. indexer_pass sample_ext (\<lambda>_. ''g'') (index_conf default_config) 2 default_page ex_db1 = (Inr (), e)
    \<and> names_of sample_ext (kv e) = [ex_ns]"
proof -
  have "check_ready ex_db1 = Inr ()" "valid_id (ns_name ex_ns)"
    by (simp_all add: check_ready_def ex_ns_def)
  then show ?thesis
    using indexer_tick_terminates[of ex_db1 sample_ext "\<lambda>_. ''g''" "index_conf default_config"] two_shards(1,2) by auto
qed

end
