(* ===== verification/Migration.thy ===== *)
theory Migration
  imports Lifecycle
begin

section \<open>The migration of a v1 database loses nothing (backup.rs)\<close>

text \<open>
  \<open>migrate_v1\<close> commits a namespace in batches of 128 documents, so an attempt that fails or
  crashes leaves a store in which some documents are still v1 rows, with their vector inside,
  and others are v2 rows. \<open>v1_document\<close> reads both, \<open>v1_store\<close> says when a store is such a
  mixture, and \<open>attempts\<close> opens the database again and again under arbitrary storage failures.
  The relation \<open>moved\<close> is what every batch of a namespace preserves; \<open>row_done\<close> is what it
  establishes for the rows behind it.
\<close>

subsection \<open>What a v1 store holds\<close>

definition stored_vector :: "ext \<Rightarrow> store \<Rightarrow> string \<Rightarrow> string \<Rightarrow> f32 list option" where
  "stored_vector X s n i = (case vector_at X s n i of Inl _ \<Rightarrow> None | Inr v \<Rightarrow> v)"

definition v1_document :: "ext \<Rightarrow> store \<Rightarrow> string \<Rightarrow> string \<Rightarrow> document option" where
  "v1_document X s n i =
     (case bt_get s (document_key n i) of
        None \<Rightarrow> None
      | Some raw \<Rightarrow> map_option
          (\<lambda>doc. doc\<lparr>vector := (case vector doc of None \<Rightarrow> stored_vector X s n i | Some v \<Rightarrow> Some v)\<rparr>)
          (dec_doc X raw))"

text \<open>One document row, before or after it moved, with its vector and its change record.\<close>

definition v1_row_ok :: "ext \<Rightarrow> ns_config \<Rightarrow> string \<Rightarrow> store \<Rightarrow> string \<Rightarrow> bool" where
  "v1_row_ok X c n s i =
     (case bt_get s (document_key n i) of
        None \<Rightarrow> bt_get s (vector_key n i) = None \<and> bt_get s (change_key n i) = None
      | Some raw \<Rightarrow>
          bt_get s (change_key n i) \<in> {None, Some (u64_to_le 1)} \<and>
          (case dec_doc X raw of
             None \<Rightarrow> False
           | Some doc \<Rightarrow> doc_id doc = i \<and> stored_exactly X doc \<and>
               (case vector doc of
                  Some v \<Rightarrow> valid_vector c v
                | None \<Rightarrow> (case bt_get s (vector_key n i) of
                      None \<Rightarrow> True
                    | Some e \<Rightarrow> \<exists>v. valid_vector c v \<and> e = encode_vector (crc32 X) v))))"

definition row_done :: "ext \<Rightarrow> string \<Rightarrow> store \<Rightarrow> string \<Rightarrow> bool" where
  "row_done X n s i \<longleftrightarrow>
     (\<exists>doc. v1_document X s n i = Some doc \<and> stored_exactly X doc
        \<and> bt_get s (document_key n i) = Some (enc_doc X (doc\<lparr>vector := None\<rparr>))
        \<and> bt_get s (vector_key n i) = map_option (encode_vector (crc32 X)) (vector doc)
        \<and> bt_get s (change_key n i) = Some (u64_to_le 1))"

text \<open>The batch of one document, and what the counters take for it.\<close>

definition row_ops :: "ext \<Rightarrow> string \<Rightarrow> document \<Rightarrow> batch" where
  "row_ops X n doc =
     (case vector doc of Some v \<Rightarrow> [Put (vector_key n (doc_id doc)) (encode_vector (crc32 X) v)] | None \<Rightarrow> [])
     @ [Put (document_key n (doc_id doc)) (enc_doc X (doc\<lparr>vector := None\<rparr>)),
        Put (change_key n (doc_id doc)) (u64_to_le 1)]"

definition doc_bytes :: "ext \<Rightarrow> document option \<Rightarrow> u64" where
  "doc_bytes X od = (case od of
        None \<Rightarrow> 0
      | Some doc \<Rightarrow> blen (enc_doc X (doc\<lparr>vector := None\<rparr>))
          + weight blen (map_option (encode_vector (crc32 X)) (vector doc)))"

definition count_row :: "ext \<Rightarrow> document option \<Rightarrow> stats \<Rightarrow> stats" where
  "count_row X od st = st\<lparr>stat_bytes := stat_bytes st + doc_bytes X od, documents := documents st + 1,
     pending_documents := pending_documents st + 1\<rparr>"

lemma op_keys_row_ops: "x \<in> set (row_ops X n doc) \<Longrightarrow> op_key x \<in> item_keys n (doc_id doc)"
  by (auto simp: row_ops_def item_keys_def split: option.splits)

lemma v1_document_cong:
  "bt_get t (document_key n i) = bt_get s (document_key n i) \<Longrightarrow>
   bt_get t (vector_key n i) = bt_get s (vector_key n i) \<Longrightarrow>
   v1_document X t n i = v1_document X s n i"
  by (simp add: v1_document_def stored_vector_def vector_at_def cong: option.case_cong)

lemma v1_row_ok_cong:
  "bt_get t (document_key n i) = bt_get s (document_key n i) \<Longrightarrow>
   bt_get t (vector_key n i) = bt_get s (vector_key n i) \<Longrightarrow>
   bt_get t (change_key n i) = bt_get s (change_key n i) \<Longrightarrow> v1_row_ok X c n t i = v1_row_ok X c n s i"
  unfolding v1_row_ok_def by (simp only:)

lemma v1_row_ok_present: "v1_row_ok X c n s i \<Longrightarrow> bt_get s (document_key n i) = Some raw \<Longrightarrow>
    \<exists>doc. dec_doc X raw = Some doc \<and> doc_id doc = i \<and> stored_exactly X doc"
  by (auto simp: v1_row_ok_def split: option.splits)

subsection \<open>One row\<close>

text \<open>
  \<open>migrate_row\<close> on a row of the store: it succeeds, its batch is \<open>row_ops\<close>, and it counts the
  document that the row and the vector table hold between them.
\<close>

lemma migrate_row_ok:
  assumes ok: "v1_row_ok X (ns_conf ns) (ns_name ns) s i" "valid_config (ns_conf ns)"
    and raw: "bt_get s (document_key (ns_name ns) i) = Some raw"
  shows "\<exists>doc. dec_doc X raw = Some doc \<and> doc_id doc = i
    \<and> migrate_row X ns s (k, raw) (st, b)
      = Inr (count_row X (v1_document X s (ns_name ns) i) st, b @ row_ops X (ns_name ns) doc)"
proof -
  from v1_row_ok_present[OF ok(1) raw] obtain doc where doc: "dec_doc X raw = Some doc" "doc_id doc = i" by blast
  show ?thesis
  proof (cases "vector doc")
    case (Some v)
    with ok(1) raw doc have "valid_vector (ns_conf ns) v" by (simp add: v1_row_ok_def)
    with Some raw doc show ?thesis
      by (simp add: migrate_row_def migrate_vector_def v1_document_def count_row_def doc_bytes_def row_ops_def
          Let_def blen_def algebra_simps)
  next
    case None
    show ?thesis
    proof (cases "bt_get s (vector_key (ns_name ns) i)")
      case None
      with \<open>vector doc = None\<close> raw doc show ?thesis
        by (simp add: migrate_row_def migrate_vector_def v1_document_def count_row_def doc_bytes_def row_ops_def
            Let_def blen_def stored_vector_def vector_at_def)
    next
      case (Some e)
      with ok raw doc \<open>vector doc = None\<close> obtain v where "valid_vector (ns_conf ns) v"
        "e = encode_vector (crc32 X) v" by (auto simp: v1_row_ok_def)
      with Some raw doc ok(2) \<open>vector doc = None\<close> show ?thesis
        by (simp add: migrate_row_def migrate_vector_def v1_document_def count_row_def doc_bytes_def row_ops_def
            Let_def blen_def stored_vector_def vector_at_def decode_vector_encode_vector algebra_simps)
    qed
  qed
qed

text \<open>What every batch of a namespace preserves: only its rows move, and no document changes.\<close>

definition moved :: "ext \<Rightarrow> ns_config \<Rightarrow> string \<Rightarrow> store \<Rightarrow> store \<Rightarrow> bool" where
  "moved X c n s t \<longleftrightarrow>
     bt_ok t \<and> (\<forall>i. v1_row_ok X c n t i)
     \<and> (\<forall>i. (bt_get t (document_key n i) = None) = (bt_get s (document_key n i) = None))
     \<and> (\<forall>i. v1_document X t n i = v1_document X s n i)
     \<and> (\<forall>k. k \<noteq> stats_key n \<longrightarrow> (\<forall>i. k \<notin> item_keys n i) \<longrightarrow> bt_get t k = bt_get s k)"

lemma moved_refl: "bt_ok s \<Longrightarrow> \<forall>i. v1_row_ok X c n s i \<Longrightarrow> moved X c n s s"
  by (simp add: moved_def)

lemma moved_trans: "moved X c n s t \<Longrightarrow> moved X c n t u \<Longrightarrow> moved X c n s u"
  by (simp add: moved_def)

lemma get_row_ops_other:
  "bt_ok s \<Longrightarrow> \<forall>k \<in> item_keys n (doc_id doc). k \<noteq> q \<Longrightarrow> bt_get (apply_batch (row_ops X n doc) s) q = bt_get s q"
  by (rule get_apply_batch_other) (auto dest: op_keys_row_ops)

lemma get_row_ops:
  assumes "bt_ok s" "valid_id n"
  shows "bt_get (apply_batch (row_ops X n doc) s) (document_key n (doc_id doc)) = Some (enc_doc X (doc\<lparr>vector := None\<rparr>))"
    and "bt_get (apply_batch (row_ops X n doc) s) (change_key n (doc_id doc)) = Some (u64_to_le 1)"
    and "bt_get (apply_batch (row_ops X n doc) s) (vector_key n (doc_id doc)) =
      (case vector doc of Some v \<Rightarrow> Some (encode_vector (crc32 X) v) | None \<Rightarrow> bt_get s (vector_key n (doc_id doc)))"
  using assms by (simp_all add: row_ops_def split: option.split)

lemma item_key_cases:
  assumes "valid_id n"
  shows "document_key n i \<in> item_keys n j \<longleftrightarrow> i = j" "vector_key n i \<in> item_keys n j \<longleftrightarrow> i = j"
    "change_key n i \<in> item_keys n j \<longleftrightarrow> i = j" "stats_key n \<notin> item_keys n j"
  using assms by (auto simp: item_keys_def)

lemma row_ops_at:
  assumes s: "bt_ok s" "valid_id n" "valid_config c" and row: "v1_row_ok X c n s i"
    and raw: "bt_get s (document_key n i) = Some raw" "dec_doc X raw = Some doc"
  shows "v1_row_ok X c n (apply_batch (row_ops X n doc) s) i"
    "v1_document X (apply_batch (row_ops X n doc) s) n i = v1_document X s n i"
    "row_done X n (apply_batch (row_ops X n doc) s) i"
proof -
  let ?t = "apply_batch (row_ops X n doc) s"
  from row raw have i: "doc_id doc = i" and stored: "stored_exactly X doc" by (auto simp: v1_row_ok_def)
  note get = get_row_ops[OF s(1,2), of X doc, unfolded i]
  have dec: "dec_doc X (enc_doc X (doc\<lparr>vector := None\<rparr>)) = Some (doc\<lparr>vector := None\<rparr>)"
    using stored by (simp add: stored_exactly_def)
  have stored': "stored_exactly X (doc\<lparr>vector := v\<rparr>)" for v using stored by (simp add: stored_exactly_def)
  have "v1_row_ok X c n ?t i \<and> v1_document X ?t n i = v1_document X s n i \<and> row_done X n ?t i"
  proof (cases "vector doc")
    case (Some v)
    with row raw have v: "valid_vector c v" by (simp add: v1_row_ok_def)
    from decode_vector_encode_vector[OF v s(3)]
    have eq: "v1_document X ?t n i = Some doc"
      using Some by (simp add: v1_document_def get dec stored_vector_def vector_at_def)
    from Some v get dec i stored' eq raw show ?thesis
      by (auto simp: v1_row_ok_def row_done_def v1_document_def stored)
  next
    case None
    then have doc: "doc\<lparr>vector := None\<rparr> = doc" by simp
    from row raw None have "bt_get s (vector_key n i) = None
      \<or> (\<exists>v. valid_vector c v \<and> bt_get s (vector_key n i) = Some (encode_vector (crc32 X) v))"
      by (auto simp: v1_row_ok_def split: option.splits)
    then show ?thesis
    proof (elim disjE exE conjE)
      assume no: "bt_get s (vector_key n i) = None"
      have dec': "dec_doc X (enc_doc X doc) = Some doc" using dec doc by simp
      from None no get dec' i stored raw show ?thesis
        by (auto simp: doc v1_row_ok_def row_done_def v1_document_def stored_vector_def vector_at_def)
    next
      fix v
      assume v: "valid_vector c v" "bt_get s (vector_key n i) = Some (encode_vector (crc32 X) v)"
      have "decode_vector (crc32 X) (encode_vector (crc32 X) v) = Inr v"
        using v(1) s(3) by (rule decode_vector_encode_vector)
      with None v get dec i stored stored' raw show ?thesis
        by (auto simp: doc v1_row_ok_def row_done_def v1_document_def stored_vector_def vector_at_def)
    qed
  qed
  then show "v1_row_ok X c n ?t i" "v1_document X ?t n i = v1_document X s n i" "row_done X n ?t i" by simp_all
qed

lemma row_ops_moved:
  assumes s: "bt_ok s" "valid_id n" "valid_config c" and rows: "\<forall>i. v1_row_ok X c n s i"
    and raw: "bt_get s (document_key n i) = Some raw" "dec_doc X raw = Some doc"
  shows "moved X c n s (apply_batch (row_ops X n doc) s)"
    and "\<And>j. j \<noteq> i \<Longrightarrow> row_done X n (apply_batch (row_ops X n doc) s) j = row_done X n s j"
proof -
  let ?t = "apply_batch (row_ops X n doc) s"
  from v1_row_ok_present[OF spec[OF rows] raw(1)] raw(2) have i: "doc_id doc = i" by auto
  have other: "bt_get ?t k = bt_get s k" if "k \<notin> item_keys n i" for k
    using that s(1) i by (intro get_row_ops_other) auto
  have same: "bt_get ?t (document_key n j) = bt_get s (document_key n j)"
    "bt_get ?t (vector_key n j) = bt_get s (vector_key n j)"
    "bt_get ?t (change_key n j) = bt_get s (change_key n j)" if "j \<noteq> i" for j
    using that s(2) by (simp_all add: other item_key_cases)
  have doc: "v1_document X ?t n j = v1_document X s n j" if "j \<noteq> i" for j
    using same[OF that] by (intro v1_document_cong)
  note at = row_ops_at[OF s spec[OF rows] raw]
  have ok: "v1_row_ok X c n ?t j" for j
  proof (cases "j = i")
    case False
    from v1_row_ok_cong[OF same[OF False]] spec[OF rows, of j] show ?thesis by blast
  qed (use at(1) in simp)
  have docs: "v1_document X ?t n j = v1_document X s n j" for j
    by (cases "j = i") (simp only: at(2), rule doc)
  have present: "(bt_get ?t (document_key n j) = None) = (bt_get s (document_key n j) = None)" for j
    using same(1)[of j] raw(1) get_row_ops(1)[OF s(1,2), of X doc] i by (cases "j = i") simp_all
  show "moved X c n s ?t"
    unfolding moved_def using s(1) by (intro conjI allI impI ok docs present other) simp_all
  show "\<And>j. j \<noteq> i \<Longrightarrow> row_done X n ?t j = row_done X n s j"
    using same doc by (simp add: row_done_def)
qed

subsection \<open>The rows of a namespace\<close>

definition doc_key_id :: "string \<Rightarrow> string \<Rightarrow> string" where
  "doc_key_id n k = drop (length (document_prefix n)) k"

lemma doc_key_id [simp]: "doc_key_id n (document_key n i) = i"
  by (simp add: doc_key_id_def document_prefix_key)

text \<open>
  Where the loop stands: \<open>P\<close> are the IDs behind it, \<open>b\<close> the batch not yet committed. The
  store itself and the store after the batch are both mixtures of the same documents, the
  rows behind are done once the batch is applied, and the counters are those of \<open>P\<close>.
\<close>

definition rows_counted :: "ext \<Rightarrow> string \<Rightarrow> store \<Rightarrow> string list \<Rightarrow> stats" where
  "rows_counted X n s P = fold (count_row X) (map (v1_document X s n) P) (default_stats\<lparr>revision := 1\<rparr>)"

definition at_row ::
  "ext \<Rightarrow> namespace \<Rightarrow> store \<Rightarrow> string list \<Rightarrow> store \<Rightarrow> stats \<times> batch \<Rightarrow> bool"
where
  "at_row X ns s0 P s acc \<longleftrightarrow>
     moved X (ns_conf ns) (ns_name ns) s0 s
     \<and> moved X (ns_conf ns) (ns_name ns) s0 (apply_batch (snd acc) s)
     \<and> (\<forall>x \<in> set (snd acc). \<exists>i \<in> set P. op_key x \<in> item_keys (ns_name ns) i)
     \<and> (\<forall>i \<in> set P. row_done X (ns_name ns) (apply_batch (snd acc) s) i)
     \<and> (\<forall>i. i \<notin> set P \<longrightarrow> bt_get s (document_key (ns_name ns) i) = bt_get s0 (document_key (ns_name ns) i))
     \<and> fst acc = rows_counted X (ns_name ns) s0 P"

lemma at_row_start:
  "moved X (ns_conf ns) (ns_name ns) s s \<Longrightarrow> at_row X ns s [] s (default_stats\<lparr>revision := 1\<rparr>, [])"
  by (simp add: at_row_def rows_counted_def)

lemma batch_avoids:
  assumes "\<forall>x \<in> set b. \<exists>i \<in> set P. op_key x \<in> item_keys n i" "valid_id n" "i \<notin> set P"
  shows "document_key n i \<notin> op_key ` set b"
proof
  assume "document_key n i \<in> op_key ` set b"
  then obtain x where "x \<in> set b" "op_key x = document_key n i" by auto
  with assms(1) obtain j where "j \<in> set P" "document_key n i \<in> item_keys n j" by auto
  with assms(2,3) show False by (simp add: item_key_cases)
qed

text \<open>The rows ahead of the loop.\<close>

definition rows_ahead :: "string \<Rightarrow> store \<Rightarrow> string list \<Rightarrow> (string \<times> bytes) list \<Rightarrow> bool" where
  "rows_ahead n s P rows \<longleftrightarrow> distinct (map fst rows) \<and>
     (\<forall>rw \<in> set rows. \<exists>i. fst rw = document_key n i \<and> i \<notin> set P \<and> bt_get s (fst rw) = Some (snd rw))"

lemma rows_ahead_Cons:
  assumes "rows_ahead n s P ((k, raw) # rows)"
  obtains i where "k = document_key n i" "i \<notin> set P" "bt_get s (document_key n i) = Some raw"
    "rows_ahead n s (P @ [i]) rows"
proof -
  from assms obtain i where i: "k = document_key n i" "i \<notin> set P" "bt_get s (document_key n i) = Some raw"
    by (auto simp: rows_ahead_def)
  have "\<exists>j. fst rw = document_key n j \<and> j \<notin> set (P @ [i]) \<and> bt_get s (fst rw) = Some (snd rw)"
    if rw: "rw \<in> set rows" for rw
  proof -
    from assms rw obtain j where j: "fst rw = document_key n j" "j \<notin> set P" "bt_get s (fst rw) = Some (snd rw)"
      by (auto simp: rows_ahead_def)
    have "fst rw \<noteq> k"
    proof
      assume "fst rw = k"
      with imageI[OF rw, of fst] assms show False by (simp add: rows_ahead_def)
    qed
    with i j have "j \<noteq> i" by auto
    with j show ?thesis by auto
  qed
  with assms have "rows_ahead n s (P @ [i]) rows" by (simp add: rows_ahead_def)
  with i show thesis by (rule that)
qed

lemma at_row_commit:
  assumes at: "at_row X ns s0 P s (st, b)" and "bt_ok s" "valid_id (ns_name ns)"
  shows "at_row X ns s0 P (apply_batch b s) (st, [])"
proof -
  from at have keys: "\<forall>x \<in> set b. \<exists>i \<in> set P. op_key x \<in> item_keys (ns_name ns) i"
    by (simp add: at_row_def)
  have "bt_get (apply_batch b s) (document_key (ns_name ns) i) = bt_get s (document_key (ns_name ns) i)"
    if "i \<notin> set P" for i
    using batch_avoids[OF keys assms(3) that] assms(2) by (simp add: get_apply_batch_other)
  with at show ?thesis by (simp add: at_row_def)
qed

lemma at_row_next:
  assumes at: "at_row X ns s0 P s (st, b)"
    and ns: "valid_id (ns_name ns)" "valid_config (ns_conf ns)" "bt_ok s" "i \<notin> set P"
    and raw: "bt_get s0 (document_key (ns_name ns) i) = Some raw"
  shows "\<exists>st' b'. migrate_row X ns s (k, raw) (st, b) = Inr (st', b') \<and> at_row X ns s0 (P @ [i]) s (st', b')"
proof -
  let ?n = "ns_name ns" and ?t = "apply_batch b s"
  from at have s: "moved X (ns_conf ns) ?n s0 s" and t: "moved X (ns_conf ns) ?n s0 ?t"
    and keys: "\<forall>x \<in> set b. \<exists>i \<in> set P. op_key x \<in> item_keys ?n i"
    and now: "bt_get s (document_key ?n i) = Some raw"
    using ns(4) raw by (simp_all add: at_row_def)
  from s have rows: "v1_row_ok X (ns_conf ns) ?n s i" by (simp add: moved_def)
  from migrate_row_ok[OF rows ns(2) now] obtain doc where doc: "dec_doc X raw = Some doc" "doc_id doc = i"
    and run: "migrate_row X ns s (k, raw) (st, b)
      = Inr (count_row X (v1_document X s ?n i) st, b @ row_ops X ?n doc)" by blast
  have here: "bt_get ?t (document_key ?n i) = Some raw"
    using batch_avoids[OF keys ns(1,4)] now ns(3) by (simp add: get_apply_batch_other)
  from t have t': "bt_ok ?t" "\<forall>i. v1_row_ok X (ns_conf ns) ?n ?t i" by (simp_all add: moved_def)
  note step = row_ops_moved[OF t'(1) ns(1,2) t'(2) here doc(1)]
  note moved = moved_trans[OF t step(1)]
  have "row_done X ?n (apply_batch (row_ops X ?n doc) ?t) j" if "j \<in> set (P @ [i])" for j
    using that at row_ops_at(3)[OF t'(1) ns(1,2) spec[OF t'(2)] here doc(1)] step(2)[of j]
    by (cases "j = i") (simp_all add: at_row_def)
  moreover have "\<forall>x \<in> set (b @ row_ops X ?n doc). \<exists>j \<in> set (P @ [i]). op_key x \<in> item_keys ?n j"
    using keys op_keys_row_ops[of _ X ?n doc] doc(2) by auto
  moreover have "count_row X (v1_document X s ?n i) st = rows_counted X ?n s0 (P @ [i])"
    using at s by (simp add: at_row_def rows_counted_def moved_def)
  ultimately have "at_row X ns s0 (P @ [i]) s (count_row X (v1_document X s ?n i) st, b @ row_ops X ?n doc)"
    using at s moved by (simp add: at_row_def)
  with run show ?thesis by blast
qed

text \<open>The loop, whatever its commits do.\<close>

lemma migrate_rows_from:
  assumes "migrate_rows X ns rows acc count d = (r, d')" "at_row X ns s0 P (kv d) acc"
    and "valid_id (ns_name ns)" "valid_config (ns_conf ns)"
    and "rows_ahead (ns_name ns) s0 P rows"
  shows "case r of
      Inl e \<Rightarrow> moved X (ns_conf ns) (ns_name ns) s0 (kv d')
    | Inr acc' \<Rightarrow> at_row X ns s0 (P @ map (doc_key_id (ns_name ns) \<circ> fst) rows) (kv d') acc'"
  using assms
proof (induction rows arbitrary: acc count d P)
  case Nil
  then show ?case by auto
next
  case (Cons rw rows)
  obtain st b where acc: "acc = (st, b)" by force
  obtain k raw where rw: "rw = (k, raw)" by force
  from Cons.prems(5)[unfolded rw] obtain i where i: "k = document_key (ns_name ns) i" "i \<notin> set P"
    "bt_get s0 (document_key (ns_name ns) i) = Some raw" and rest: "rows_ahead (ns_name ns) s0 (P @ [i]) rows"
    by (rule rows_ahead_Cons)
  from Cons.prems(2) have ok: "bt_ok (kv d)" by (simp add: at_row_def moved_def)
  from at_row_next[OF Cons.prems(2)[unfolded acc] Cons.prems(3,4) ok i(2,3)] obtain st' b' where
    step: "migrate_row X ns (kv d) (k, raw) (st, b) = Inr (st', b')"
    and at: "at_row X ns s0 (P @ [i]) (kv d) (st', b')" by blast
  have ids: "P @ map (doc_key_id (ns_name ns) \<circ> fst) (rw # rows)
      = (P @ [i]) @ map (doc_key_id (ns_name ns) \<circ> fst) rows"
    using rw i by simp
  show ?case
  proof (cases "count + 1 = 128")
    case False
    with Cons.prems(1) step acc rw have "migrate_rows X ns rows (st', b') (count + 1) d = (r, d')"
      by (simp add: act_bind_def)
    from Cons.IH[OF this at Cons.prems(3,4) rest] show ?thesis by (simp only: ids)
  next
    case True
    with Cons.prems(1) step acc rw have
      run: "act_bind (commit b') (\<lambda>_. migrate_rows X ns rows (st', []) 0) d = (r, d')"
      by (simp add: act_bind_def)
    from act_bind_eq_cases[OF run] show ?thesis
    proof (elim disjE exE conjE)
      fix e
      assume "commit b' d = (Inl e, d')" "r = Inl e"
      with commit_kv[of b' d] at show ?thesis by (auto simp: at_row_def)
    next
      fix q u
      assume q: "commit b' d = (Inr q, u)" and u: "migrate_rows X ns rows (st', []) 0 u = (r, d')"
      from commit_Inr[OF q] at_row_commit[OF at ok Cons.prems(3)]
      have "at_row X ns s0 (P @ [i]) (kv u) (st', [])" by simp
      from Cons.IH[OF u this Cons.prems(3,4) rest] show ?thesis by (simp only: ids)
    qed
  qed
qed

lemma migrate_rows_completes:
  assumes "\<not> closed d" "faults d = []" "at_row X ns s0 P (kv d) acc"
    and "valid_id (ns_name ns)" "valid_config (ns_conf ns)"
    and "rows_ahead (ns_name ns) s0 P rows"
  shows "\<exists>acc' d'. migrate_rows X ns rows acc count d = (Inr acc', d') \<and> \<not> closed d' \<and> faults d' = []"
  using assms
proof (induction rows arbitrary: acc count d P)
  case Nil
  then show ?case by simp
next
  case (Cons rw rows)
  obtain st b where acc: "acc = (st, b)" by force
  obtain k raw where rw: "rw = (k, raw)" by force
  from Cons.prems(6)[unfolded rw] obtain i where i: "k = document_key (ns_name ns) i" "i \<notin> set P"
    "bt_get s0 (document_key (ns_name ns) i) = Some raw" and rest: "rows_ahead (ns_name ns) s0 (P @ [i]) rows"
    by (rule rows_ahead_Cons)
  from Cons.prems(3) have ok: "bt_ok (kv d)" by (simp add: at_row_def moved_def)
  from at_row_next[OF Cons.prems(3)[unfolded acc] Cons.prems(4,5) ok i(2,3)] obtain st' b' where
    step: "migrate_row X ns (kv d) (k, raw) (st, b) = Inr (st', b')"
    and at: "at_row X ns s0 (P @ [i]) (kv d) (st', b')" by blast
  let ?d = "d\<lparr>kv := apply_batch b' (kv d), seqno := seqno d + 1\<rparr>"
  from at_row_commit[OF at ok Cons.prems(4)] have "at_row X ns s0 (P @ [i]) (kv ?d) (st', [])" by simp
  with Cons.IH[OF _ _ this Cons.prems(4,5) rest, of 0] Cons.IH[OF Cons.prems(1,2) at Cons.prems(4,5) rest, of "count + 1"]
  show ?case using Cons.prems(1,2) step acc rw by (simp add: act_bind_def)
qed

subsection \<open>A namespace\<close>

lemmas key_tables = document_prefix_key vector_prefix_key change_prefix_key

text \<open>A tally is a sum over any list of the IDs under its prefix.\<close>

lemma tally_ids:
  assumes "bt_ok s" "distinct ids" "\<And>i. bt_get s (p @ i) \<noteq> None \<Longrightarrow> i \<in> set ids"
  shows "tally f p s = (\<Sum>i \<leftarrow> ids. weight f (bt_get s (p @ i)))"
proof -
  let ?w = "\<lambda>k. weight f (bt_get s k)"
  let ?live = "{i \<in> set ids. bt_get s (p @ i) \<noteq> None}"
  have "tally f p s = sum_list (map ?w (keys_of (scan_prefix p s)))"
    using assms(1) by (auto simp: tally_def scan_prefix_iff intro!: arg_cong[of _ _ sum_list])
  also have "\<dots> = sum ?w (set (keys_of (scan_prefix p s)))"
    using assms(1) by (intro sum_list_distinct_conv_sum_set bt_ok_distinct) simp
  also have "set (keys_of (scan_prefix p s)) = (@) p ` ?live"
  proof (rule set_eqI)
    fix k
    have "k \<in> set (keys_of (scan_prefix p s)) \<longleftrightarrow> prefix p k \<and> bt_get s k \<noteq> None"
      using scan_prefix_keys[OF assms(1), of k p] by simp
    then show "k \<in> set (keys_of (scan_prefix p s)) \<longleftrightarrow> k \<in> (@) p ` ?live"
      using assms(3) by (auto simp: prefix_def)
  qed
  also have "sum ?w ((@) p ` ?live) = (\<Sum>i \<in> ?live. ?w (p @ i))"
    by (subst sum.reindex) (auto simp: inj_on_def)
  also have "\<dots> = (\<Sum>i \<in> set ids. ?w (p @ i))"
    by (rule sum.mono_neutral_left) auto
  also have "\<dots> = (\<Sum>i \<leftarrow> ids. ?w (p @ i))"
    using assms(2) by (simp add: sum_list_distinct_conv_sum_set)
  finally show ?thesis .
qed

lemma rows_counted_eq:
  "rows_counted X n s P = \<lparr>revision = 1, documents = of_nat (length P),
     stat_bytes = (\<Sum>i \<leftarrow> P. doc_bytes X (v1_document X s n i)), pending_documents = of_nat (length P)\<rparr>"
proof -
  have "fold (count_row X) ods st = st\<lparr>documents := documents st + of_nat (length ods),
      stat_bytes := stat_bytes st + (\<Sum>od \<leftarrow> ods. doc_bytes X od),
      pending_documents := pending_documents st + of_nat (length ods)\<rparr>" for ods st
    by (induction ods arbitrary: st) (simp_all add: count_row_def algebra_simps)
  then show ?thesis by (simp add: rows_counted_def default_stats_def comp_def)
qed

definition stored_ids :: "string \<Rightarrow> store \<Rightarrow> string list" where
  "stored_ids n s = map (doc_key_id n \<circ> fst) (scan_prefix (document_prefix n) s)"

lemma stored_ids:
  assumes "bt_ok s"
  shows "i \<in> set (stored_ids n s) \<longleftrightarrow> bt_get s (document_key n i) \<noteq> None" "distinct (stored_ids n s)"
proof -
  have keys: "keys_of (scan_prefix (document_prefix n) s) = map (document_key n) (stored_ids n s)"
    by (auto simp: stored_ids_def scan_prefix_def prefix_def document_prefix_key doc_key_id_def)
  have "distinct (keys_of (scan_prefix (document_prefix n) s))" using assms by (intro bt_ok_distinct) simp
  then show "distinct (stored_ids n s)" by (simp add: keys distinct_map)
  have "i \<in> set (stored_ids n s) \<longleftrightarrow> document_key n i \<in> set (keys_of (scan_prefix (document_prefix n) s))"
    by (auto simp: keys document_prefix_key)
  also have "\<dots> \<longleftrightarrow> bt_get s (document_key n i) \<noteq> None"
    using assms by (simp add: scan_prefix_keys document_prefix_key)
  finally show "i \<in> set (stored_ids n s) \<longleftrightarrow> bt_get s (document_key n i) \<noteq> None" .
qed

text \<open>Rows that are all done, with the counters of the loop, make a live namespace.\<close>

lemma rows_done_live:
  assumes moved: "moved X c n s0 t" and s0: "bt_ok s0" and c: "valid_config c" "valid_id n"
    and rows: "\<forall>i \<in> set (stored_ids n s0). row_done X n t i"
    and stats: "bt_get t (stats_key n) = Some (enc_stats X (rows_counted X n s0 (stored_ids n s0)))"
    and name: "namespace_at X t n = Inr \<lparr>ns_name = n, ns_conf = c\<rparr>" and json: "json_codec X"
  shows "live_inv X n t \<and> (\<forall>i. document_at X t n i = Inr (v1_document X s0 n i))"
proof -
  let ?ids = "stored_ids n s0"
  from moved have t: "bt_ok t" "\<forall>i. v1_row_ok X c n t i"
    "\<And>i. (bt_get t (document_key n i) = None) = (bt_get s0 (document_key n i) = None)"
    "\<And>i. v1_document X t n i = v1_document X s0 n i" by (simp_all add: moved_def)
  have absent: "bt_get t (document_key n i) = None \<and> bt_get t (vector_key n i) = None
      \<and> bt_get t (change_key n i) = None \<and> v1_document X s0 n i = None" if "i \<notin> set ?ids" for i
  proof -
    from that have none: "bt_get s0 (document_key n i) = None" using stored_ids(1)[OF s0] by blast
    with t(3)[of i] spec[OF t(2), of i] show ?thesis by (simp add: v1_row_ok_def v1_document_def)
  qed
  have present: "\<exists>doc. v1_document X s0 n i = Some doc \<and> stored_exactly X doc
        \<and> bt_get t (document_key n i) = Some (enc_doc X (doc\<lparr>vector := None\<rparr>))
        \<and> bt_get t (vector_key n i) = map_option (encode_vector (crc32 X)) (vector doc)
        \<and> bt_get t (change_key n i) = Some (u64_to_le 1)" if "i \<in> set ?ids" for i
    using rows that t(4) by (auto simp: row_done_def)
  have sums: "tally f (document_prefix n) t = (\<Sum>i \<leftarrow> ?ids. weight f (bt_get t (document_key n i)))"
    "tally f (vector_prefix n) t = (\<Sum>i \<leftarrow> ?ids. weight f (bt_get t (vector_key n i)))"
    "tally f (change_prefix n) t = (\<Sum>i \<leftarrow> ?ids. weight f (bt_get t (change_key n i)))" for f
    unfolding key_tables
    by (rule tally_ids[OF t(1) stored_ids(2)[OF s0]], rule ccontr, simp add: absent[unfolded key_tables])+
  have weights: "weight f (bt_get t (document_key n i)) = (case v1_document X s0 n i of
        None \<Rightarrow> 0 | Some doc \<Rightarrow> f (enc_doc X (doc\<lparr>vector := None\<rparr>)))"
    "weight f (bt_get t (vector_key n i)) = (case v1_document X s0 n i of
        None \<Rightarrow> 0 | Some doc \<Rightarrow> weight f (map_option (encode_vector (crc32 X)) (vector doc)))"
    "weight (\<lambda>_. 1) (bt_get t (document_key n i)) = 1" "weight (\<lambda>_. 1) (bt_get t (change_key n i)) = 1"
    if "i \<in> set ?ids" for f i
    using present[OF that] by auto
  have bytes: "doc_bytes X (v1_document X s0 n i)
      = weight blen (bt_get t (document_key n i)) + weight blen (bt_get t (vector_key n i))"
    if "i \<in> set ?ids" for i
    using present[OF that] by (auto simp: doc_bytes_def)
  have "(\<Sum>i \<leftarrow> ?ids. doc_bytes X (v1_document X s0 n i)) = byte_count n t"
    by (simp add: byte_count_def sums bytes sum_list_addf[symmetric] cong: map_cong)
  moreover have "of_nat (length ?ids) = doc_count n t" "of_nat (length ?ids) = pending_count n t"
    by (simp_all add: doc_count_def pending_count_def sums weights(3,4) sum_list_triv cong: map_cong)
  ultimately have counters: "counters_ok n t (rows_counted X n s0 ?ids)"
    by (simp add: counters_ok_def rows_counted_eq)
  have "changes_ok n t 1"
    unfolding changes_ok_def
  proof (intro allI impI)
    fix i v
    assume "bt_get t (change_key n i) = Some v"
    with absent[of i] present[of i] have "v = u64_to_le 1" by (cases "i \<in> set ?ids") auto
    then show "\<exists>q. parse_revision v = Inr q \<and> q \<le> 1" by simp
  qed
  moreover have "vectors_have_docs n t"
    unfolding vectors_have_docs_def
  proof (intro allI impI)
    fix i
    assume "bt_get t (vector_key n i) \<noteq> None"
    then show "bt_get t (document_key n i) \<noteq> None"
      using absent[of i] present[of i] by (cases "i \<in> set ?ids") auto
  qed
  moreover have "stats_at X t n = Inr (rows_counted X n s0 ?ids)" using stats json by (simp add: stats_at_def)
  ultimately have "live_inv X n t"
    using counters name c(1) by (simp add: live_inv_def rows_counted_eq)
  moreover have "document_at X t n i = Inr (v1_document X s0 n i)" for i
  proof (cases "i \<in> set ?ids")
    case False
    with absent[of i] show ?thesis by (simp add: document_at_def attributes_at_def)
  next
    case True
    with present obtain doc where doc: "v1_document X s0 n i = Some doc" "stored_exactly X doc"
      "bt_get t (document_key n i) = Some (enc_doc X (doc\<lparr>vector := None\<rparr>))"
      "bt_get t (vector_key n i) = map_option (encode_vector (crc32 X)) (vector doc)" by blast
    from doc(2) have dec: "dec_doc X (enc_doc X (doc\<lparr>vector := None\<rparr>)) = Some (doc\<lparr>vector := None\<rparr>)"
      by (simp add: stored_exactly_def)
    have "vector_at X t n i = Inr (vector doc)"
    proof (cases "vector doc")
      case None
      with doc(4) show ?thesis by (simp add: vector_at_def)
    next
      case (Some v)
      have "stored_vector X t n i = vector doc"
      proof -
        from t(4)[of i] doc(1) have "v1_document X t n i = Some doc" by simp
        moreover have "v1_document X t n i = Some (doc\<lparr>vector := stored_vector X t n i\<rparr>)"
          using doc(3) dec by (simp add: v1_document_def)
        ultimately have "vector (doc\<lparr>vector := stored_vector X t n i\<rparr>) = vector doc"
          by (simp del: document.select_convs document.simps)
        then show ?thesis by simp
      qed
      with Some show ?thesis by (auto simp: stored_vector_def split: sum.splits)
    qed
    with doc dec show ?thesis by (simp add: document_at_def attributes_at_def)
  qed
  ultimately show ?thesis by blast
qed

lemma put_stats:
  assumes "bt_ok t"
  shows "v1_row_ok X c n (bt_put (stats_key n) v t) i = v1_row_ok X c n t i"
    "v1_document X (bt_put (stats_key n) v t) n i = v1_document X t n i"
    "row_done X n (bt_put (stats_key n) v t) i = row_done X n t i"
proof -
  have get: "bt_get (bt_put (stats_key n) v t) (document_key n i) = bt_get t (document_key n i)"
    "bt_get (bt_put (stats_key n) v t) (vector_key n i) = bt_get t (vector_key n i)"
    "bt_get (bt_put (stats_key n) v t) (change_key n i) = bt_get t (change_key n i)"
    using assms by simp_all
  show "v1_row_ok X c n (bt_put (stats_key n) v t) i = v1_row_ok X c n t i" using get by (rule v1_row_ok_cong)
  show docs: "v1_document X (bt_put (stats_key n) v t) n i = v1_document X t n i"
    using get(1,2) by (rule v1_document_cong)
  show "row_done X n (bt_put (stats_key n) v t) i = row_done X n t i"
    unfolding row_done_def by (simp only: get docs)
qed

lemma moved_put_stats: "moved X c n s0 t \<Longrightarrow> moved X c n s0 (bt_put (stats_key n) v t)"
  by (simp add: moved_def put_stats)

lemma rows_ahead_scan: "bt_ok s \<Longrightarrow> rows_ahead n s [] (scan_prefix (document_prefix n) s)"
  unfolding rows_ahead_def
  by (auto simp: scan_prefix_iff prefix_def document_prefix_key intro: bt_ok_distinct)

lemma commit_last:
  assumes "act_bind (commit b) (\<lambda>_. act_ret ()) u = (r, d')"
  shows "kv d' = kv u \<and> r \<noteq> Inr () \<or> kv d' = apply_batch b (kv u)"
  using act_bind_eq_cases[OF assms] by (auto dest: commit_kv commit_Inr)

text \<open>What is true of a namespace once its migration has succeeded.\<close>

definition ns_migrated :: "ext \<Rightarrow> store \<Rightarrow> string \<Rightarrow> store \<Rightarrow> bool" where
  "ns_migrated X s0 n s \<longleftrightarrow>
     live_inv X n s \<and> (\<forall>i. document_at X s n i = Inr (v1_document X s0 n i))"

lemma migrate_namespace_from:
  assumes run: "migrate_namespace X (k, raw) d = (r, d')"
    and ns: "dec_ns X raw = Some ns" "valid_id (ns_name ns)" "valid_config (ns_conf ns)"
    and s: "bt_ok (kv d)" "\<forall>i. v1_row_ok X (ns_conf ns) (ns_name ns) (kv d) i"
    and key: "bt_get (kv d) (namespace_key (ns_name ns)) = Some raw" and json: "json_codec X"
  shows "moved X (ns_conf ns) (ns_name ns) (kv d) (kv d')
    \<and> (r = Inr () \<longrightarrow> ns_migrated X (kv d) (ns_name ns) (kv d'))"
proof -
  let ?n = "ns_name ns" and ?s = "kv d"
  let ?rows = "scan_prefix (document_prefix ?n) ?s"
  from run ns(1) have steps:
    "act_bind (migrate_rows X ns ?rows (default_stats\<lparr>revision := 1\<rparr>, []) 0) (\<lambda>(st, b).
       act_bind (commit (b @ [Put (stats_key ?n) (enc_stats X st)])) (\<lambda>_. act_ret ())) d = (r, d')"
    by (simp add: migrate_namespace_def act_bind_def)
  note start = at_row_start[OF moved_refl[OF s]] and ahead = rows_ahead_scan[OF s(1)]
  from act_bind_eq_cases[OF steps] show ?thesis
  proof (elim disjE exE conjE)
    fix e
    assume "migrate_rows X ns ?rows (default_stats\<lparr>revision := 1\<rparr>, []) 0 d = (Inl e, d')" "r = Inl e"
    with migrate_rows_from[OF this(1) start ns(2,3) ahead] show ?thesis by simp
  next
    fix acc u
    assume loop: "migrate_rows X ns ?rows (default_stats\<lparr>revision := 1\<rparr>, []) 0 d = (Inr acc, u)"
      and rest: "(case acc of (st, b) \<Rightarrow> act_bind (commit (b @ [Put (stats_key ?n) (enc_stats X st)]))
         (\<lambda>_. act_ret ())) u = (r, d')"
    obtain st b where acc: "acc = (st, b)" by force
    let ?b = "b @ [Put (stats_key ?n) (enc_stats X st)]"
    let ?t = "apply_batch ?b (kv u)"
    from migrate_rows_from[OF loop start ns(2,3) ahead] acc
    have at: "at_row X ns ?s (stored_ids ?n ?s) (kv u) (st, b)" by (simp add: stored_ids_def)
    then have u: "moved X (ns_conf ns) ?n ?s (kv u)" "moved X (ns_conf ns) ?n ?s (apply_batch b (kv u))"
      and st: "st = rows_counted X ?n ?s (stored_ids ?n ?s)" by (simp_all add: at_row_def)
    then have ok: "bt_ok (apply_batch b (kv u))" by (simp add: moved_def)
    from u(2) have t: "moved X (ns_conf ns) ?n ?s ?t" by (simp add: moved_put_stats)
    have "bt_get ?t (namespace_key ?n) = bt_get ?s (namespace_key ?n)"
      using t by (simp add: moved_def item_keys_def)
    with ns key have name: "namespace_at X ?t ?n = Inr \<lparr>ns_name = ?n, ns_conf = ns_conf ns\<rparr>"
      by (simp add: namespace_at_def)
    have "\<forall>i \<in> set (stored_ids ?n ?s). row_done X ?n ?t i"
      using at ok by (simp add: at_row_def put_stats)
    moreover have "bt_get ?t (stats_key ?n) = Some (enc_stats X (rows_counted X ?n ?s (stored_ids ?n ?s)))"
      using ok st by simp
    ultimately have live: "ns_migrated X ?s ?n ?t"
      unfolding ns_migrated_def using t s(1) ns(2,3) name json by (intro rows_done_live)
    from rest have "act_bind (commit ?b) (\<lambda>_. act_ret ()) u = (r, d')" by (simp only: acc prod.case)
    from commit_last[OF this] have "kv d' = kv u \<and> r \<noteq> Inr () \<or> kv d' = ?t" .
    then show ?thesis
    proof (elim disjE conjE)
      assume "kv d' = kv u" "r \<noteq> Inr ()"
      with u(1) show ?thesis by simp
    next
      assume d': "kv d' = ?t"
      show ?thesis unfolding d' using t live by blast
    qed
  qed
qed

lemma migrate_namespace_completes:
  assumes "\<not> closed d" "faults d = []"
    and ns: "dec_ns X raw = Some ns" "valid_id (ns_name ns)" "valid_config (ns_conf ns)"
    and s: "bt_ok (kv d)" "\<forall>i. v1_row_ok X (ns_conf ns) (ns_name ns) (kv d) i"
  shows "\<exists>d'. migrate_namespace X (k, raw) d = (Inr (), d') \<and> \<not> closed d' \<and> faults d' = []"
proof -
  note start = at_row_start[OF moved_refl[OF s]] and ahead = rows_ahead_scan[OF s(1)]
  from migrate_rows_completes[OF assms(1,2) start ns(2,3) ahead, of 0] obtain acc d' where
    "migrate_rows X ns (scan_prefix (document_prefix (ns_name ns)) (kv d)) (default_stats\<lparr>revision := 1\<rparr>, []) 0 d
       = (Inr acc, d')" "\<not> closed d'" "faults d' = []" by blast
  with ns(1) show ?thesis by (cases acc) (simp add: migrate_namespace_def act_bind_def)
qed

subsection \<open>The database\<close>

definition v1_namespaces :: "ext \<Rightarrow> store \<Rightarrow> namespace list" where
  "v1_namespaces X s = List.map_filter (\<lambda>(k, raw). dec_ns X raw) (scan_prefix ''n/'' s)"

definition v1_store :: "ext \<Rightarrow> store \<Rightarrow> bool" where
  "v1_store X s \<longleftrightarrow> bt_ok s \<and>
     (\<forall>(k, raw) \<in> set (scan_prefix ''n/'' s). case dec_ns X raw of
        None \<Rightarrow> False
      | Some ns \<Rightarrow> k = namespace_key (ns_name ns) \<and> valid_id (ns_name ns) \<and> valid_config (ns_conf ns)
          \<and> (\<forall>i. v1_row_ok X (ns_conf ns) (ns_name ns) s i))"

text \<open>
  \<open>underway\<close>: an attempt has moved some rows of \<open>s0\<close> and lost none. \<open>migrated\<close>: the result
  is a v2 database with the documents of \<open>s0\<close>.
\<close>

definition underway :: "ext \<Rightarrow> store \<Rightarrow> store \<Rightarrow> bool" where
  "underway X s0 s \<longleftrightarrow> v1_store X s \<and> scan_prefix ''n/'' s = scan_prefix ''n/'' s0
     \<and> (\<forall>ns \<in> set (v1_namespaces X s0). \<forall>i. v1_document X s (ns_name ns) i = v1_document X s0 (ns_name ns) i)"

definition migrated :: "ext \<Rightarrow> store \<Rightarrow> store \<Rightarrow> bool" where
  "migrated X s0 s \<longleftrightarrow> bt_get s FORMAT_KEY = Some FORMAT \<and> scan_prefix ''n/'' s = scan_prefix ''n/'' s0
     \<and> (\<forall>ns \<in> set (v1_namespaces X s0). ns_migrated X s0 (ns_name ns) s)"

lemma v1_namespaces_iff:
  "ns \<in> set (v1_namespaces X s) \<longleftrightarrow> (\<exists>k raw. (k, raw) \<in> set (scan_prefix ''n/'' s) \<and> dec_ns X raw = Some ns)"
  by (auto simp: v1_namespaces_def map_filter_def image_iff split: option.splits) force+

lemma v1_store_row:
  assumes "v1_store X s" "(k, raw) \<in> set (scan_prefix ''n/'' s)"
  obtains ns where "dec_ns X raw = Some ns" "k = namespace_key (ns_name ns)" "valid_id (ns_name ns)"
    "valid_config (ns_conf ns)" "\<forall>i. v1_row_ok X (ns_conf ns) (ns_name ns) s i"
    "bt_get s (namespace_key (ns_name ns)) = Some raw"
proof -
  from assms(1) have ok: "bt_ok s" by (simp add: v1_store_def)
  from bspec[OF conjunct2[OF assms(1)[unfolded v1_store_def]] assms(2)] obtain ns where
    ns: "dec_ns X raw = Some ns" "k = namespace_key (ns_name ns)" "valid_id (ns_name ns)"
    "valid_config (ns_conf ns)" "\<forall>i. v1_row_ok X (ns_conf ns) (ns_name ns) s i"
    by (auto split: option.splits)
  moreover from assms(2) ok have "bt_get s k = Some raw" by (simp add: scan_prefix_iff)
  ultimately show thesis using that by blast
qed

lemma v1_store_at:
  assumes "v1_store X s" "(k, raw) \<in> set (scan_prefix ''n/'' s)" "dec_ns X raw = Some ns"
  shows "valid_id (ns_name ns)" "valid_config (ns_conf ns)" "k = namespace_key (ns_name ns)"
    "\<forall>i. v1_row_ok X (ns_conf ns) (ns_name ns) s i" "bt_get s (namespace_key (ns_name ns)) = Some raw"
proof -
  from assms(1,2) obtain ns' where ns': "dec_ns X raw = Some ns'" "k = namespace_key (ns_name ns')"
    "valid_id (ns_name ns')" "valid_config (ns_conf ns')" "\<forall>i. v1_row_ok X (ns_conf ns') (ns_name ns') s i"
    "bt_get s (namespace_key (ns_name ns')) = Some raw" by (rule v1_store_row)
  from ns'(1) assms(3) have "ns' = ns" by simp
  with ns' show "valid_id (ns_name ns)" "valid_config (ns_conf ns)" "k = namespace_key (ns_name ns)"
    "\<forall>i. v1_row_ok X (ns_conf ns) (ns_name ns) s i" "bt_get s (namespace_key (ns_name ns)) = Some raw" by simp_all
qed

text \<open>Moving the rows of one namespace leaves the others, the namespace table and the format alone.\<close>

lemma moved_agree:
  assumes "moved X c n s t" "valid_id n" "valid_id m" "n \<noteq> m"
  shows "agree_on m s t"
  unfolding agree_on_def
proof (intro allI impI)
  fix k
  assume k: "owned_by m k"
  with assms(2-4) have "\<not> owned_by n k" using owned_by_disjoint by blast
  then have "k \<noteq> stats_key n" "\<forall>i. k \<notin> item_keys n i" by (auto simp: item_keys_def)
  with assms(1) show "bt_get s k = bt_get t k" by (simp add: moved_def)
qed

lemma moved_elsewhere:
  assumes "moved X c n s t" "bt_ok s"
  shows "scan_prefix ''n/'' t = scan_prefix ''n/'' s" "bt_get t FORMAT_KEY = bt_get s FORMAT_KEY"
proof -
  from assms(1) have same: "bt_get t k = bt_get s k" if "k \<noteq> stats_key n" "\<forall>i. k \<notin> item_keys n i" for k
    using that by (simp add: moved_def)
  show "bt_get t FORMAT_KEY = bt_get s FORMAT_KEY" by (rule same) (simp_all add: item_keys_def)
  show "scan_prefix ''n/'' t = scan_prefix ''n/'' s"
  proof (rule scan_prefix_cong)
    show "bt_ok t" using assms(1) by (simp add: moved_def)
    fix k
    assume "prefix ''n/'' k"
    then show "bt_get t k = bt_get s k"
      by (intro same) (auto simp: item_keys_def key_defs prefix_def)
  qed (rule assms(2))
qed

lemma underway_step:
  assumes way: "underway X s0 s" and row: "(k, raw) \<in> set (scan_prefix ''n/'' s0)" "dec_ns X raw = Some ns"
    and moved: "moved X (ns_conf ns) (ns_name ns) s t"
  shows "underway X s0 t"
    and "\<And>m. valid_id m \<Longrightarrow> m \<noteq> ns_name ns \<Longrightarrow> ns_migrated X s0 m s \<Longrightarrow> ns_migrated X s0 m t"
proof -
  let ?n = "ns_name ns"
  from way have s: "v1_store X s" "bt_ok s" and scan: "scan_prefix ''n/'' s = scan_prefix ''n/'' s0"
    by (simp_all add: underway_def v1_store_def)
  note n = v1_store_at[OF s(1) row(1)[folded scan] row(2)]
  from moved have t: "bt_ok t" "\<And>i. v1_row_ok X (ns_conf ns) ?n t i" "\<And>i. v1_document X t ?n i = v1_document X s ?n i"
    by (simp_all add: moved_def)
  note scan_t = moved_elsewhere(1)[OF moved s(2)]
  have agree: "agree_on m s t" if "valid_id m" "m \<noteq> ?n" for m
    using moved_agree[OF moved n(1) that(1)] that(2) by simp
  have docs: "v1_document X t m i = v1_document X s m i" if "valid_id m" for m i
  proof (cases "m = ?n")
    case False
    note get = agree_on_get[OF agree[OF that False], symmetric]
    show ?thesis by (rule v1_document_cong[OF get(1,2)])
  qed (simp add: t)
  have "v1_store X t"
    unfolding v1_store_def scan_t
  proof (intro conjI t(1) ballI, clarify)
    fix k' raw'
    assume mem: "(k', raw') \<in> set (scan_prefix ''n/'' s)"
    then obtain ns' where ns': "dec_ns X raw' = Some ns'" "k' = namespace_key (ns_name ns')" "valid_id (ns_name ns')"
      "valid_config (ns_conf ns')" "\<forall>i. v1_row_ok X (ns_conf ns') (ns_name ns') s i"
      "bt_get s (namespace_key (ns_name ns')) = Some raw'" by (rule v1_store_row[OF s(1)])
    have rows_t: "\<forall>i. v1_row_ok X (ns_conf ns') (ns_name ns') t i"
    proof (cases "ns_name ns' = ?n")
      case True
      with ns'(6) n(5) have "raw' = raw" by simp
      with ns'(1) row(2) have "ns' = ns" by simp
      with t(2) show ?thesis by blast
    next
      case False
      note get = agree_on_get[OF agree[OF ns'(3) False], symmetric]
      from v1_row_ok_cong[OF get(1-3)] ns'(5) show ?thesis by blast
    qed
    show "case dec_ns X raw' of None \<Rightarrow> False | Some ns \<Rightarrow> k' = namespace_key (ns_name ns)
        \<and> valid_id (ns_name ns) \<and> valid_config (ns_conf ns) \<and> (\<forall>i. v1_row_ok X (ns_conf ns) (ns_name ns) t i)"
      unfolding ns'(1) option.case by (intro conjI ns'(2-4) rows_t)
  qed
  moreover have "v1_document X t (ns_name ns') i = v1_document X s0 (ns_name ns') i"
    if mem: "ns' \<in> set (v1_namespaces X s0)" for ns' i
  proof -
    from mem obtain k' raw' where "(k', raw') \<in> set (scan_prefix ''n/'' s)" "dec_ns X raw' = Some ns'"
      by (auto simp: v1_namespaces_iff scan)
    from v1_store_at(1)[OF s(1) this] have "v1_document X t (ns_name ns') i = v1_document X s (ns_name ns') i"
      by (rule docs)
    with way mem show ?thesis by (simp add: underway_def)
  qed
  ultimately show "underway X s0 t" using scan scan_t by (simp add: underway_def)
  show "ns_migrated X s0 m t" if m: "valid_id m" "m \<noteq> ?n" "ns_migrated X s0 m s" for m
    using m(3) live_inv_agree[OF agree[OF m(1,2)] s(2) t(1)] agree_on_at(3)[OF agree[OF m(1,2)]]
    by (simp add: ns_migrated_def)
qed

lemma underway_put_format:
  assumes "underway X s0 s"
  shows "underway X s0 (bt_put FORMAT_KEY v s)"
    and "\<And>m. ns_migrated X s0 m s \<Longrightarrow> ns_migrated X s0 m (bt_put FORMAT_KEY v s)"
proof -
  let ?t = "bt_put FORMAT_KEY v s"
  from assms have s: "v1_store X s" "bt_ok s" by (simp_all add: underway_def v1_store_def)
  have agree: "agree_on m s ?t" for m using s(2) by (auto simp: agree_on_def)
  have scan: "scan_prefix ''n/'' ?t = scan_prefix ''n/'' s"
    using s(2) by (intro scan_prefix_cong) (auto simp: FORMAT_KEY_def)
  have row: "v1_row_ok X c m ?t i = v1_row_ok X c m s i" for c m i
    using agree_on_get(1-3)[OF agree, symmetric] by (rule v1_row_ok_cong)
  have docs: "v1_document X ?t m i = v1_document X s m i" for m i
    using agree_on_get(1,2)[OF agree, symmetric] by (rule v1_document_cong)
  have "v1_store X ?t" using s unfolding v1_store_def scan row by simp
  with assms show "underway X s0 ?t" unfolding underway_def scan docs by blast
  show "ns_migrated X s0 m ?t" if "ns_migrated X s0 m s" for m
    using that live_inv_agree[OF agree s(2)] agree_on_at(3)[OF agree] s(2)
    by (simp add: ns_migrated_def)
qed

lemma migrate_each_from:
  assumes "act_for (migrate_namespace X) rows d = (r, d')" "underway X s0 (kv d)" "json_codec X"
    and "set rows \<subseteq> set (scan_prefix ''n/'' s0)"
    and "\<forall>ns \<in> D. valid_id (ns_name ns) \<and> ns_migrated X s0 (ns_name ns) (kv d)"
  shows "underway X s0 (kv d') \<and> bt_get (kv d') FORMAT_KEY = bt_get (kv d) FORMAT_KEY
    \<and> (r = Inr () \<longrightarrow> (\<forall>ns. ns \<in> D \<or> (\<exists>rw \<in> set rows. dec_ns X (snd rw) = Some ns)
         \<longrightarrow> ns_migrated X s0 (ns_name ns) (kv d')))"
  using assms
proof (induction rows arbitrary: d D)
  case Nil
  then show ?case by auto
next
  case (Cons rw rows)
  obtain k raw where rw: "rw = (k, raw)" by force
  from Cons.prems(2) have s: "v1_store X (kv d)" "bt_ok (kv d)"
    and scan: "scan_prefix ''n/'' (kv d) = scan_prefix ''n/'' s0" by (simp_all add: underway_def v1_store_def)
  from Cons.prems(4) rw have mem: "(k, raw) \<in> set (scan_prefix ''n/'' s0)" by simp
  then have "(k, raw) \<in> set (scan_prefix ''n/'' (kv d))" by (simp only: scan)
  then obtain ns where ns: "dec_ns X raw = Some ns" "k = namespace_key (ns_name ns)" "valid_id (ns_name ns)"
    "valid_config (ns_conf ns)" "\<forall>i. v1_row_ok X (ns_conf ns) (ns_name ns) (kv d) i"
    "bt_get (kv d) (namespace_key (ns_name ns)) = Some raw" by (rule v1_store_row[OF s(1)])
  have here: "ns \<in> set (v1_namespaces X s0)" using mem ns(1) by (auto simp: v1_namespaces_iff)
  have one: "underway X s0 (kv u) \<and> bt_get (kv u) FORMAT_KEY = bt_get (kv d) FORMAT_KEY
      \<and> (q = Inr () \<longrightarrow> (\<forall>m \<in> insert ns D. valid_id (ns_name m) \<and> ns_migrated X s0 (ns_name m) (kv u)))"
    if run: "migrate_namespace X rw d = (q, u)" for q u
  proof -
    note res = migrate_namespace_from[OF run[unfolded rw] ns(1,3,4) s(2) ns(5,6) Cons.prems(3)]
    note step = underway_step[OF Cons.prems(2) mem ns(1) conjunct1[OF res]]
    have "ns_migrated X s0 (ns_name ns) (kv u)" if "q = Inr ()"
      using conjunct2[OF res] that here Cons.prems(2) by (simp add: ns_migrated_def underway_def)
    with step(2) Cons.prems(5) ns(3)
    have "q = Inr () \<longrightarrow> (\<forall>m \<in> insert ns D. valid_id (ns_name m) \<and> ns_migrated X s0 (ns_name m) (kv u))"
      by (metis insert_iff)
    with step(1) moved_elsewhere(2)[OF conjunct1[OF res] s(2)] show ?thesis by blast
  qed
  from Cons.prems(1) have "act_bind (migrate_namespace X rw) (\<lambda>_. act_for (migrate_namespace X) rows) d = (r, d')"
    by simp
  from act_bind_eq_cases[OF this] show ?case
  proof (elim disjE exE conjE)
    fix e
    assume "migrate_namespace X rw d = (Inl e, d')" "r = Inl e"
    with one show ?case by simp
  next
    fix q u
    assume u: "migrate_namespace X rw d = (Inr q, u)" "act_for (migrate_namespace X) rows u = (r, d')"
    from one[OF u(1)] have u': "underway X s0 (kv u)" "bt_get (kv u) FORMAT_KEY = bt_get (kv d) FORMAT_KEY"
      "\<forall>m \<in> insert ns D. valid_id (ns_name m) \<and> ns_migrated X s0 (ns_name m) (kv u)" by simp_all
    from Cons.prems(4) have "set rows \<subseteq> set (scan_prefix ''n/'' s0)" by simp
    from Cons.IH[OF u(2) u'(1) Cons.prems(3) this u'(3)] u'(2) rw ns(1) show ?case by auto
  qed
qed

lemma migrate_each_completes:
  assumes "\<not> closed d" "faults d = []" "underway X s0 (kv d)" "json_codec X"
    and "set rows \<subseteq> set (scan_prefix ''n/'' s0)"
  shows "\<exists>d'. act_for (migrate_namespace X) rows d = (Inr (), d') \<and> \<not> closed d' \<and> faults d' = []"
  using assms
proof (induction rows arbitrary: d)
  case Nil
  then show ?case by simp
next
  case (Cons rw rows)
  obtain k raw where rw: "rw = (k, raw)" by force
  from Cons.prems(3) have s: "v1_store X (kv d)" "bt_ok (kv d)"
    and scan: "scan_prefix ''n/'' (kv d) = scan_prefix ''n/'' s0" by (simp_all add: underway_def v1_store_def)
  from Cons.prems(5) rw have "(k, raw) \<in> set (scan_prefix ''n/'' (kv d))" by (simp add: scan)
  then obtain ns where ns: "dec_ns X raw = Some ns" "valid_id (ns_name ns)" "valid_config (ns_conf ns)"
    "\<forall>i. v1_row_ok X (ns_conf ns) (ns_name ns) (kv d) i" by (rule v1_store_row[OF s(1)])
  from migrate_namespace_completes[OF Cons.prems(1,2) ns(1-3) s(2) ns(4), of k] rw obtain u where
    u: "migrate_namespace X rw d = (Inr (), u)" "\<not> closed u" "faults u = []" by auto
  have rows: "set [rw] \<subseteq> set (scan_prefix ''n/'' s0)" "set rows \<subseteq> set (scan_prefix ''n/'' s0)"
    using Cons.prems(5) by simp_all
  have one: "act_for (migrate_namespace X) [rw] d = (Inr (), u)" by (simp add: act_bind_def u(1))
  have "underway X s0 (kv u)"
    using migrate_each_from[OF one Cons.prems(3,4) rows(1), of "{}"] by simp
  from Cons.IH[OF u(2,3) this Cons.prems(4) rows(2)] show ?case by (simp add: act_bind_def u(1))
qed

text \<open>One attempt: it leaves the migration under way, or done.\<close>

definition v1_format :: "store \<Rightarrow> bool" where
  "v1_format s \<longleftrightarrow> bt_get s FORMAT_KEY \<in> {Some V1_FORMAT, Some MIGRATING}"

lemma migrate_v1_from:
  assumes "migrate_v1 X d = (r, d')" "underway X s0 (kv d)" "v1_format (kv d)" "json_codec X"
  shows "migrated X s0 (kv d') \<or> underway X s0 (kv d') \<and> v1_format (kv d') \<and> r \<noteq> Inr ()"
proof -
  let ?s = "bt_put FORMAT_KEY MIGRATING (kv d)" and ?rows = "scan_prefix ''n/'' s0"
  from assms(2) have ok: "bt_ok (kv d)" by (simp add: underway_def v1_store_def)
  note s = underway_put_format(1)[OF assms(2), of MIGRATING]
  have fmt: "v1_format ?s" using ok by (simp add: v1_format_def)
  from act_bind_eq_cases[OF assms(1)[unfolded migrate_v1_def]] show ?thesis
  proof (elim disjE exE conjE)
    fix e
    assume "commit [Put FORMAT_KEY MIGRATING] d = (Inl e, d')" "r = Inl e"
    with commit_kv[OF this(1)] s fmt assms(2,3) show ?thesis by auto
  next
    fix q u
    assume q: "commit [Put FORMAT_KEY MIGRATING] d = (Inr q, u)"
      and run: "act_bind (act_read (\<lambda>s. Inr (scan_prefix ''n/'' s))) (\<lambda>rows.
        act_bind (act_for (migrate_namespace X) rows) (\<lambda>_.
        act_bind (commit [Put FORMAT_KEY FORMAT]) (\<lambda>_. act_ret ()))) u = (r, d')"
    from commit_Inr[OF q] have u: "kv u = ?s" by simp
    with s have "scan_prefix ''n/'' (kv u) = ?rows" by (simp add: underway_def)
    with run have each: "act_bind (act_for (migrate_namespace X) ?rows) (\<lambda>_.
        act_bind (commit [Put FORMAT_KEY FORMAT]) (\<lambda>_. act_ret ())) u = (r, d')"
      by (simp add: act_bind_def)
    from act_bind_eq_cases[OF each] show ?thesis
    proof (elim disjE exE conjE)
      fix e
      assume "act_for (migrate_namespace X) ?rows u = (Inl e, d')" "r = Inl e"
      with migrate_each_from[OF this(1), of s0 "{}"] s fmt u assms(4) show ?thesis
        by (simp add: v1_format_def)
    next
      fix a w
      assume loop: "act_for (migrate_namespace X) ?rows u = (Inr a, w)"
        and last: "act_bind (commit [Put FORMAT_KEY FORMAT]) (\<lambda>_. act_ret ()) w = (r, d')"
      from migrate_each_from[OF loop, of s0 "{}"] s u assms(4) have w: "underway X s0 (kv w)" "v1_format (kv w)"
        and each: "\<And>ns rw. rw \<in> set ?rows \<Longrightarrow> dec_ns X (snd rw) = Some ns \<Longrightarrow> ns_migrated X s0 (ns_name ns) (kv w)"
        using fmt by (auto simp: v1_format_def)
      have "bt_ok (kv w)" using w(1) by (simp add: underway_def v1_store_def)
      then have "migrated X s0 (bt_put FORMAT_KEY FORMAT (kv w))"
        using underway_put_format(1)[OF w(1), of FORMAT] underway_put_format(2)[OF w(1), where v = FORMAT] each
        by (fastforce simp: migrated_def underway_def v1_namespaces_iff)
      with commit_last[OF last] w show ?thesis by auto
    qed
  qed
qed

lemma migrate_v1_completes:
  assumes "\<not> closed d" "faults d = []" "underway X s0 (kv d)" "json_codec X"
  shows "\<exists>d'. migrate_v1 X d = (Inr (), d')"
proof -
  let ?d = "d\<lparr>kv := bt_put FORMAT_KEY MIGRATING (kv d), seqno := seqno d + 1\<rparr>"
  note s = underway_put_format(1)[OF assms(3), of MIGRATING]
  from s have scan: "scan_prefix ''n/'' (kv ?d) = scan_prefix ''n/'' s0" by (simp add: underway_def)
  have "underway X s0 (kv ?d)" using s by simp
  with migrate_each_completes[of ?d X s0 "scan_prefix ''n/'' s0"] assms obtain w where
    "act_for (migrate_namespace X) (scan_prefix ''n/'' s0) ?d = (Inr (), w)" "\<not> closed w" "faults w = []"
    by auto
  with assms(1,2) scan show ?thesis by (simp add: migrate_v1_def act_bind_def)
qed

subsection \<open>Any number of interrupted attempts\<close>

text \<open>
  An operator reopens the database with migration allowed, under one list of storage failures
  after another: an attempt may fail or crash before or after any of its commits.
\<close>

fun attempts :: "ext \<Rightarrow> fault list list \<Rightarrow> db \<Rightarrow> db" where
  "attempts X [] d = d"
| "attempts X (fs # fss) d =
     attempts X fss (snd (initialize_format X True (d\<lparr>closed := False, faults := fs\<rparr>)))"

definition migration_state :: "ext \<Rightarrow> store \<Rightarrow> store \<Rightarrow> bool" where
  "migration_state X s0 s \<longleftrightarrow> migrated X s0 s \<or> underway X s0 s \<and> v1_format s"

lemma initialize_v1:
  assumes "v1_format (kv d)"
  shows "initialize_format X True d = migrate_v1 X d"
  using assms by (auto simp: v1_format_def initialize_format_def act_bind_def)

lemma initialize_migrated:
  assumes "migrated X s0 (kv d)"
  shows "initialize_format X allowed d = (Inr (), d)"
  using assms by (simp add: migrated_def initialize_format_def act_bind_def)

lemma attempt_state:
  assumes "migration_state X s0 (kv d)" "json_codec X"
  shows "migration_state X s0 (kv (snd (initialize_format X True d)))"
proof -
  obtain r d' where run: "initialize_format X True d = (r, d')" by force
  from assms(1) show ?thesis
    unfolding migration_state_def
  proof (elim disjE conjE)
    assume "migrated X s0 (kv d)"
    from initialize_migrated[OF this] this show "migrated X s0 (kv (snd (initialize_format X True d)))
      \<or> underway X s0 (kv (snd (initialize_format X True d))) \<and> v1_format (kv (snd (initialize_format X True d)))"
      by simp
  next
    assume d: "underway X s0 (kv d)" "v1_format (kv d)"
    from migrate_v1_from[OF run[unfolded initialize_v1[OF d(2)]] d assms(2)] run
    show "migrated X s0 (kv (snd (initialize_format X True d)))
      \<or> underway X s0 (kv (snd (initialize_format X True d))) \<and> v1_format (kv (snd (initialize_format X True d)))"
      by auto
  qed
qed

lemma attempts_state:
  "migration_state X s0 (kv d) \<Longrightarrow> json_codec X \<Longrightarrow> migration_state X s0 (kv (attempts X fss d))"
proof (induction fss arbitrary: d)
  case (Cons fs fss)
  from Cons.prems(1) have "migration_state X s0 (kv (d\<lparr>closed := False, faults := fs\<rparr>))" by simp
  from Cons.IH[OF attempt_state[OF this Cons.prems(2)] Cons.prems(2)] show ?case by simp
qed simp

lemma underway_start: "v1_store X s \<Longrightarrow> underway X s s"
  by (simp add: underway_def)

text \<open>An interrupted v1 database: document \<open>x\<close> still holds its vector, \<open>y\<close> has moved.\<close>

definition sample_v1_conf :: ns_config where
  "sample_v1_conf = \<lparr>dimensions = Some 1, metric = Dot, text_fields = []\<rparr>"

definition sample_v1 :: store where
  "sample_v1 =
     [(''c/a/y'', u64_to_le 1),
      (''d/a/x'', s_enc_doc \<lparr>doc_id = ''x'', vector = Some [0x3F800000], attributes = []\<rparr>),
      (''d/a/y'', s_enc_doc \<lparr>doc_id = ''y'', vector = None, attributes = []\<rparr>),
      (''meta/format'', MIGRATING),
      (''n/a'', s_enc_ns \<lparr>ns_name = ''a'', ns_conf = sample_v1_conf\<rparr>),
      (''v/a/y'', encode_vector (crc32 sample_ext) [0x40000000])]"

lemma sample_v1_row: "v1_row_ok sample_ext sample_v1_conf ''a'' sample_v1 i"
proof -
  have dec: "whole_opt s_read_doc (s_enc_doc \<lparr>doc_id = j, vector = v, attributes = []\<rparr>)
      = Some \<lparr>doc_id = j, vector = v, attributes = []\<rparr>" for j v
    by (rule sample_doc_codec) simp
  have valid: "valid_vector sample_v1_conf [0x3F800000]" "valid_vector sample_v1_conf [0x40000000]"
    by code_simp+
  consider "i = ''x''" | "i = ''y''" | "i \<noteq> ''x''" "i \<noteq> ''y''" by blast
  then show ?thesis
  proof cases
    case 1
    with valid show ?thesis
      by (simp add: v1_row_ok_def sample_v1_def key_defs dec stored_exactly_def)
  next
    case 2
    with valid show ?thesis
      by (auto simp: v1_row_ok_def sample_v1_def key_defs dec stored_exactly_def)
  next
    case 3
    then show ?thesis by (simp add: v1_row_ok_def sample_v1_def key_defs)
  qed
qed

lemma sample_v1_store: "v1_store sample_ext sample_v1"
proof -
  have scan: "scan_prefix ''n/'' sample_v1 = [(''n/a'', s_enc_ns \<lparr>ns_name = ''a'', ns_conf = sample_v1_conf\<rparr>)]"
    by (simp add: sample_v1_def scan_prefix_def)
  have "bt_ok sample_v1" by (simp add: sample_v1_def)
  moreover have "valid_id ''a''" by code_simp
  moreover have "valid_config sample_v1_conf" by (simp add: sample_v1_conf_def valid_config_def)
  moreover have "All (v1_row_ok sample_ext sample_v1_conf ''a'' sample_v1)" by (rule allI) (rule sample_v1_row)
  ultimately show ?thesis by (simp add: v1_store_def scan namespace_key_def)
qed

text \<open>C12: The migration of a v1 database loses nothing. After any number of attempts, each failing
  or crashing before or after any of its commits, a store whose format row says v2 holds every
  namespace with exact counters and change records, and every document with its vector as the
  v1 store had it; and whatever the attempts left, one more with working storage completes.\<close>
theorem migration_loses_nothing:
  assumes "v1_store X (kv d)" "v1_format (kv d)" "json_codec X"
  shows "(bt_get (kv (attempts X fss d)) FORMAT_KEY = Some FORMAT \<longrightarrow> migrated X (kv d) (kv (attempts X fss d)))
    \<and> (\<exists>d'. initialize_format X True ((attempts X fss d)\<lparr>closed := False, faults := []\<rparr>) = (Inr (), d')
         \<and> migrated X (kv d) (kv d'))"
proof -
  let ?e = "attempts X fss d"
  let ?d = "?e\<lparr>closed := False, faults := []\<rparr>"
  have state: "migration_state X (kv d) (kv ?e)"
    using assms by (intro attempts_state) (simp_all add: migration_state_def underway_start)
  have "\<exists>d'. initialize_format X True ?d = (Inr (), d') \<and> migrated X (kv d) (kv d')"
  proof (cases "migrated X (kv d) (kv ?e)")
    case True
    then have "migrated X (kv d) (kv ?d)" by simp
    from initialize_migrated[OF this] this show ?thesis by blast
  next
    case False
    with state have d: "underway X (kv d) (kv ?d)" "v1_format (kv ?d)" by (simp_all add: migration_state_def)
    from migrate_v1_completes[OF _ _ d(1) assms(3)] obtain d' where run: "migrate_v1 X ?d = (Inr (), d')" by auto
    from migrate_v1_from[OF this d assms(3)] run initialize_v1[OF d(2), of X] show ?thesis by auto
  qed
  moreover have "migrated X (kv d) (kv ?e)" if "bt_get (kv ?e) FORMAT_KEY = Some FORMAT"
    using state that by (simp add: migration_state_def v1_format_def)
  ultimately show ?thesis by blast
qed

theorem migration_loses_nothing_witness:
  "\<exists>d'. initialize_format sample_ext True
      ((attempts sample_ext [[FailDurable], [NoFault, FailClean]]
        \<lparr>kv = sample_v1, seqno = 7, closed = False, faults = []\<rparr>)\<lparr>closed := False, faults := []\<rparr>) = (Inr (), d')
    \<and> migrated sample_ext sample_v1 (kv d')"
proof -
  have "v1_format sample_v1" by (simp add: v1_format_def sample_v1_def FORMAT_KEY_def)
  then show ?thesis
    using migration_loses_nothing[of sample_ext "\<lparr>kv = sample_v1, seqno = 7, closed = False, faults = []\<rparr>"
        "[[FailDurable], [NoFault, FailClean]]"] sample_v1_store sample_json_codec
    by simp
qed

end
